(* ===== verification/Prelude.thy ===== *)
theory Prelude
  imports Main "HOL-Library.Word"
begin

text \<open>
  Shared vocabulary of the development: Go strings as lists of characters, the pieces of
  \<open>strconv\<close>, \<open>strings\<close> and \<open>fmt\<close> the sources use (decimal and hexadecimal
  numerals, \<open>strings.Join\<close>, \<open>strings.Split\<close>), the list idioms Go code is written in
  (first index with a property, removal by index, upsert), and the collections of
  simplification rules the components extend.
\<close>

named_theorems net_simps \<open>rewrite rules for addresses and CIDR text\<close>
named_theorems store_simps \<open>rewrite rules for the storage operations\<close>
named_theorems api_simps \<open>unfolding of the API predicates\<close>

type_synonym byte = "8 word"

section \<open>Errors\<close>

text \<open>An error is the list of the errors it wraps, by \<open>fmt.Errorf\<close> or by \<open>utils.AppendErr\<close>.\<close>

datatype go_err = ErrMsg string | ErrNoTarget

type_synonym go_error = "go_err list"

definition AppendErr :: "go_error option \<Rightarrow> go_error \<Rightarrow> go_error option" where
  "AppendErr errFinal err = (case errFinal of None \<Rightarrow> Some err | Some e \<Rightarrow> Some (e @ err))"

section \<open>Numerals\<close>

text \<open>Digits of a number in base \<open>b\<close>, most significant first; at least one digit.\<close>

fun digits :: "nat \<Rightarrow> nat \<Rightarrow> nat list" where
  "digits b n = (if b < 2 \<or> n < b then [n] else digits b (n div b) @ [n mod b])"

declare digits.simps [simp del]

definition undigits :: "nat \<Rightarrow> nat list \<Rightarrow> nat" where
  "undigits b ds = foldl (\<lambda>a d. a * b + d) 0 ds"

definition digit_char :: "nat \<Rightarrow> char" where
  "digit_char d = (if d < 10 then char_of (48 + d) else char_of (87 + d))"

text \<open>The value of a digit; hexadecimal letters in either case, as \<open>net/netip\<close> reads them.\<close>

definition char_digit :: "char \<Rightarrow> nat option" where
  "char_digit c = (let k = (of_char c :: nat) in
     if 48 \<le> k \<and> k \<le> 57 then Some (k - 48)
     else if 97 \<le> k \<and> k \<le> 102 then Some (k - 87)
     else if 65 \<le> k \<and> k \<le> 70 then Some (k - 55)
     else None)"

definition show_base :: "nat \<Rightarrow> nat \<Rightarrow> string" where
  "show_base b n = map digit_char (digits b n)"

text \<open>A non-empty run of digits below the base.\<close>

definition read_base :: "nat \<Rightarrow> string \<Rightarrow> nat option" where
  "read_base b s =
     (let ds = map char_digit s in
      if s \<noteq> [] \<and> list_all (\<lambda>d. case d of Some v \<Rightarrow> v < b | None \<Rightarrow> False) ds
      then Some (undigits b (map the ds)) else None)"

text \<open>\<open>strconv.Itoa\<close> and the verb \<open>%d\<close>.\<close>

definition show_nat :: "nat \<Rightarrow> string" where
  "show_nat n = show_base 10 n"

definition itoa :: "int \<Rightarrow> string" where
  "itoa i = (if i < 0 then CHR ''-'' # show_nat (nat (- i)) else show_nat (nat i))"

text \<open>\<open>strconv.Atoi\<close> on a 64-bit platform: an optional sign, decimal digits, and a value
  of type \<open>int\<close>.\<close>

definition atoi :: "string \<Rightarrow> int option" where
  "atoi s =
     (let (neg, body) = (case s of [] \<Rightarrow> (False, [])
                         | c # r \<Rightarrow> if c = CHR ''-'' then (True, r)
                                     else if c = CHR ''+'' then (False, r) else (False, c # r))
      in case read_base 10 body of None \<Rightarrow> None
         | Some n \<Rightarrow> (let v = (if neg then - int n else int n)
                      in if - (2 ^ 63) \<le> v \<and> v < 2 ^ 63 then Some v else None))"

section \<open>Strings\<close>

text \<open>\<open>strings.Join\<close>.\<close>

fun join :: "string \<Rightarrow> string list \<Rightarrow> string" where
  "join sep [] = []"
| "join sep [x] = x"
| "join sep (x # y # ys) = x @ sep @ join sep (y # ys)"

text \<open>\<open>strings.Split\<close> on a one-character separator: one more piece than separators.\<close>

fun split_on :: "char \<Rightarrow> string \<Rightarrow> string list" where
  "split_on c [] = [[]]"
| "split_on c (x # xs) =
     (if x = c then [] # split_on c xs
      else case split_on c xs of [] \<Rightarrow> [[x]] | p # ps \<Rightarrow> (x # p) # ps)"

section \<open>List idioms\<close>

text \<open>The first index whose element satisfies a predicate, as a Go range loop with an early
  return finds it.\<close>

fun find_index :: "('a \<Rightarrow> bool) \<Rightarrow> 'a list \<Rightarrow> nat option" where
  "find_index P [] = None"
| "find_index P (x # xs) = (if P x then Some 0 else map_option Suc (find_index P xs))"

text \<open>\<open>append(xs[:i], xs[i+1:]...)\<close>.\<close>

definition remove_index :: "nat \<Rightarrow> 'a list \<Rightarrow> 'a list" where
  "remove_index i xs = take i xs @ drop (Suc i) xs"

section \<open>Lemmas\<close>

lemma undigits_snoc [simp]: "undigits b (ds @ [d]) = undigits b ds * b + d"
  by (simp add: undigits_def)

lemma undigits_Nil [simp]: "undigits b [] = 0"
  by (simp add: undigits_def)

lemma undigits_single [simp]: "undigits b [d] = d"
  by (simp add: undigits_def)

lemma undigits_digits [simp]: "undigits b (digits b n) = n"
proof (induction b n rule: digits.induct)
  case (1 b n)
  show ?case
  proof (cases "b < 2 \<or> n < b")
    case True
    then show ?thesis by (simp add: digits.simps [of b n])
  next
    case False
    with 1 have "undigits b (digits b (n div b)) = n div b" by simp
    with False show ?thesis by (simp add: digits.simps [of b n])
  qed
qed

lemma digits_less: "2 \<le> b \<Longrightarrow> d \<in> set (digits b n) \<Longrightarrow> d < b"
proof (induction b n rule: digits.induct)
  case (1 b n)
  show ?case
  proof (cases "n < b")
    case True
    with 1 show ?thesis by (simp add: digits.simps [of b n])
  next
    case False
    with 1 show ?thesis by (auto simp: digits.simps [of b n])
  qed
qed

lemma digits_not_Nil [simp]: "digits b n \<noteq> []"
  by (subst digits.simps) simp

lemma digits_single: "n < b \<Longrightarrow> digits b n = [n]"
  by (subst digits.simps) simp

lemma digits_double: "2 \<le> b \<Longrightarrow> b \<le> n \<Longrightarrow> digits b n = digits b (n div b) @ [n mod b]"
  by (subst digits.simps) simp

lemma length_digits: "2 \<le> b \<Longrightarrow> 0 < k \<Longrightarrow> n < b ^ k \<Longrightarrow> length (digits b n) \<le> k"
proof (induction k arbitrary: n)
  case 0
  then show ?case by simp
next
  case (Suc k)
  show ?case
  proof (cases "n < b")
    case True
    then show ?thesis by (simp add: digits_single)
  next
    case False
    with Suc.prems have k: "0 < k" by (cases k) auto
    from Suc.prems have "n div b < b ^ k"
      by (simp add: less_mult_imp_div_less mult.commute)
    with Suc.IH Suc.prems k have "length (digits b (n div b)) \<le> k" by blast
    with False Suc.prems show ?thesis by (simp add: digits_double)
  qed
qed

lemma hd_digits: "2 \<le> b \<Longrightarrow> b \<le> n \<Longrightarrow> hd (digits b n) \<noteq> 0"
proof (induction b n rule: digits.induct)
  case (1 b n)
  then have split: "digits b n = digits b (n div b) @ [n mod b]" by (simp add: digits_double)
  show ?case
  proof (cases "n div b < b")
    case True
    from 1 have "0 < n div b" by (simp add: div_greater_zero_iff)
    with True show ?thesis by (simp add: split digits_single)
  next
    case False
    with 1 have "hd (digits b (n div b)) \<noteq> 0" by simp
    then show ?thesis by (simp add: split)
  qed
qed

lemma char_digit_digit_char [simp]: "d < 16 \<Longrightarrow> char_digit (digit_char d) = Some d"
  by (auto simp: char_digit_def digit_char_def Let_def)

lemma char_digit_unique: "char_digit c = Some d \<Longrightarrow> d < 10 \<Longrightarrow> c = digit_char d"
  by (auto simp: char_digit_def digit_char_def Let_def split: if_splits)

lemma show_base_not_Nil [simp]: "show_base b n \<noteq> []"
  by (simp add: show_base_def)

lemma read_show_base [simp]:
  assumes "2 \<le> b" "b \<le> 16"
  shows "read_base b (show_base b n) = Some n"
proof -
  have d: "d \<in> set (digits b n) \<Longrightarrow> d < 16 \<and> d < b" for d
    using digits_less [of b d n] assms by simp
  have m: "map char_digit (show_base b n) = map Some (digits b n)"
    using d by (simp add: show_base_def)
  show ?thesis
    unfolding read_base_def m Let_def
    using d by (simp add: list_all_iff comp_def)
qed

lemma show_base_chars:
  assumes "2 \<le> b" "b \<le> 16" "c \<in> set (show_base b n)"
  shows "char_digit c \<noteq> None"
proof -
  from assms(3) obtain d where "c = digit_char d" "d \<in> set (digits b n)"
    by (auto simp: show_base_def)
  with digits_less [of b d n] assms show ?thesis by simp
qed

lemma separators_no_digit [simp]:
  "char_digit (CHR ''.'') = None" "char_digit (CHR '':'') = None"
  "char_digit (CHR ''/'') = None" "char_digit (CHR ''-'') = None" "char_digit (CHR ''+'') = None"
  by (simp_all add: char_digit_def)

lemma show_nat_chars:
  "CHR ''.'' \<notin> set (show_nat n)" "CHR '':'' \<notin> set (show_nat n)" "CHR ''/'' \<notin> set (show_nat n)"
  "CHR ''-'' \<notin> set (show_nat n)" "CHR ''+'' \<notin> set (show_nat n)"
  using show_base_chars [of 10 _ n] by (force simp: show_nat_def)+

lemma show_nat_inj [simp]: "show_nat m = show_nat n \<longleftrightarrow> m = n"
proof
  assume "show_nat m = show_nat n"
  then have "read_base 10 (show_base 10 m) = read_base 10 (show_base 10 n)"
    by (simp add: show_nat_def)
  then show "m = n" by simp
qed simp

lemma itoa_inj [simp]: "itoa i = itoa j \<longleftrightarrow> i = j"
  using show_nat_chars(4) by (auto simp: itoa_def split: if_splits)
    (metis list.set_intros(1) show_nat_chars(4))+

text \<open>Two strings that are equal up to a first separator are equal before and after it.\<close>

lemma split_first:
  assumes "a @ c # r = a' @ c # r'" "c \<notin> set a" "c \<notin> set a'"
  shows "a = a' \<and> r = r'"
proof -
  have "takeWhile ((\<noteq>) c) (a @ c # r) = a" "takeWhile ((\<noteq>) c) (a' @ c # r') = a'"
    using assms(2,3) by (simp_all add: takeWhile_append)
  with assms(1) show ?thesis by simp
qed

lemma split_on_not_Nil [simp]: "split_on c s \<noteq> []"
  by (cases s) (auto split: list.splits)

lemma split_on_none: "c \<notin> set s \<Longrightarrow> split_on c s = [s]"
  by (induction s) auto

lemma split_on_append: "c \<notin> set p \<Longrightarrow> split_on c (p @ c # r) = p # split_on c r"
  by (induction p) auto

lemma split_on_join:
  "\<forall>p \<in> set ps. c \<notin> set p \<Longrightarrow> ps \<noteq> [] \<Longrightarrow> split_on c (join [c] ps) = ps"
proof (induction "[c]" ps rule: join.induct)
  case (2 x)
  then show ?case by (simp add: split_on_none)
next
  case (3 x y ys)
  then show ?case by (simp add: split_on_append)
qed simp

lemma join_split_on: "join [c] (split_on c s) = s"
proof (induction s)
  case (Cons x s)
  show ?case
  proof (cases "split_on c s")
    case Nil
    then show ?thesis by simp
  next
    case (Cons p ps)
    with \<open>join [c] (split_on c s) = s\<close> show ?thesis
      by (cases ps) auto
  qed
qed simp

lemma find_index_None [simp]: "find_index P xs = None \<longleftrightarrow> (\<forall>x \<in> set xs. \<not> P x)"
  by (induction xs) auto

lemma find_index_Some:
  "find_index P xs = Some i \<longleftrightarrow> i < length xs \<and> P (xs ! i) \<and> (\<forall>j < i. \<not> P (xs ! j))"
proof (induction xs arbitrary: i)
  case (Cons x xs)
  show ?case
  proof (cases "P x")
    case True
    then show ?thesis by (cases i) auto
  next
    case False
    with Cons show ?thesis by (cases i) (auto simp: less_Suc_eq_0_disj)
  qed
qed simp

lemma find_index_SomeD:
  assumes "find_index P xs = Some i"
  shows "i < length xs" "P (xs ! i)" "xs ! i \<in> set xs"
  using assms by (auto simp: find_index_Some)

lemma set_remove_index_subset: "set (remove_index i xs) \<subseteq> set xs"
  by (auto simp: remove_index_def dest: in_set_takeD in_set_dropD)

lemma remove_index_Cons [simp]:
  "remove_index 0 (x # xs) = xs" "remove_index (Suc i) (x # xs) = x # remove_index i xs"
  by (simp_all add: remove_index_def)

lemma length_remove_index: "i < length xs \<Longrightarrow> length (remove_index i xs) = length xs - 1"
  by (simp add: remove_index_def)

lemma distinct_map_remove_index:
  "distinct (map f xs) \<Longrightarrow> distinct (map f (remove_index i xs))"
proof (induction xs arbitrary: i)
  case (Cons x xs)
  then show ?case
    using set_remove_index_subset [of _ xs] by (cases i) auto
qed (simp add: remove_index_def)

lemma set_remove_index:
  "distinct (map f xs) \<Longrightarrow> i < length xs \<Longrightarrow>
     set (remove_index i xs) = {x \<in> set xs. f x \<noteq> f (xs ! i)}"
proof (induction xs arbitrary: i)
  case (Cons x xs)
  show ?case
  proof (cases i)
    case 0
    from Cons.prems have "\<forall>y \<in> set xs. f y \<noteq> f x" by (auto simp: image_iff)
    with 0 show ?thesis by auto
  next
    case (Suc j)
    with Cons.prems have j: "j < length xs" by simp
    with Cons.prems have "f x \<noteq> f (xs ! j)" by (auto simp: image_iff)
    with Cons Suc j show ?thesis by auto
  qed
qed simp

lemma filter_single:
  assumes "distinct xs" "x \<in> set xs" "P x" "\<forall>y \<in> set xs. P y \<longrightarrow> y = x"
  shows "filter P xs = [x]"
proof -
  from assms(2) obtain ys zs where xs: "xs = ys @ x # zs" by (auto dest: split_list)
  have "filter P ys = []" "filter P zs = []"
    using assms(1,4) unfolding xs filter_empty_conv by fastforce+
  with xs assms(3) show ?thesis by simp
qed

end
