(* ===== verification/GoNet.thy ===== *)
theory GoNet
  imports Prelude
begin

unbundle bit_operations_syntax

text \<open>
  The part of Go's packages \<open>net\<close> and \<open>net/netip\<close> the sources use: IP addresses as byte
  slices, networks with a canonical mask, \<open>net.ParseCIDR\<close>, \<open>net.ParseIP\<close>,
  \<open>IP.String\<close>, \<open>IPNet.String\<close> and \<open>IPNet.Contains\<close>. Text is text: dotted
  decimal for IPv4, hexadecimal groups with the longest run of zeros compressed for IPv6, and
  the dotted form Go prints for an IPv4-mapped address. A canonical mask is kept as its number
  of leading ones; its length in bytes is that of the address, which is what
  \<open>net.ParseCIDR\<close> builds. The main lemma is that printing an address and parsing it
  again gives it back (\<open>parse_addr_string\<close>).
\<close>

type_synonym ip = "byte list"

record ipnet =
  net_ip :: ip
  net_ones :: nat

section \<open>Addresses\<close>

definition v4mapped :: "ip \<Rightarrow> bool" where
  "v4mapped a \<longleftrightarrow> length a = 16 \<and> take 12 a = replicate 10 0 @ [255, 255]"

text \<open>\<open>IP.To4\<close> and \<open>IP.To16\<close>.\<close>

definition to4 :: "ip \<Rightarrow> ip option" where
  "to4 a = (if length a = 4 then Some a else if v4mapped a then Some (drop 12 a) else None)"

definition to16 :: "ip \<Rightarrow> ip" where
  "to16 a = (if length a = 4 then replicate 10 0 @ [255, 255] @ a else a)"

definition ip_equal :: "ip \<Rightarrow> ip \<Rightarrow> bool" where
  "ip_equal a b \<longleftrightarrow> to16 a = to16 b"

text \<open>\<open>CIDRMask\<close>: byte \<open>i\<close> of a mask with \<open>n\<close> leading ones.\<close>

definition mask_byte :: "nat \<Rightarrow> byte" where
  "mask_byte k = NOT (mask (8 - min 8 k))"

definition cidr_mask :: "nat \<Rightarrow> nat \<Rightarrow> byte list" where
  "cidr_mask n len = map (\<lambda>i. mask_byte (n - 8 * i)) [0..<len]"

definition ip_mask :: "ip \<Rightarrow> byte list \<Rightarrow> ip" where
  "ip_mask a m = map2 (AND) a m"

definition net_bits :: "ipnet \<Rightarrow> nat" where
  "net_bits n = 8 * length (net_ip n)"

definition network_number_and_mask :: "ipnet \<Rightarrow> ip \<times> byte list" where
  "network_number_and_mask n =
     (let m = cidr_mask (net_ones n) (length (net_ip n)) in
      case to4 (net_ip n) of
        Some a \<Rightarrow> (a, if length (net_ip n) = 16 then drop 12 m else m)
      | None \<Rightarrow> (net_ip n, m))"

definition contains :: "ipnet \<Rightarrow> ip \<Rightarrow> bool" where
  "contains n a =
     (let (nn, m) = network_number_and_mask n;
          b = (case to4 a of Some x \<Rightarrow> x | None \<Rightarrow> a)
      in length b = length nn \<and> ip_mask nn m = ip_mask b m)"

section \<open>Printing\<close>

definition ipv4_string :: "ip \<Rightarrow> string" where
  "ipv4_string a = join ''.'' (map (\<lambda>b. show_nat (unat b)) a)"

fun groups :: "ip \<Rightarrow> nat list" where
  "groups (a # b # r) = (256 * unat a + unat b) # groups r"
| "groups _ = []"

fun ungroups :: "nat list \<Rightarrow> ip" where
  "ungroups [] = []"
| "ungroups (g # gs) = of_nat (g div 256) # of_nat (g mod 256) # ungroups gs"

definition zero_run :: "nat list \<Rightarrow> nat \<Rightarrow> nat" where
  "zero_run gs i = length (takeWhile (\<lambda>g. g = 0) (drop i gs))"

text \<open>The longest run of at least two zero groups, the first one among equals.\<close>

definition best_run :: "nat list \<Rightarrow> nat \<times> nat" where
  "best_run gs = foldl (\<lambda>(s, e) i. if 2 \<le> zero_run gs i \<and> e - s < zero_run gs i
                                   then (i, i + zero_run gs i) else (s, e)) (255, 255) [0..<8]"

definition hex_groups :: "nat list \<Rightarrow> string" where
  "hex_groups gs = join '':'' (map (show_base 16) gs)"

definition ipv6_string :: "ip \<Rightarrow> string" where
  "ipv6_string a =
     (let gs = groups a; (s, e) = best_run gs in
      if s = 255 then hex_groups gs
      else hex_groups (take s gs) @ ''::'' @ hex_groups (drop e gs))"

definition ip_string :: "ip \<Rightarrow> string" where
  "ip_string a = (case to4 a of Some x \<Rightarrow> ipv4_string x | None \<Rightarrow> ipv6_string a)"

definition ipnet_string :: "ipnet \<Rightarrow> string" where
  "ipnet_string n =
     (let ones = (if length (net_ip n) = 16 \<and> v4mapped (net_ip n) then net_ones n - 96 else net_ones n)
      in ip_string (net_ip n) @ ''/'' @ show_nat ones)"

section \<open>Parsing\<close>

definition parse_octet :: "string \<Rightarrow> nat option" where
  "parse_octet p =
     (case read_base 10 p of None \<Rightarrow> None
      | Some v \<Rightarrow> if v \<le> 255 \<and> length p \<le> 3 \<and> (length p = 1 \<or> hd p \<noteq> CHR ''0'') then Some v else None)"

definition parse_ipv4 :: "string \<Rightarrow> ip option" where
  "parse_ipv4 s =
     (case map parse_octet (split_on (CHR ''.'') s) of
        [Some a, Some b, Some c, Some d] \<Rightarrow> Some [of_nat a, of_nat b, of_nat c, of_nat d]
      | _ \<Rightarrow> None)"

definition parse_group :: "string \<Rightarrow> nat option" where
  "parse_group p = (if length p \<le> 4 then read_base 16 p else None)"

fun parse_groups :: "bool \<Rightarrow> string list \<Rightarrow> nat list option" where
  "parse_groups tail4 [] = Some []"
| "parse_groups tail4 [p] =
     (case parse_group p of Some g \<Rightarrow> Some [g]
      | None \<Rightarrow> if tail4 then map_option groups (parse_ipv4 p) else None)"
| "parse_groups tail4 (p # q # ps) =
     (case parse_group p of None \<Rightarrow> None
      | Some g \<Rightarrow> map_option ((#) g) (parse_groups tail4 (q # ps)))"

text \<open>The text before and after the first \<open>::\<close>.\<close>

fun split_dcolon :: "string \<Rightarrow> (string \<times> string) option" where
  "split_dcolon (a # b # r) =
     (if a = CHR '':'' \<and> b = CHR '':'' then Some ([], r)
      else map_option (\<lambda>(x, y). (a # x, y)) (split_dcolon (b # r)))"
| "split_dcolon _ = None"

definition pieces :: "string \<Rightarrow> string list" where
  "pieces s = (if s = [] then [] else split_on (CHR '':'') s)"

definition parse_ipv6 :: "string \<Rightarrow> ip option" where
  "parse_ipv6 s =
     (case split_dcolon s of
        None \<Rightarrow>
          (case parse_groups True (split_on (CHR '':'') s) of
             Some gs \<Rightarrow> if length gs = 8 then Some (ungroups gs) else None
           | None \<Rightarrow> None)
      | Some (l, r) \<Rightarrow>
          (case (parse_groups False (pieces l), parse_groups True (pieces r)) of
             (Some gl, Some gr) \<Rightarrow>
               if length gl + length gr \<le> 7
               then Some (ungroups (gl @ replicate (8 - (length gl + length gr)) 0 @ gr)) else None
           | _ \<Rightarrow> None))"

text \<open>\<open>netip.ParseAddr\<close>: the first of the characters \<open>.\<close>, \<open>:\<close> and \<open>%\<close> decides. Zones are
  not accepted by the callers.\<close>

definition parse_addr :: "string \<Rightarrow> ip option" where
  "parse_addr s =
     (case find (\<lambda>c. c = CHR ''.'' \<or> c = CHR '':'' \<or> c = CHR ''%'') s of
        None \<Rightarrow> None
      | Some c \<Rightarrow> if c = CHR ''.'' then parse_ipv4 s
                  else if c = CHR '':'' then parse_ipv6 s else None)"

text \<open>\<open>net.ParseIP\<close> returns the 16-byte form.\<close>

definition parse_ip :: "string \<Rightarrow> ip option" where
  "parse_ip s = map_option to16 (parse_addr s)"

text \<open>\<open>net.ParseCIDR\<close>: the address (in 16-byte form) and the network it is in.\<close>

definition parse_cidr :: "string \<Rightarrow> (ip \<times> ipnet) option" where
  "parse_cidr s =
     (case find_index (\<lambda>c. c = CHR ''/'') s of None \<Rightarrow> None
      | Some i \<Rightarrow>
          (case (parse_addr (take i s), read_base 10 (drop (Suc i) s)) of
             (Some a, Some n) \<Rightarrow>
               if n \<le> 8 * length a
               then Some (to16 a, \<lparr>net_ip = ip_mask a (cidr_mask n (length a)), net_ones = n\<rparr>)
               else None
           | _ \<Rightarrow> None))"

text \<open>\<open>fmt.Sprintf("%s/%d", ip, length)\<close>.\<close>

definition cidr_of :: "ip \<Rightarrow> nat \<Rightarrow> string" where
  "cidr_of a n = ip_string a @ ''/'' @ show_nat n"

text \<open>An address whose text is that of its own family: IPv4, or IPv6 outside the mapped range.\<close>

definition plain :: "ip \<Rightarrow> bool" where
  "plain a \<longleftrightarrow> length a = 4 \<or> (length a = 16 \<and> \<not> v4mapped a)"

section \<open>Text lemmas\<close>

lemma unat_byte_less [simp]: "unat (b :: byte) < 256"
  using unsigned_less [of b] by simp

lemma parse_octet_show:
  assumes "v \<le> 255"
  shows "parse_octet (show_nat v) = Some v"
proof -
  have "length (digits 10 v) \<le> 3"
    using assms by (intro length_digits) simp_all
  moreover have "length (digits 10 v) = 1 \<or> hd (show_base 10 v) \<noteq> CHR ''0''"
  proof (cases "v < 10")
    case True
    then show ?thesis by (simp add: digits_single)
  next
    case False
    then have h: "hd (digits 10 v) \<noteq> 0" by (simp add: hd_digits)
    have "hd (digits 10 v) < 10" using digits_less [of 10 "hd (digits 10 v)" v] by simp
    then have "char_digit (digit_char (hd (digits 10 v))) = Some (hd (digits 10 v))" by simp
    with h have "digit_char (hd (digits 10 v)) \<noteq> CHR ''0''"
      by (auto simp: char_digit_def)
    then show ?thesis by (simp add: show_base_def hd_map)
  qed
  ultimately show ?thesis
    using assms by (simp add: parse_octet_def show_nat_def) (simp add: show_base_def)
qed


lemma length4E:
  assumes "length a = 4"
  obtains w x y z where "a = [w, x, y, z]"
  using assms by (auto simp: numeral_eq_Suc length_Suc_conv)

lemma octet_byte [simp]: "parse_octet (show_nat (unat (b :: byte))) = Some (unat b)"
  using unat_byte_less [of b] by (intro parse_octet_show) linarith

lemma parse_ipv4_string [net_simps]:
  assumes "length a = 4"
  shows "parse_ipv4 (ipv4_string a) = Some a"
proof -
  have "split_on (CHR ''.'') (ipv4_string a) = map (\<lambda>b. show_nat (unat b)) a"
    unfolding ipv4_string_def using assms show_nat_chars(1) by (intro split_on_join) auto
  with assms show ?thesis by (auto simp: parse_ipv4_def elim!: length4E)
qed

lemma find_in_join_first:
  assumes "ps \<noteq> []" "tl ps \<noteq> []" "\<forall>c \<in> set (hd ps). \<not> P c" "P s"
  shows "find P (join [s] ps) = Some s"
proof -
  have pre: "find P (x @ s # r) = Some s" if "\<forall>c \<in> set x. \<not> P c" for x r
    using that \<open>P s\<close> by (induction x) auto
  from assms(1,2) obtain x y ys where "ps = x # y # ys"
    by (cases ps; cases "tl ps") auto
  with pre assms(3) show ?thesis by auto
qed

lemma parse_addr_ipv4 [net_simps]:
  assumes "length a = 4"
  shows "parse_addr (ipv4_string a) = Some a"
proof -
  have "find (\<lambda>c. c = CHR ''.'' \<or> c = CHR '':'' \<or> c = CHR ''%'') (ipv4_string a) = Some (CHR ''.'')"
    unfolding ipv4_string_def using assms
    by (auto elim!: length4E intro!: find_in_join_first
        simp: show_nat_def dest: show_base_chars [rotated 2])
      (auto dest!: show_base_chars [rotated 2] simp: char_digit_def)
  with assms show ?thesis by (simp add: parse_addr_def parse_ipv4_string)
qed


lemma hex_chars:
  assumes "c \<in> set (show_base 16 g)"
  shows "c \<noteq> CHR '':''" "c \<noteq> CHR ''.''" "c \<noteq> CHR ''%''" "c \<noteq> CHR ''/''"
  using show_base_chars [of 16 c g] assms by (auto simp: char_digit_def)

lemma parse_group_show: "g < 65536 \<Longrightarrow> parse_group (show_base 16 g) = Some g"
  using length_digits [of 16 4 g] length_map [of digit_char "digits 16 g"]
  by (simp add: parse_group_def) (simp add: show_base_def)

lemma parse_groups_show:
  "\<forall>g \<in> set gs. g < 65536 \<Longrightarrow> parse_groups t (map (show_base 16) gs) = Some gs"
proof (induction gs)
  case (Cons g gs)
  then show ?case by (cases gs) (auto simp: parse_group_show)
qed simp

lemma split_dcolon_Cons:
  "a \<noteq> CHR '':'' \<Longrightarrow> split_dcolon (a # z) = map_option (\<lambda>(l, q). (a # l, q)) (split_dcolon z)"
  by (cases z) simp_all

lemma split_dcolon_skip:
  "CHR '':'' \<notin> set x \<Longrightarrow> split_dcolon (x @ r) = map_option (\<lambda>(l, q). (x @ l, q)) (split_dcolon r)"
proof (induction x)
  case Nil
  then show ?case by (cases "split_dcolon r") auto
next
  case (Cons a x)
  then have "split_dcolon ((a # x) @ r) = map_option (\<lambda>(l, q). (a # l, q)) (split_dcolon (x @ r))"
    using split_dcolon_Cons [of a "x @ r"] by auto
  with Cons show ?case by (cases "split_dcolon r") auto
qed

lemma split_dcolon_join:
  "ps \<noteq> [] \<Longrightarrow> \<forall>p \<in> set ps. p \<noteq> [] \<and> CHR '':'' \<notin> set p \<Longrightarrow>
     split_dcolon (join '':'' ps @ r) = map_option (\<lambda>(l, q). (join '':'' ps @ l, q)) (split_dcolon r)"
proof (induction "'':''" ps rule: join.induct)
  case (2 x)
  then show ?case by (simp add: split_dcolon_skip)
next
  case (3 x y ys)
  then have ih: "split_dcolon (join '':'' (y # ys) @ r) =
      map_option (\<lambda>(l, q). (join '':'' (y # ys) @ l, q)) (split_dcolon r)" by simp
  from 3 obtain c z where yz: "join '':'' (y # ys) @ r = c # z" "c \<noteq> CHR '':''"
    by (cases y; cases ys) auto
  have "split_dcolon (CHR '':'' # join '':'' (y # ys) @ r) =
      map_option (\<lambda>(l, q). (CHR '':'' # l, q)) (split_dcolon (join '':'' (y # ys) @ r))"
    unfolding yz(1) using yz(2) by simp
  with ih 3 show ?case
    by (cases "split_dcolon r") (auto simp: split_dcolon_skip)
qed simp

lemma hex_group_list:
  "\<forall>p \<in> set (map (show_base 16) gs). p \<noteq> [] \<and> CHR '':'' \<notin> set p"
  using hex_chars(1) by auto

lemma split_dcolon_hex_None: "split_dcolon (hex_groups gs) = None"
  using split_dcolon_join [OF _ hex_group_list, of gs "[]"]
  by (cases "gs = []") (simp_all add: hex_groups_def)

lemma split_dcolon_hex:
  "split_dcolon (hex_groups gs @ ''::'' @ r) = Some (hex_groups gs, r)"
  using split_dcolon_join [OF _ hex_group_list, of gs "''::'' @ r"]
  by (cases "gs = []") (simp_all add: hex_groups_def)

lemma split_on_hex: "gs \<noteq> [] \<Longrightarrow> split_on (CHR '':'') (hex_groups gs) = map (show_base 16) gs"
  unfolding hex_groups_def using hex_group_list by (intro split_on_join) auto

lemma hex_groups_Nil_iff [simp]: "hex_groups gs = [] \<longleftrightarrow> gs = []"
  by (cases gs rule: remdups_adj.cases) (simp_all add: hex_groups_def)

lemma pieces_hex: "pieces (hex_groups gs) = map (show_base 16) gs"
  by (simp add: pieces_def split_on_hex)

lemma length_groups [simp]: "length (groups a) = length a div 2"
  by (induction a rule: groups.induct) auto

lemma groups_less: "g \<in> set (groups a) \<Longrightarrow> g < 65536"
proof (induction a rule: groups.induct)
  case (1 a b r)
  have "256 * unat a + unat b < 65536"
    using unat_byte_less [of a] unat_byte_less [of b] by linarith
  with 1 show ?case by auto
qed simp_all

lemma ungroups_groups: "even (length a) \<Longrightarrow> ungroups (groups a) = a"
  by (induction a rule: groups.induct) auto

lemma best_run_cases:
  assumes "best_run gs = (s, e)" "length gs = 8"
  shows "s = 255 \<or> (s < 8 \<and> e = s + zero_run gs s \<and> 2 \<le> zero_run gs s)"
proof -
  have "\<And>ks s0 e0 s e. foldl (\<lambda>(s, e) i. if 2 \<le> zero_run gs i \<and> e - s < zero_run gs i
            then (i, i + zero_run gs i) else (s, e)) (s0, e0) ks = (s, e) \<Longrightarrow> set ks \<subseteq> {..<8} \<Longrightarrow>
          s0 = 255 \<or> (s0 < 8 \<and> e0 = s0 + zero_run gs s0 \<and> 2 \<le> zero_run gs s0) \<Longrightarrow>
          s = 255 \<or> (s < 8 \<and> e = s + zero_run gs s \<and> 2 \<le> zero_run gs s)"
    subgoal for ks s0 e0 s e by (induction ks arbitrary: s0 e0) (auto split: if_splits)
    done
  from this [OF assms(1) [unfolded best_run_def]] show ?thesis
    by (auto simp: atLeast0LessThan)
qed

lemma zero_run_split:
  "gs = take s gs @ replicate (zero_run gs s) 0 @ drop (s + zero_run gs s) gs"
proof -
  let ?P = "\<lambda>g. g = (0::nat)"
  have "takeWhile ?P (drop s gs) = replicate (zero_run gs s) 0"
    unfolding zero_run_def by (intro replicate_eqI) (auto dest: set_takeWhileD)
  moreover have "dropWhile ?P (drop s gs) = drop (s + zero_run gs s) gs"
    by (simp add: dropWhile_eq_drop zero_run_def add.commute)
  ultimately have "drop s gs = replicate (zero_run gs s) 0 @ drop (s + zero_run gs s) gs"
    using takeWhile_dropWhile_id [of ?P "drop s gs"] by simp
  then show ?thesis by (metis append_take_drop_id)
qed


lemma parse_ipv6_string:
  assumes "length a = 16"
  shows "parse_ipv6 (ipv6_string a) = Some a"
proof -
  let ?gs = "groups a"
  have len: "length ?gs = 8" and small: "\<forall>g \<in> set ?gs. g < 65536" and unfold: "ungroups ?gs = a"
    using assms groups_less by (auto simp: ungroups_groups)
  obtain s e where run: "best_run ?gs = (s, e)" by fastforce
  show ?thesis
  proof (cases "s = 255")
    case True
    have "?gs \<noteq> []" using len by (cases ?gs) (simp_all del: length_groups)
    with True run len small unfold show ?thesis
      by (simp add: ipv6_string_def Let_def parse_ipv6_def split_dcolon_hex_None split_on_hex parse_groups_show)
  next
    case False
    with best_run_cases [OF run len] have s: "s < 8" "e = s + zero_run ?gs s" "2 \<le> zero_run ?gs s"
      by auto
    have part: "?gs = take s ?gs @ replicate (zero_run ?gs s) 0 @ drop e ?gs"
      unfolding s(2) by (rule zero_run_split)
    then have "length ?gs = s + zero_run ?gs s + length (drop e ?gs)"
      using s(1) len by (metis add.assoc length_append length_replicate length_take min.strict_order_iff min.commute)
    with len have lens: "length (take s ?gs) + length (drop e ?gs) \<le> 7"
        "8 - (length (take s ?gs) + length (drop e ?gs)) = zero_run ?gs s"
      using s by simp_all
    have "\<forall>g \<in> set (take s ?gs). g < 65536" "\<forall>g \<in> set (drop e ?gs). g < 65536"
      using small by (auto dest: in_set_takeD in_set_dropD)
    then have "parse_ipv6 (ipv6_string a) =
        Some (ungroups (take s ?gs @ replicate (zero_run ?gs s) 0 @ drop e ?gs))"
      using False run lens
      by (simp add: ipv6_string_def Let_def parse_ipv6_def split_dcolon_hex [simplified] pieces_hex parse_groups_show
          del: length_take length_drop)
    with part unfold show ?thesis by simp
  qed
qed

lemma find_colon_hex:
  assumes "r \<noteq> [] \<Longrightarrow> hd r = CHR '':''" "r \<noteq> [] \<or> 2 \<le> length gs"
  shows "find (\<lambda>c. c = CHR ''.'' \<or> c = CHR '':'' \<or> c = CHR ''%'') (hex_groups gs @ r) = Some (CHR '':'')"
proof -
  have skip: "find (\<lambda>c. c = CHR ''.'' \<or> c = CHR '':'' \<or> c = CHR ''%'') (show_base 16 g @ CHR '':'' # q)
      = Some (CHR '':'')" for g q
  proof -
    have "\<forall>c \<in> set x. c \<noteq> CHR ''.'' \<and> c \<noteq> CHR '':'' \<and> c \<noteq> CHR ''%'' \<Longrightarrow>
        find (\<lambda>c. c = CHR ''.'' \<or> c = CHR '':'' \<or> c = CHR ''%'') (x @ CHR '':'' # q) = Some (CHR '':'')"
      for x by (induction x) auto
    then show ?thesis using hex_chars by blast
  qed
  show ?thesis
  proof (cases gs)
    case Nil
    with assms show ?thesis by (cases r) (auto simp: hex_groups_def)
  next
    case (Cons g gs')
    with assms show ?thesis
      by (cases gs'; cases r) (auto simp: hex_groups_def skip)
  qed
qed

lemma parse_addr_ipv6:
  assumes "length a = 16"
  shows "parse_addr (ipv6_string a) = Some a"
proof -
  obtain s e where run: "best_run (groups a) = (s, e)" by fastforce
  have "find (\<lambda>c. c = CHR ''.'' \<or> c = CHR '':'' \<or> c = CHR ''%'') (ipv6_string a) = Some (CHR '':'')"
    using run assms find_colon_hex [of "[]" "groups a"]
      find_colon_hex [of "''::'' @ hex_groups (drop e (groups a))" "take s (groups a)"]
    by (simp add: ipv6_string_def Let_def)
  then show ?thesis using assms by (simp add: parse_addr_def parse_ipv6_string)
qed

lemma parse_addr_string [net_simps]: "plain a \<Longrightarrow> parse_addr (ip_string a) = Some a"
  by (auto simp: plain_def ip_string_def to4_def parse_addr_ipv4 parse_addr_ipv6)

lemma slash_not_in_ip_string: "CHR ''/'' \<notin> set (ip_string a)"
proof -
  have in_join: "c \<in> set (join sep ps) \<Longrightarrow> c \<in> set sep \<or> (\<exists>p \<in> set ps. c \<in> set p)" for c sep ps
    by (induction sep ps rule: join.induct) auto
  have "CHR ''/'' \<notin> set (hex_groups gs)" for gs
    using in_join [of "CHR ''/''" "'':''" "map (show_base 16) gs"] hex_chars(4) [of "CHR ''/''"]
    by (auto simp: hex_groups_def)
  moreover have "CHR ''/'' \<notin> set (ipv4_string x)" for x
    using in_join [of "CHR ''/''" "''.''"] show_nat_chars(3) by (fastforce simp: ipv4_string_def)
  ultimately show ?thesis
    by (auto simp: ip_string_def ipv6_string_def Let_def split: option.split prod.split if_splits)
qed

lemma parse_cidr_cidr_of [net_simps]:
  assumes "plain a"
  shows "parse_cidr (cidr_of a n) =
    (if n \<le> 8 * length a
     then Some (to16 a, \<lparr>net_ip = ip_mask a (cidr_mask n (length a)), net_ones = n\<rparr>) else None)"
proof -
  have idx: "find_index (\<lambda>c. c = x) (p @ x # q) = Some (length p)" if "x \<notin> set p" for x :: char and p q
    using that by (induction p) auto
  have "find_index (\<lambda>c. c = CHR ''/'') (cidr_of a n) = Some (length (ip_string a))"
    unfolding cidr_of_def using idx [OF slash_not_in_ip_string [of a], of "show_nat n"] by simp
  then show ?thesis
    using assms by (simp add: parse_cidr_def cidr_of_def parse_addr_string show_nat_def)
qed


section \<open>Evaluation on concrete text\<close>

lemma digit_char_table:
  "digit_char 0 = CHR ''0''" "digit_char (Suc 0) = CHR ''1''" "digit_char 2 = CHR ''2''"
  "digit_char 3 = CHR ''3''" "digit_char 4 = CHR ''4''" "digit_char 5 = CHR ''5''"
  "digit_char 6 = CHR ''6''" "digit_char 7 = CHR ''7''" "digit_char 8 = CHR ''8''"
  "digit_char 9 = CHR ''9''" "digit_char 10 = CHR ''a''" "digit_char 11 = CHR ''b''"
  "digit_char 12 = CHR ''c''" "digit_char 13 = CHR ''d''" "digit_char 14 = CHR ''e''"
  "digit_char 15 = CHR ''f''"
  by (simp_all add: digit_char_def char_of_def bit_0)

lemma mask_byte_table:
  "mask_byte 0 = 0" "mask_byte (Suc 0) = 128" "mask_byte 2 = 192" "mask_byte 3 = 224"
  "mask_byte 4 = 240" "mask_byte 5 = 248" "mask_byte 6 = 252" "mask_byte 7 = 254"
  by (simp_all add: mask_byte_def mask_numeral)

lemma mask_byte_full: "8 \<le> k \<Longrightarrow> mask_byte k = 255"
  by (simp add: mask_byte_def)

lemmas net_eval =
  parse_cidr_def parse_ip_def parse_addr_def parse_ipv4_def parse_octet_def read_base_def
  char_digit_def undigits_def cidr_mask_def mask_byte_table mask_byte_full upt_rec ip_mask_def
  to4_def to16_def v4mapped_def ip_string_def ipv4_string_def show_nat_def show_base_def digits.simps
  digit_char_table ipnet_string_def cidr_of_def contains_def network_number_and_mask_def

end
