(* ===== verification/IpamPrefix.thy ===== *)
theory IpamPrefix
  imports GoNet
begin

unbundle bit_operations_syntax

text \<open>
  \<open>pkg/ipam/prefix/ip.go\<close>: the arithmetic on prefixes (\<open>NextPrefix\<close>, \<open>LastIP\<close>) and the
  overlap tests the allocator uses. The two byte loops are translated iteration by iteration
  and related to the value of the address, read as a big-endian number.
\<close>

section \<open>Definitions\<close>

datatype IPFamily = IPv4 | IPv6

definition IsCIDR :: "string \<Rightarrow> bool" where
  "IsCIDR cidr = (case parse_cidr cidr of None \<Rightarrow> False | Some (a, n) \<Rightarrow> ip_equal a (net_ip n))"

definition GetFamily :: "string \<Rightarrow> IPFamily option" where
  "GetFamily cidr =
     (case parse_cidr cidr of None \<Rightarrow> None
      | Some (a, _) \<Rightarrow> if to4 a = None then Some IPv6 else Some IPv4)"

definition OverlappingPrefixes :: "string \<Rightarrow> string \<Rightarrow> bool" where
  "OverlappingPrefixes cidr1 cidr2 =
     (case parse_cidr cidr1 of None \<Rightarrow> False
      | Some (_, n1) \<Rightarrow>
          (case parse_cidr cidr2 of None \<Rightarrow> False
           | Some (_, n2) \<Rightarrow> contains n2 (net_ip n1) \<or> contains n1 (net_ip n2)))"

text \<open>The body of \<open>NextPrefix\<close>'s loop, once per bit \<open>i\<close> of the address; \<open>currentBlock\<close> is the
  byte the iteration works on.\<close>

fun next_prefix_loop :: "nat \<Rightarrow> nat list \<Rightarrow> byte list \<Rightarrow> byte \<Rightarrow> int \<Rightarrow> byte \<Rightarrow> byte list" where
  "next_prefix_loop wildcardLength [] nxt toAdd currentBlock carry = nxt"
| "next_prefix_loop wildcardLength (i # is) nxt toAdd currentBlock carry =
     (let toAdd = (if i \<le> wildcardLength then toAdd * 2 + 1 else toAdd) in
      if i mod 8 = 0 then
        if carry = 0 \<and> toAdd = 0 then nxt
        else
          let b = nxt ! nat currentBlock;
              previousCarry = carry;
              carry = (if unat b + unat toAdd + unat previousCarry + 1 > 255 then 1 else 0)
          in next_prefix_loop wildcardLength is (nxt[nat currentBlock := b + (toAdd + previousCarry)])
               0 (currentBlock - 1) carry
      else next_prefix_loop wildcardLength is nxt toAdd currentBlock carry)"

definition NextPrefix :: "ipnet \<Rightarrow> ipnet" where
  "NextPrefix ipNet =
     (let ipLength = net_bits ipNet; wildcardLength = ipLength - net_ones ipNet in
      \<lparr>net_ip = next_prefix_loop wildcardLength [1..<Suc ipLength] (net_ip ipNet) 0
                 (int (length (net_ip ipNet)) - 1) 1,
       net_ones = net_ones ipNet\<rparr>)"

fun last_ip_loop :: "nat \<Rightarrow> nat list \<Rightarrow> byte list \<Rightarrow> byte list \<Rightarrow> byte \<Rightarrow> int \<Rightarrow> byte list" where
  "last_ip_loop wildcardLength [] addr lst toAdd currentBlock = lst"
| "last_ip_loop wildcardLength (i # is) addr lst toAdd currentBlock =
     (let toAdd = (if i \<le> wildcardLength then toAdd * 2 + 1 else toAdd) in
      if i mod 8 = 0 then
        last_ip_loop wildcardLength is addr
          (lst[nat currentBlock := addr ! nat currentBlock + toAdd]) 0 (currentBlock - 1)
      else last_ip_loop wildcardLength is addr lst toAdd currentBlock)"

definition LastIP :: "ipnet \<Rightarrow> ip" where
  "LastIP ipNet =
     (let ipLength = net_bits ipNet; wildcardLength = ipLength - net_ones ipNet in
      last_ip_loop wildcardLength [1..<Suc ipLength] (net_ip ipNet)
        (replicate (length (net_ip ipNet)) 0) 0 (int (length (net_ip ipNet)) - 1))"

fun CollideWith :: "string \<Rightarrow> string list \<Rightarrow> string list" where
  "CollideWith prefix [] = []"
| "CollideWith prefix (childPrefix # childs) =
     (if OverlappingPrefixes childPrefix prefix then childPrefix # CollideWith prefix childs
      else CollideWith prefix childs)"

section \<open>Addresses as numbers\<close>

text \<open>The value of a big-endian byte string, and of a little-endian one.\<close>

definition le_val :: "byte list \<Rightarrow> nat" where
  "le_val bs = foldr (\<lambda>b v. unat b + 256 * v) bs 0"

definition ip_val :: "ip \<Rightarrow> nat" where
  "ip_val a = le_val (rev a)"

definition wild :: "ipnet \<Rightarrow> nat" where
  "wild n = net_bits n - net_ones n"

text \<open>A network as \<open>net.ParseCIDR\<close> builds it: no bit is set after the mask.\<close>

definition wf_net :: "ipnet \<Rightarrow> bool" where
  "wf_net n \<longleftrightarrow> length (net_ip n) \<in> {4, 16} \<and> net_ones n \<le> net_bits n \<and>
     2 ^ wild n dvd ip_val (net_ip n)"

text \<open>The 4-byte form of an IPv4-mapped address or network; anything else is left alone.\<close>

definition norm_ip :: "ip \<Rightarrow> ip" where
  "norm_ip a = (case to4 a of Some x \<Rightarrow> x | None \<Rightarrow> a)"

definition overlap :: "ipnet \<Rightarrow> ipnet \<Rightarrow> bool" where
  "overlap n1 n2 \<longleftrightarrow> contains n2 (net_ip n1) \<or> contains n1 (net_ip n2)"

definition norm_net :: "ipnet \<Rightarrow> ipnet" where
  "norm_net n =
     (if v4mapped (net_ip n) then \<lparr>net_ip = drop 12 (net_ip n), net_ones = net_ones n - 96\<rparr> else n)"

text \<open>The byte loops as recursions over the bytes, last byte first.\<close>

definition ones_byte :: "nat \<Rightarrow> byte" where
  "ones_byte w = mask (min 8 w)"

definition acc_bit :: "nat \<Rightarrow> nat \<Rightarrow> byte \<Rightarrow> byte" where
  "acc_bit w i t = (if i \<le> w then t * 2 + 1 else t)"

fun add_blocks :: "nat \<Rightarrow> byte list \<Rightarrow> byte \<Rightarrow> byte list" where
  "add_blocks w [] c = []"
| "add_blocks w (b # bs) c =
     (if c = 0 \<and> ones_byte w = 0 then b # bs
      else (b + (ones_byte w + c)) #
           add_blocks (w - 8) bs (if unat b + unat (ones_byte w) + unat c + 1 > 255 then 1 else 0))"

fun last_blocks :: "nat \<Rightarrow> byte list \<Rightarrow> byte list" where
  "last_blocks w [] = []"
| "last_blocks w (b # bs) = (b + ones_byte w) # last_blocks (w - 8) bs"

section \<open>Lemmas: values\<close>

lemma le_val_simps [simp]:
  "le_val [] = 0" "le_val (b # bs) = unat b + 256 * le_val bs"
  by (simp_all add: le_val_def)

lemma le_val_append: "le_val (xs @ ys) = le_val xs + 256 ^ length xs * le_val ys"
  by (induction xs) (simp_all add: algebra_simps)

lemma le_val_less: "le_val bs < 256 ^ length bs"
proof (induction bs)
  case (Cons b bs)
  then have "le_val bs + 1 \<le> 256 ^ length bs" by simp
  then have "256 * (le_val bs + 1) \<le> 256 * 256 ^ length bs" by (rule mult_le_mono2)
  moreover have "unat b + 256 * le_val bs < 256 * (le_val bs + 1)" by simp
  ultimately have "unat b + 256 * le_val bs < 256 * 256 ^ length bs" by (rule less_le_trans [rotated])
  then show ?case by simp
qed simp

lemma le_val_inj: "length xs = length ys \<Longrightarrow> le_val xs = le_val ys \<Longrightarrow> xs = ys"
proof (induction xs ys rule: list_induct2)
  case (Cons x xs y ys)
  from Cons.prems have eq: "unat x + 256 * le_val xs = unat y + 256 * le_val ys" by simp
  have "unat x = (unat x + 256 * le_val xs) mod 256" "unat y = (unat y + 256 * le_val ys) mod 256"
    using unat_byte_less [of x] unat_byte_less [of y] by simp_all
  with eq have xy: "unat x = unat y" by simp
  with eq have "le_val xs = le_val ys" by simp
  with Cons.IH xy show ?case by (simp add: word_unat_eq_iff)
qed simp

lemma ip_val_Nil [simp]: "ip_val [] = 0"
  by (simp add: ip_val_def)

lemma ip_val_Cons: "ip_val (b # bs) = unat b * 256 ^ length bs + ip_val bs"
  by (simp add: ip_val_def le_val_append)

lemma ip_val_append: "ip_val (a @ b) = ip_val a * 256 ^ length b + ip_val b"
  by (simp add: ip_val_def le_val_append)

lemma ip_val_zeros [simp]: "ip_val (replicate k 0) = 0"
  by (induction k) (simp_all add: ip_val_Cons)

lemma ip_val_less: "ip_val a < 2 ^ (8 * length a)"
  using le_val_less [of "rev a"] by (simp add: ip_val_def power_mult)

lemma ip_val_inj: "length a = length b \<Longrightarrow> ip_val a = ip_val b \<Longrightarrow> a = b"
  using le_val_inj [of "rev a" "rev b"] by (simp add: ip_val_def)

lemma unat_and_not_mask: "unat (b AND NOT (mask k) :: byte) = unat b div 2 ^ k * 2 ^ k"
proof -
  have eq: "b AND NOT (mask k) = push_bit k (drop_bit k b)"
    by (rule bit_word_eqI) (auto simp: bit_simps)
  have "unat (drop_bit k b) = unat b div 2 ^ k"
    unfolding unsigned_drop_bit_eq by (simp add: drop_bit_eq_div take_bit_eq_mod)
  moreover have "unat b div 2 ^ k * 2 ^ k < 256"
    using unat_byte_less [of b] div_times_less_eq_dividend [of "unat b" "2 ^ k"] by linarith
  ultimately show ?thesis
    unfolding eq unsigned_push_bit_eq by (simp add: push_bit_eq_mult take_bit_eq_mod)
qed

lemma and_full [simp]: "(b :: byte) AND 255 = b"
proof -
  have "(255 :: byte) = - 1" by simp
  then show ?thesis by (simp only: and.right_neutral)
qed

lemma cidr_mask_Suc: "cidr_mask n (Suc len) = mask_byte n # cidr_mask (n - 8) len"
proof -
  have "cidr_mask n (Suc len) = map (\<lambda>i. mask_byte (n - 8 * i)) (0 # map Suc [0..<len])"
    unfolding cidr_mask_def map_Suc_upt by (simp only: upt_conv_Cons zero_less_Suc)
  also have "\<dots> = mask_byte n # map (\<lambda>i. mask_byte (n - 8 - 8 * i)) [0..<len]"
    by (simp add: comp_def)
  finally show ?thesis by (simp add: cidr_mask_def)
qed

lemma length_cidr_mask [simp]: "length (cidr_mask n len) = len"
  by (simp add: cidr_mask_def)

lemma length_ip_mask [simp]: "length (ip_mask a m) = min (length a) (length m)"
  by (simp add: ip_mask_def)

text \<open>Masking clears the low bits of the value.\<close>

lemma ip_val_mask:
  "n \<le> 8 * length a \<Longrightarrow>
     ip_val (ip_mask a (cidr_mask n (length a))) =
       ip_val a div 2 ^ (8 * length a - n) * 2 ^ (8 * length a - n)"
proof (induction a arbitrary: n)
  case Nil
  then show ?case by (simp add: ip_mask_def)
next
  case (Cons b a)
  let ?L = "length a" and ?v = "ip_val a"
  have step: "ip_val (ip_mask (b # a) (cidr_mask n (length (b # a)))) =
      unat (b AND mask_byte n) * 256 ^ ?L + ip_val (ip_mask a (cidr_mask (n - 8) ?L))"
    by (simp add: cidr_mask_Suc ip_val_Cons ip_mask_def)
  have pow: "(256 :: nat) ^ ?L = 2 ^ (8 * ?L)" by (simp add: power_mult)
  show ?case
  proof (cases "8 \<le> n")
    case True
    let ?w = "8 * ?L - (n - 8)"
    have w: "8 * length (b # a) - n = ?w" and le: "?w \<le> 8 * ?L" using True by simp_all
    have split: "(2 :: nat) ^ (8 * ?L) = 2 ^ (8 * ?L - ?w) * 2 ^ ?w"
      using le by (simp flip: power_add)
    have "(unat b * 2 ^ (8 * ?L) + ?v) div 2 ^ ?w = unat b * 2 ^ (8 * ?L - ?w) + ?v div 2 ^ ?w"
      unfolding split by (simp add: mult.assoc [symmetric])
    moreover have "ip_val (ip_mask a (cidr_mask (n - 8) ?L)) = ?v div 2 ^ ?w * 2 ^ ?w"
      using Cons by simp
    ultimately show ?thesis
      unfolding step w ip_val_Cons pow
      using True by (simp only: mask_byte_full and_full) (simp only: split distrib_right mult.assoc)
  next
    case False
    then have k: "8 - min 8 n = 8 - n" and w: "8 * length (b # a) - n = (8 - n) + 8 * ?L" by simp_all
    have zero: "ip_val (ip_mask a (cidr_mask (n - 8) ?L)) = 0"
      using Cons.IH [of 0] ip_val_less [of a] False by simp
    have quot: "(unat b * 2 ^ (8 * ?L) + ?v) div 2 ^ ((8 - n) + 8 * ?L) = unat b div 2 ^ (8 - n)"
    proof -
      have "(unat b * 2 ^ (8 * ?L) + ?v) div 2 ^ (8 * ?L) = unat b"
        using ip_val_less [of a] by simp
      then show ?thesis
        by (simp only: power_add mult.commute [of "2 ^ (8 - n)"] div_mult2_eq)
    qed
    have "mask_byte n = NOT (mask (8 - n))"
      by (simp only: mask_byte_def k)
    then have "ip_val (ip_mask (b # a) (cidr_mask n (length (b # a)))) =
        unat b div 2 ^ (8 - n) * 2 ^ (8 - n) * 2 ^ (8 * ?L)"
      by (simp only: step zero pow unat_and_not_mask add_0_right)
    then show ?thesis
      by (simp only: w ip_val_Cons pow quot) (simp only: power_add mult.assoc)
  qed
qed


section \<open>Lemmas: the byte loops\<close>

text \<open>What eight iterations do.\<close>

lemma block_iterations: "[Suc (8 * j)..<Suc (8 * Suc j)] = map (\<lambda>k. 8 * j + k) [1, 2, 3, 4, 5, 6, 7, 8]"
  by (simp add: upt_conv_Cons)

lemma wildcard_in_block: "8 * j + k \<le> w \<longleftrightarrow> k \<le> w - 8 * j" if "0 < k" for j k w :: nat
  using that by linarith

lemma ones_byte_cases:
  "ones_byte 0 = 0" "ones_byte (Suc 0) = 1" "ones_byte 2 = 3" "ones_byte 3 = 7" "ones_byte 4 = 15"
  "ones_byte 5 = 31" "ones_byte 6 = 63" "ones_byte 7 = 127" "8 \<le> w \<Longrightarrow> ones_byte w = 255"
  by (simp_all add: ones_byte_def mask_numeral)

lemma block_offset_cases:
  fixes m :: nat
  obtains "m = 0" | "m = Suc 0" | "m = 2" | "m = 3" | "m = 4" | "m = 5" | "m = 6" | "m = 7" | "8 \<le> m"
  by linarith

lemma next_prefix_loop_skip:
  "i mod 8 \<noteq> 0 \<Longrightarrow> next_prefix_loop w (i # is) nxt t cb c =
     next_prefix_loop w is nxt (acc_bit w i t) cb c"
  by (simp add: Let_def acc_bit_def)

lemma next_prefix_loop_byte:
  "i mod 8 = 0 \<Longrightarrow> next_prefix_loop w (i # is) nxt t cb c =
     (if c = 0 \<and> acc_bit w i t = 0 then nxt
      else next_prefix_loop w is (nxt[nat cb := nxt ! nat cb + (acc_bit w i t + c)]) 0 (cb - 1)
             (if unat (nxt ! nat cb) + unat (acc_bit w i t) + unat c + 1 > 255 then 1 else 0))"
  by (simp only: next_prefix_loop.simps(2) Let_def acc_bit_def [symmetric] if_True simp_thms)

lemma last_ip_loop_skip:
  "i mod 8 \<noteq> 0 \<Longrightarrow> last_ip_loop w (i # is) a lst t cb = last_ip_loop w is a lst (acc_bit w i t) cb"
  by (simp add: Let_def acc_bit_def)

lemma last_ip_loop_byte:
  "i mod 8 = 0 \<Longrightarrow> last_ip_loop w (i # is) a lst t cb =
     last_ip_loop w is a (lst[nat cb := a ! nat cb + acc_bit w i t]) 0 (cb - 1)"
  by (simp only: last_ip_loop.simps(2) Let_def acc_bit_def [symmetric] if_True simp_thms)

text \<open>The byte the eight iterations of block \<open>j\<close> accumulate.\<close>

lemma block_ones:
  "acc_bit w (8 * j + 8) (acc_bit w (8 * j + 7) (acc_bit w (8 * j + 6) (acc_bit w (8 * j + 5)
    (acc_bit w (8 * j + 4) (acc_bit w (8 * j + 3) (acc_bit w (8 * j + 2) (acc_bit w (8 * j + 1) 0)))))))
    = ones_byte (w - 8 * j)"
proof -
  have acc: "acc_bit w (8 * j + k) t = (if k \<le> w - 8 * j then t * 2 + 1 else t)" if "0 < k" for k t
    using that by (simp add: acc_bit_def wildcard_in_block)
  show ?thesis
    unfolding acc [OF zero_less_one] acc [OF zero_less_numeral]
    by (rule block_offset_cases [of "w - 8 * j"]) (simp_all add: ones_byte_cases)
qed

lemma block_mods:
  "(8 * j + 1) mod 8 \<noteq> (0 :: nat)" "(8 * j + 2) mod 8 \<noteq> (0 :: nat)" "(8 * j + 3) mod 8 \<noteq> (0 :: nat)"
  "(8 * j + 4) mod 8 \<noteq> (0 :: nat)" "(8 * j + 5) mod 8 \<noteq> (0 :: nat)" "(8 * j + 6) mod 8 \<noteq> (0 :: nat)"
  "(8 * j + 7) mod 8 \<noteq> (0 :: nat)" "(8 * j + 8) mod 8 = (0 :: nat)"
  by presburger+

lemma next_prefix_loop_block:
  "next_prefix_loop w ([Suc (8 * j)..<Suc (8 * Suc j)] @ is) nxt 0 cb c =
     (if c = 0 \<and> ones_byte (w - 8 * j) = 0 then nxt
      else next_prefix_loop w is
             (nxt[nat cb := nxt ! nat cb + (ones_byte (w - 8 * j) + c)]) 0 (cb - 1)
             (if unat (nxt ! nat cb) + unat (ones_byte (w - 8 * j)) + unat c + 1 > 255 then 1 else 0))"
  unfolding block_iterations list.map append_Cons append_Nil
  by (simp only: block_mods(1-7) [THEN next_prefix_loop_skip] block_mods(8) [THEN next_prefix_loop_byte] block_ones)

lemma last_ip_loop_block:
  "last_ip_loop w ([Suc (8 * j)..<Suc (8 * Suc j)] @ is) a lst 0 cb =
     last_ip_loop w is a (lst[nat cb := a ! nat cb + ones_byte (w - 8 * j)]) 0 (cb - 1)"
  unfolding block_iterations list.map append_Cons append_Nil
  by (simp only: block_mods(1-7) [THEN last_ip_loop_skip] block_mods(8) [THEN last_ip_loop_byte] block_ones)


lemma upt_block:
  "j < L \<Longrightarrow> [Suc (8 * j)..<Suc (8 * L)] = [Suc (8 * j)..<Suc (8 * Suc j)] @ [Suc (8 * Suc j)..<Suc (8 * L)]"
  using upt_add_eq_append [of "Suc (8 * j)" "Suc (8 * Suc j)" "8 * L - 8 * Suc j"] by simp

lemma rev_update_at:
  assumes "length xs = L" "j < L"
  shows "rev (xs[nat (int L - 1 - int j) := v]) = (rev xs)[j := v]"
    and "xs ! nat (int L - 1 - int j) = rev xs ! j"
proof -
  have i: "nat (int L - 1 - int j) = L - Suc j" using assms by linarith
  show "rev (xs[nat (int L - 1 - int j) := v]) = (rev xs)[j := v]"
    using assms by (simp add: i rev_update)
  show "xs ! nat (int L - 1 - int j) = rev xs ! j"
    using assms by (simp add: i rev_nth)
qed

lemma next_prefix_loop_blocks:
  assumes "length nxt = L" "j \<le> L"
  shows "next_prefix_loop w [Suc (8 * j)..<Suc (8 * L)] nxt 0 (int L - 1 - int j) c =
    rev (take j (rev nxt) @ add_blocks (w - 8 * j) (drop j (rev nxt)) c)"
  using assms
proof (induction "L - j" arbitrary: j nxt c)
  case 0
  then show ?case by simp
next
  case (Suc d)
  then have j: "j < L" "Suc j \<le> L" "d = L - Suc j" by simp_all
  let ?b = "rev nxt ! j" and ?w = "w - 8 * j"
  let ?v = "?b + (ones_byte ?w + c)"
  let ?c = "if unat ?b + unat (ones_byte ?w) + unat c + 1 > 255 then 1 else 0 :: byte"
  let ?nxt = "nxt[nat (int L - 1 - int j) := ?v]"
  have drop: "drop j (rev nxt) = ?b # drop (Suc j) (rev nxt)"
    using j Suc.prems by (simp add: Cons_nth_drop_Suc)
  have whole: "rev (drop (Suc j) (rev nxt)) @ ?b # rev (take j (rev nxt)) = nxt"
    using arg_cong [OF append_take_drop_id [of j "rev nxt"], of rev] drop by simp
  have cb: "int L - 1 - int j - 1 = int L - 1 - int (Suc j)" by simp
  have rn: "rev ?nxt = (rev nxt)[j := ?v]"
    using j Suc.prems by (simp only: rev_update_at)
  have "next_prefix_loop w [Suc (8 * Suc j)..<Suc (8 * L)] ?nxt 0 (int L - 1 - int (Suc j)) ?c =
      rev (take (Suc j) (rev ?nxt) @ add_blocks (w - 8 * Suc j) (drop (Suc j) (rev ?nxt)) ?c)"
    using Suc.hyps(1) [OF j(3)] Suc.prems j(2) by simp
  also have "take (Suc j) (rev ?nxt) = take j (rev nxt) @ [?v]"
    unfolding rn using j Suc.prems by (simp add: take_Suc_conv_app_nth)
  also have "drop (Suc j) (rev ?nxt) = drop (Suc j) (rev nxt)"
    unfolding rn by simp
  also have "w - 8 * Suc j = ?w - 8" by simp
  finally show ?case
    unfolding upt_block [OF j(1)] next_prefix_loop_block rev_update_at(2) [OF Suc.prems(1) j(1)] cb drop
    by (simp add: whole)
qed

lemma last_ip_loop_blocks:
  assumes "length lst = L" "length a = L" "j \<le> L"
  shows "last_ip_loop w [Suc (8 * j)..<Suc (8 * L)] a lst 0 (int L - 1 - int j) =
    rev (take j (rev lst) @ last_blocks (w - 8 * j) (drop j (rev a)))"
  using assms
proof (induction "L - j" arbitrary: j lst)
  case 0
  then show ?case by simp
next
  case (Suc d)
  then have j: "j < L" "Suc j \<le> L" "d = L - Suc j" by simp_all
  let ?b = "rev a ! j" and ?w = "w - 8 * j"
  let ?lst = "lst[nat (int L - 1 - int j) := ?b + ones_byte ?w]"
  have drop: "drop j (rev a) = ?b # drop (Suc j) (rev a)"
    using j Suc.prems by (simp add: Cons_nth_drop_Suc)
  have cb: "int L - 1 - int j - 1 = int L - 1 - int (Suc j)" by simp
  have rn: "rev ?lst = (rev lst)[j := ?b + ones_byte ?w]"
    using j Suc.prems by (simp only: rev_update_at)
  have "last_ip_loop w [Suc (8 * Suc j)..<Suc (8 * L)] a ?lst 0 (int L - 1 - int (Suc j)) =
      rev (take (Suc j) (rev ?lst) @ last_blocks (w - 8 * Suc j) (drop (Suc j) (rev a)))"
    using Suc.hyps(1) [OF j(3)] Suc.prems j(2) by simp
  also have "take (Suc j) (rev ?lst) = take j (rev lst) @ [?b + ones_byte ?w]"
    unfolding rn using j Suc.prems by (simp add: take_Suc_conv_app_nth)
  also have "w - 8 * Suc j = ?w - 8" by simp
  finally show ?case
    unfolding upt_block [OF j(1)] last_ip_loop_block rev_update_at(2) [OF Suc.prems(2) j(1)] cb drop
    by simp
qed

lemma NextPrefix_blocks:
  "net_ip (NextPrefix n) = rev (add_blocks (wild n) (rev (net_ip n)) 1)"
  using next_prefix_loop_blocks [of "net_ip n" "length (net_ip n)" 0 "wild n" 1]
  by (simp add: NextPrefix_def Let_def wild_def net_bits_def)

lemma LastIP_blocks: "LastIP n = rev (last_blocks (wild n) (rev (net_ip n)))"
  using last_ip_loop_blocks [of "replicate (length (net_ip n)) 0" "length (net_ip n)" "net_ip n" 0 "wild n"]
  by (simp add: LastIP_def Let_def wild_def net_bits_def)

lemma NextPrefix_ones [simp]: "net_ones (NextPrefix n) = net_ones n"
  by (simp add: NextPrefix_def Let_def)

lemma length_add_blocks [simp]: "length (add_blocks w bs c) = length bs"
  by (induction w bs c rule: add_blocks.induct) auto

lemma length_last_blocks [simp]: "length (last_blocks w bs) = length bs"
  by (induction w bs rule: last_blocks.induct) auto

lemma NextPrefix_length [simp]: "length (net_ip (NextPrefix n)) = length (net_ip n)"
  by (simp add: NextPrefix_blocks)

lemma LastIP_length [simp]: "length (LastIP n) = length (net_ip n)"
  by (simp add: LastIP_blocks)


section \<open>Lemmas: what the loops compute\<close>

lemma unat_ones_byte: "unat (ones_byte w) = 2 ^ min 8 w - 1"
  by (rule block_offset_cases [of w]) (simp_all add: ones_byte_cases)

lemma ones_byte_eq_0 [simp]: "ones_byte w = 0 \<longleftrightarrow> w = 0"
  by (rule block_offset_cases [of w]) (simp_all add: ones_byte_cases)

lemma unat_add_byte: "unat (a + b :: byte) = (unat a + unat b) mod 256"
  by (simp add: unat_word_ariths)

lemma dvd_low_byte:
  assumes "2 ^ w dvd unat (b :: byte) + 256 * v" "w \<le> 8"
  shows "2 ^ w dvd unat b"
proof -
  have "(2 :: nat) ^ w dvd 256 * v"
    using assms(2) le_imp_power_dvd [of w 8 "2 :: nat"] by (simp add: dvd_mult2)
  with assms(1) show ?thesis by (simp add: dvd_add_left_iff)
qed

lemma dvd_high_bytes:
  assumes "2 ^ w dvd unat (b :: byte) + 256 * v" "8 \<le> w"
  shows "unat b = 0" "2 ^ (w - 8) dvd v"
proof -
  from assms(2) have w: "(2 :: nat) ^ w = 256 * 2 ^ (w - 8)"
    using power_add [of "2 :: nat" 8 "w - 8"] by simp
  with assms(1) have "256 dvd unat b + 256 * v" by (metis dvd_mult_left)
  then have "256 dvd unat b" by (simp add: dvd_add_left_iff)
  then show b: "unat b = 0" by (metis unat_byte_less dvd_imp_le neq0_conv not_le)
  from assms(1) w b show "2 ^ (w - 8) dvd v" by simp
qed

lemma aligned_byte_bound:
  fixes x :: nat
  assumes "2 ^ w dvd x" "x < 256" "w \<le> 8"
  shows "x + 2 ^ w \<le> 256"
proof -
  from assms(1) obtain q where q: "x = 2 ^ w * q" by (elim dvdE)
  have p: "(256 :: nat) = 2 ^ w * 2 ^ (8 - w)"
    using assms(3) by (simp flip: power_add)
  have "2 ^ w * q < 2 ^ w * 2 ^ (8 - w)"
    unfolding p [symmetric] using q assms(2) by (simp only:)
  then have "q + 1 \<le> 2 ^ (8 - w)" by simp
  then have "2 ^ w * (q + 1) \<le> 2 ^ w * 2 ^ (8 - w)" by (rule mult_le_mono2)
  with q p show ?thesis by simp
qed

lemma add_blocks_idle [simp]: "add_blocks 0 bs 0 = bs"
  by (cases bs) auto

text \<open>One step of the recursion, with the sum split into byte and carry.\<close>

lemma add_blocks_zero:
  "add_blocks 0 (b # bs) 1 =
     (if b = 255 then 0 # add_blocks 0 bs 1
      else if b = 254 then 255 # add_blocks 0 bs 1 else (b + 1) # bs)"
proof -
  have "unat b + 2 > 255 \<longleftrightarrow> b = 255 \<or> b = 254"
  proof -
    have "unat b + 2 > 255 \<longleftrightarrow> unat b = 255 \<or> unat b = 254"
      using unat_byte_less [of b] by linarith
    then show ?thesis by (simp add: word_unat_eq_iff)
  qed
  then show ?thesis by (auto simp: ones_byte_cases)
qed

lemma add_blocks_part:
  assumes "0 < w" "w < 8" "2 ^ w dvd unat b"
  shows "add_blocks w (b # bs) 1 =
    (if unat b + 2 ^ w = 256 then 0 # add_blocks 0 bs 1 else of_nat (unat b + 2 ^ w) # bs)"
proof -
  have w: "min 8 w = w" "ones_byte w \<noteq> 0" "w - 8 = 0" and pos: "0 < (2 :: nat) ^ w" using assms by simp_all
  have bound: "unat b + 2 ^ w \<le> 256"
    using assms by (intro aligned_byte_bound) simp_all
  have even: "even (unat b + 2 ^ w)"
    using assms by (auto intro: dvd_trans [OF dvd_power])
  have sum: "unat b + unat (ones_byte w) + unat (1 :: byte) = unat b + 2 ^ w"
    using pos by (simp add: unat_ones_byte w)
  have byte: "b + (ones_byte w + 1) = of_nat (unat b + 2 ^ w)"
    by (simp flip: sum)
  have carry: "unat b + unat (ones_byte w) + unat (1 :: byte) + 1 > 255 \<longleftrightarrow> unat b + 2 ^ w = 256"
    unfolding sum using bound even by presburger
  have zero: "(of_nat (unat b + 2 ^ w) :: byte) = 0" if "unat b + 2 ^ w = 256"
    unfolding that by simp
  show ?thesis
    unfolding add_blocks.simps carry byte w(3) using w(2) zero by (simp del: of_nat_add)
qed

lemma add_blocks_full:
  "8 \<le> w \<Longrightarrow> add_blocks w (0 # bs) 1 = 0 # add_blocks (w - 8) bs 1"
  by (simp add: ones_byte_cases)


declare add_blocks.simps(2) [simp del]

lemma carry_mod:
  assumes "(x :: nat) = 256 * y"
  shows "x mod (256 * M) = 256 * (y mod M)"
  unfolding assms by (rule mult_mod_right [symmetric])

lemma add_blocks_zero_val:
  assumes "254 \<notin> set bs"
  shows "le_val (add_blocks 0 bs 1) = (le_val bs + 1) mod 256 ^ length bs"
  using assms
proof (induction bs)
  case (Cons b bs)
  let ?M = "256 ^ length bs :: nat"
  show ?case
  proof (cases "b = 255")
    case True
    have "(255 + 256 * le_val bs + 1) mod (256 * ?M) = 256 * ((le_val bs + 1) mod ?M)"
      by (rule carry_mod) simp
    with True Cons show ?thesis by (simp add: add_blocks_zero)
  next
    case False
    then have ub: "unat b < 255"
      using unat_byte_less [of b] by (auto simp: word_unat_eq_iff order_less_le)
    then have "unat (b + 1) = unat b + 1" by (simp add: unat_add_byte)
    moreover have "unat b + 256 * le_val bs + 1 < 256 * ?M"
    proof -
      have "256 * (le_val bs + 1) \<le> 256 * ?M"
        using le_val_less [of bs] by (intro mult_le_mono2) simp
      with ub show ?thesis by simp
    qed
    ultimately show ?thesis
      using False Cons.prems by (simp add: add_blocks_zero)
  qed
qed simp

lemma add_blocks_val:
  assumes "2 ^ w dvd le_val bs" "w \<le> 8 * length bs" "254 \<notin> set bs"
  shows "le_val (add_blocks w bs 1) = (le_val bs + 2 ^ w) mod 256 ^ length bs"
  using assms
proof (induction bs arbitrary: w)
  case (Cons b bs)
  let ?M = "256 ^ length bs :: nat" and ?v = "le_val bs"
  consider "w = 0" | "0 < w" "w < 8" | "8 \<le> w" by linarith
  then show ?case
  proof cases
    case 1
    with Cons.prems(3) show ?thesis using add_blocks_zero_val [of "b # bs"] by simp
  next
    case 2
    have dvd: "2 ^ w dvd unat b" using Cons.prems(1) 2 by (auto intro: dvd_low_byte)
    have bound: "unat b + 2 ^ w \<le> 256" using 2 dvd by (intro aligned_byte_bound) simp_all
    have v: "256 * (?v + 1) \<le> 256 * ?M"
      using le_val_less [of bs] by (intro mult_le_mono2) simp
    show ?thesis
    proof (cases "unat b + 2 ^ w = 256")
      case True
      then have "(unat b + 256 * ?v + 2 ^ w) mod (256 * ?M) = 256 * ((?v + 1) mod ?M)"
        by (intro carry_mod) simp
      with True Cons.prems show ?thesis
        by (simp add: add_blocks_part [OF 2 dvd] add_blocks_zero_val)
    next
      case False
      with bound have lt: "unat b + 2 ^ w < 256" by simp
      then have "unat (of_nat (unat b + 2 ^ w) :: byte) = unat b + 2 ^ w"
        by (simp add: unat_of_nat take_bit_eq_mod del: of_nat_add)
      moreover have "unat b + 256 * ?v + 2 ^ w < 256 * ?M" using lt v by simp
      ultimately show ?thesis
        using False by (simp add: add_blocks_part [OF 2 dvd] del: of_nat_add)
    qed
  next
    case 3
    from dvd_high_bytes [OF _ 3] Cons.prems(1) have b: "b = 0" "2 ^ (w - 8) dvd ?v"
      by (simp_all add: word_unat_eq_iff)
    have w: "(2 :: nat) ^ w = 256 * 2 ^ (w - 8)"
      using 3 power_add [of "2 :: nat" 8 "w - 8"] by simp
    have "(256 * ?v + 2 ^ w) mod (256 * ?M) = 256 * ((?v + 2 ^ (w - 8)) mod ?M)"
      unfolding w by (intro carry_mod) simp
    with 3 b Cons show ?thesis by (simp add: add_blocks_full)
  qed
qed simp

lemma add_blocks_aligned:
  assumes "2 ^ w dvd le_val bs" "w \<le> 8 * length bs"
  shows "2 ^ w dvd le_val (add_blocks w bs 1)"
  using assms
proof (induction bs arbitrary: w)
  case (Cons b bs)
  consider "w = 0" | "0 < w" "w < 8" | "8 \<le> w" by linarith
  then show ?case
  proof cases
    case 2
    have dvd: "2 ^ w dvd unat b" using Cons.prems(1) 2 by (auto intro: dvd_low_byte)
    have p: "(2 :: nat) ^ w dvd 256" using 2 le_imp_power_dvd [of w 8 "2 :: nat"] by simp
    have "2 ^ w dvd unat (of_nat (unat b + 2 ^ w) :: byte)"
      using dvd p by (simp add: unat_of_nat take_bit_eq_mod dvd_mod del: of_nat_add)
    with p show ?thesis by (simp add: add_blocks_part [OF 2 dvd] dvd_mult2 del: of_nat_add)
  next
    case 3
    from dvd_high_bytes [OF _ 3] Cons.prems(1) have b: "b = 0" "2 ^ (w - 8) dvd le_val bs"
      by (simp_all add: word_unat_eq_iff)
    have "(2 :: nat) ^ w = 256 * 2 ^ (w - 8)"
      using 3 power_add [of "2 :: nat" 8 "w - 8"] by simp
    with 3 b Cons show ?thesis by (simp add: add_blocks_full)
  qed simp
qed simp


text \<open>Whatever the carry does, the next prefix is beyond this one, or the top byte wrapped to 0.\<close>

lemma add_blocks_zero_mono:
  "bs \<noteq> [] \<Longrightarrow> le_val bs + 1 \<le> le_val (add_blocks 0 bs 1) \<or>
     (last (add_blocks 0 bs 1) = 0 \<and> last bs = 255)"
proof (induction bs)
  case (Cons b bs)
  have small: "unat (b + 1) = unat b + 1" if "b \<noteq> 255"
  proof -
    from that have "unat b < 255"
      using unat_byte_less [of b] by (auto simp: word_unat_eq_iff order_less_le)
    then show ?thesis by (simp add: unat_add_byte)
  qed
  show ?case
  proof (cases "bs = []")
    case True
    then show ?thesis using small by (auto simp: add_blocks_zero)
  next
    case False
    then have ne: "add_blocks 0 bs 1 \<noteq> []" by (metis length_0_conv length_add_blocks)
    from Cons.IH [OF False] ne False small show ?thesis
      by (auto simp: add_blocks_zero)
  qed
qed simp

lemma add_blocks_mono:
  assumes "2 ^ w dvd le_val bs" "w < 8 * length bs"
  shows "le_val bs + 2 ^ w \<le> le_val (add_blocks w bs 1) \<or>
    (last (add_blocks w bs 1) = 0 \<and> 128 \<le> unat (last bs))"
  using assms
proof (induction bs arbitrary: w)
  case (Cons b bs)
  consider "w = 0" | "0 < w" "w < 8" | "8 \<le> w" by linarith
  then show ?case
  proof cases
    case 1
    with add_blocks_zero_mono [of "b # bs"] show ?thesis by (auto simp del: le_val_simps)
  next
    case 2
    have dvd: "2 ^ w dvd unat b" using Cons.prems(1) 2 by (auto intro: dvd_low_byte)
    have bound: "unat b + 2 ^ w \<le> 256" using 2 dvd by (intro aligned_byte_bound) simp_all
    have w: "(2 :: nat) ^ w \<le> 128" using 2 power_increasing [of w 7 "2 :: nat"] by simp
    show ?thesis
    proof (cases "unat b + 2 ^ w = 256")
      case True
      show ?thesis
      proof (cases "bs = []")
        case True': True
        with True w show ?thesis by (auto simp: add_blocks_part [OF 2 dvd])
      next
        case False
        then have ne: "add_blocks 0 bs 1 \<noteq> []" by (metis length_0_conv length_add_blocks)
        from add_blocks_zero_mono [OF False] True ne False show ?thesis
          by (auto simp: add_blocks_part [OF 2 dvd])
      qed
    next
      case False
      with bound have "unat (of_nat (unat b + 2 ^ w) :: byte) = unat b + 2 ^ w"
        by (simp add: unat_of_nat take_bit_eq_mod del: of_nat_add)
      with False show ?thesis by (simp add: add_blocks_part [OF 2 dvd] del: of_nat_add)
    qed
  next
    case 3
    from dvd_high_bytes [OF _ 3] Cons.prems(1) have b: "b = 0" "2 ^ (w - 8) dvd le_val bs"
      by (simp_all add: word_unat_eq_iff)
    have p: "(2 :: nat) ^ w = 256 * 2 ^ (w - 8)"
      using 3 power_add [of "2 :: nat" 8 "w - 8"] by simp
    from 3 Cons.prems(2) have lt: "w - 8 < 8 * length bs" and ne: "bs \<noteq> []" by auto
    then have "add_blocks (w - 8) bs 1 \<noteq> []" by (metis length_0_conv length_add_blocks)
    with Cons.IH [OF b(2) lt] 3 b ne p show ?thesis by (auto simp: add_blocks_full)
  qed
qed simp

lemma last_blocks_val:
  assumes "2 ^ w dvd le_val bs" "w \<le> 8 * length bs"
  shows "le_val (last_blocks w bs) = le_val bs + 2 ^ w - 1"
  using assms
proof (induction bs arbitrary: w)
  case (Cons b bs)
  show ?case
  proof (cases "8 \<le> w")
    case True
    from dvd_high_bytes [OF _ True] Cons.prems(1) have b: "b = 0" "2 ^ (w - 8) dvd le_val bs"
      by (simp_all add: word_unat_eq_iff)
    have p: "(2 :: nat) ^ w = 256 * 2 ^ (w - 8)"
      using True power_add [of "2 :: nat" 8 "w - 8"] by simp
    have "Suc 0 \<le> (2 :: nat) ^ (w - 8)" by simp
    then have "255 + 256 * (le_val bs + 2 ^ (w - 8) - Suc 0) =
      256 * le_val bs + 256 * 2 ^ (w - 8) - Suc 0" by arith
    with True b p Cons show ?thesis by (simp add: ones_byte_cases)
  next
    case False
    have dvd: "2 ^ w dvd unat b" using Cons.prems(1) False by (auto intro: dvd_low_byte)
    have bound: "unat b + 2 ^ w \<le> 256" using False dvd by (intro aligned_byte_bound) simp_all
    have "last_blocks 0 xs = xs" for xs
      by (induction xs) (simp_all add: ones_byte_cases)
    moreover have "unat (b + ones_byte w) = unat b + (2 ^ w - 1)"
      using bound False by (simp add: unat_add_byte unat_ones_byte)
    moreover have "Suc 0 \<le> (2 :: nat) ^ w" by simp
    then have "unat b + 2 ^ w - Suc 0 + 256 * le_val bs = unat b + 256 * le_val bs + 2 ^ w - Suc 0"
      by arith
    ultimately show ?thesis using False by simp
  qed
qed simp


section \<open>Lemmas: networks as intervals\<close>

lemma NextPrefix_val:
  assumes "wf_net n" "254 \<notin> set (net_ip n)"
  shows "ip_val (net_ip (NextPrefix n)) = (ip_val (net_ip n) + 2 ^ wild n) mod 2 ^ net_bits n"
  using assms add_blocks_val [of "wild n" "rev (net_ip n)"]
  by (simp add: NextPrefix_blocks ip_val_def wf_net_def wild_def net_bits_def power_mult)

lemma NextPrefix_mono:
  assumes "wf_net n" "0 < net_ones n"
  shows "ip_val (net_ip n) + 2 ^ wild n \<le> ip_val (net_ip (NextPrefix n)) \<or>
    (hd (net_ip (NextPrefix n)) = 0 \<and> 128 \<le> unat (hd (net_ip n)))"
proof -
  have len: "net_ip n \<noteq> []" "0 < length (net_ip n)" using assms(1) by (auto simp: wf_net_def)
  with assms have "wild n < 8 * length (net_ip n)" by (auto simp: wild_def net_bits_def)
  with add_blocks_mono [of "wild n" "rev (net_ip n)"] assms(1) len show ?thesis
    by (auto simp: NextPrefix_blocks ip_val_def wf_net_def hd_rev last_rev)
qed

lemma wf_net_NextPrefix: "wf_net n \<Longrightarrow> wf_net (NextPrefix n)"
  using add_blocks_aligned [of "wild n" "rev (net_ip n)"]
  by (auto simp: wf_net_def wild_def net_bits_def NextPrefix_blocks ip_val_def)

lemma LastIP_val: "wf_net n \<Longrightarrow> ip_val (LastIP n) = ip_val (net_ip n) + 2 ^ wild n - 1"
  using last_blocks_val [of "wild n" "rev (net_ip n)"]
  by (auto simp: wf_net_def wild_def net_bits_def LastIP_blocks ip_val_def)

lemma v4mapped_val:
  assumes "v4mapped a"
  shows "ip_val a = 65535 * 2 ^ 32 + ip_val (drop 12 a)"
proof -
  have len: "length (drop 12 a) = 4" and pre: "take 12 a = replicate 10 0 @ [255, 255]"
    using assms by (simp_all add: v4mapped_def)
  have "ip_val (replicate 10 0 @ [255, 255]) = 65535"
    by (simp only: ip_val_append ip_val_zeros) (simp add: ip_val_Cons)
  then have "ip_val (take 12 a @ drop 12 a) = 65535 * 256 ^ 4 + ip_val (drop 12 a)"
    unfolding ip_val_append pre len by simp
  then show ?thesis by simp
qed

lemma v4mapped_ones:
  assumes "wf_net n" "v4mapped (net_ip n)"
  shows "96 \<le> net_ones n"
proof (rule ccontr)
  assume "\<not> ?thesis"
  with assms have "33 \<le> wild n" by (simp add: wild_def net_bits_def v4mapped_def)
  then have "(2 :: nat) * 2 ^ 32 dvd 2 ^ wild n" using le_imp_power_dvd [of 33 "wild n" "2 :: nat"] by simp
  also have "2 ^ wild n dvd ip_val (net_ip n)" using assms(1) by (simp add: wf_net_def)
  finally have "even (ip_val (net_ip n) div 2 ^ 32)" by (elim dvdE) (simp add: mult.assoc)
  moreover have "ip_val (drop 12 (net_ip n)) < 2 ^ 32"
    using ip_val_less [of "drop 12 (net_ip n)"] assms(2) by (simp add: v4mapped_def)
  moreover have "ip_val (net_ip n) div 2 ^ 32 = 65535 + ip_val (drop 12 (net_ip n)) div 2 ^ 32"
    unfolding v4mapped_val [OF assms(2)] by (rule div_mult_self3) simp
  ultimately show False by simp
qed

lemma norm_ip_v4mapped [simp]: "v4mapped a \<Longrightarrow> norm_ip a = drop 12 a"
  by (simp add: norm_ip_def to4_def v4mapped_def)

lemma norm_ip_plain [simp]: "plain a \<Longrightarrow> norm_ip a = a"
  by (auto simp: norm_ip_def to4_def plain_def v4mapped_def)

lemma plain_norm_ip: "length a \<in> {4, 16} \<Longrightarrow> plain (norm_ip a)"
  by (auto simp: norm_ip_def to4_def plain_def v4mapped_def)

lemma not_v4mapped_plain: "length a \<in> {4, 16} \<Longrightarrow> plain a \<longleftrightarrow> \<not> v4mapped a"
  by (auto simp: plain_def v4mapped_def)

lemma net_ip_norm_net: "wf_net n \<Longrightarrow> net_ip (norm_net n) = norm_ip (net_ip n)"
  using not_v4mapped_plain [of "net_ip n"] by (auto simp: norm_net_def wf_net_def)

lemma norm_net_plain [simp]: "plain (net_ip n) \<Longrightarrow> norm_net n = n"
  by (auto simp: norm_net_def plain_def v4mapped_def)

lemma wild_norm_net: "wf_net n \<Longrightarrow> wild (norm_net n) = wild n"
  using v4mapped_ones [of n] by (auto simp: norm_net_def wild_def net_bits_def v4mapped_def)

lemma wf_norm_net:
  assumes "wf_net n"
  shows "wf_net (norm_net n)" "plain (net_ip (norm_net n))"
proof -
  show "plain (net_ip (norm_net n))"
    unfolding net_ip_norm_net [OF assms] using assms by (intro plain_norm_ip) (simp add: wf_net_def)
  show "wf_net (norm_net n)"
  proof (cases "v4mapped (net_ip n)")
    case True
    have w: "wild n \<le> 32"
      using v4mapped_ones [OF assms True] assms True by (simp add: wild_def net_bits_def v4mapped_def)
    have "2 ^ wild n dvd ip_val (net_ip n)" "(2 :: nat) ^ wild n dvd 65535 * 2 ^ 32"
      using assms w by (simp_all add: wf_net_def le_imp_power_dvd dvd_mult del: power_numeral)
    then have "2 ^ wild n dvd ip_val (drop 12 (net_ip n))"
      unfolding v4mapped_val [OF True] by (metis dvd_add_right_iff)
    moreover have "net_ones n - 96 \<le> 32"
      using assms True by (auto simp: wf_net_def net_bits_def v4mapped_def)
    ultimately show ?thesis
      unfolding wf_net_def wild_norm_net [OF assms]
      using True by (simp add: norm_net_def net_bits_def v4mapped_def)
  next
    case False
    with assms show ?thesis by (simp add: norm_net_def)
  qed
qed

lemma drop_cidr_mask: "drop 12 (cidr_mask k 16) = cidr_mask (k - 96) 4"
  by (rule nth_equalityI) (simp_all add: cidr_mask_def diff_diff_left)

lemma network_number_norm:
  assumes "wf_net n"
  shows "network_number_and_mask n =
    (net_ip (norm_net n), cidr_mask (net_ones (norm_net n)) (length (net_ip (norm_net n))))"
  using assms
  by (auto simp: network_number_and_mask_def norm_net_def to4_def wf_net_def v4mapped_def drop_cidr_mask)

lemma mask_eq_iff:
  assumes "length a = length b" "k \<le> 8 * length a"
  shows "ip_mask a (cidr_mask k (length a)) = ip_mask b (cidr_mask k (length a)) \<longleftrightarrow>
    ip_val a div 2 ^ (8 * length a - k) = ip_val b div 2 ^ (8 * length a - k)"
proof -
  have "ip_mask a (cidr_mask k (length a)) = ip_mask b (cidr_mask k (length a)) \<longleftrightarrow>
      ip_val (ip_mask a (cidr_mask k (length a))) = ip_val (ip_mask b (cidr_mask k (length b)))"
    using assms(1) ip_val_inj by fastforce
  also have "\<dots> \<longleftrightarrow> ip_val a div 2 ^ (8 * length a - k) = ip_val b div 2 ^ (8 * length a - k)"
    using assms ip_val_mask [of k a] ip_val_mask [of k b] by simp
  finally show ?thesis .
qed

text \<open>\<open>Contains\<close> compares the family and the value above the wildcard bits.\<close>

lemma contains_iff:
  assumes "wf_net n"
  shows "contains n a \<longleftrightarrow> length (norm_ip a) = length (norm_ip (net_ip n)) \<and>
    ip_val (norm_ip a) div 2 ^ wild n = ip_val (norm_ip (net_ip n)) div 2 ^ wild n"
proof -
  let ?m = "norm_net n"
  have m: "net_ones ?m \<le> 8 * length (net_ip ?m)" "8 * length (net_ip ?m) - net_ones ?m = wild n"
    using wf_norm_net(1) [OF assms] wild_norm_net [OF assms] by (simp_all add: wf_net_def wild_def net_bits_def)
  have "contains n a \<longleftrightarrow> length (norm_ip a) = length (net_ip ?m) \<and>
      ip_mask (net_ip ?m) (cidr_mask (net_ones ?m) (length (net_ip ?m))) =
      ip_mask (norm_ip a) (cidr_mask (net_ones ?m) (length (net_ip ?m)))"
    by (simp add: contains_def network_number_norm [OF assms] norm_ip_def Let_def)
  with mask_eq_iff [of "net_ip ?m" "norm_ip a" "net_ones ?m"] m show ?thesis
    unfolding net_ip_norm_net [OF assms] by metis
qed


lemma div_pow_mono:
  fixes x y :: nat
  assumes "x div 2 ^ v = y div 2 ^ v" "v \<le> w"
  shows "x div 2 ^ w = y div 2 ^ w"
proof -
  have "(2 :: nat) ^ w = 2 ^ v * 2 ^ (w - v)" using assms(2) by (simp flip: power_add)
  then show ?thesis using assms(1) by (simp add: div_mult2_eq)
qed

lemma contains_self [simp]: "wf_net n \<Longrightarrow> contains n (net_ip n)"
  by (simp add: contains_iff)

lemma overlap_iff:
  assumes "wf_net n1" "wf_net n2"
  shows "overlap n1 n2 \<longleftrightarrow> length (norm_ip (net_ip n1)) = length (norm_ip (net_ip n2)) \<and>
    ip_val (norm_ip (net_ip n1)) div 2 ^ max (wild n1) (wild n2) =
    ip_val (norm_ip (net_ip n2)) div 2 ^ max (wild n1) (wild n2)"
proof (cases "wild n1 \<le> wild n2")
  case True
  then show ?thesis
    unfolding overlap_def contains_iff [OF assms(1)] contains_iff [OF assms(2)] max_absorb2 [OF True]
    by (metis div_pow_mono)
next
  case False
  then have "wild n2 \<le> wild n1" by simp
  then show ?thesis
    unfolding overlap_def contains_iff [OF assms(1)] contains_iff [OF assms(2)]
      max_absorb1 [OF \<open>wild n2 \<le> wild n1\<close>]
    by (metis div_pow_mono)
qed

text \<open>Two networks overlap exactly when they share an address.\<close>

lemma overlap_shared:
  assumes "wf_net n1" "wf_net n2"
  shows "overlap n1 n2 \<longleftrightarrow> (\<exists>a. contains n1 a \<and> contains n2 a)"
proof
  assume "overlap n1 n2"
  then show "\<exists>a. contains n1 a \<and> contains n2 a"
    using assms contains_self unfolding overlap_def by blast
next
  assume "\<exists>a. contains n1 a \<and> contains n2 a"
  then obtain a where "contains n1 a" "contains n2 a" by blast
  then show "overlap n1 n2"
    unfolding overlap_iff [OF assms] contains_iff [OF assms(1)] contains_iff [OF assms(2)]
    using div_pow_mono [of "ip_val (norm_ip a)" "wild n1" _ "max (wild n1) (wild n2)"]
      div_pow_mono [of "ip_val (norm_ip a)" "wild n2" _ "max (wild n1) (wild n2)"]
    by (metis max.cobounded1 max.cobounded2)
qed

lemma overlap_sym: "overlap n1 n2 \<longleftrightarrow> overlap n2 n1"
  by (auto simp: overlap_def)

lemma overlap_refl [simp]: "wf_net n \<Longrightarrow> overlap n n"
  by (simp add: overlap_def)

text \<open>A network overlapping a shorter prefix lies inside it.\<close>

lemma overlap_inside:
  assumes "wf_net n1" "wf_net n2" "overlap n1 n2" "wild n1 \<le> wild n2" "contains n1 a"
  shows "contains n2 a"
proof -
  have "ip_val (norm_ip a) div 2 ^ wild n2 = ip_val (norm_ip (net_ip n1)) div 2 ^ wild n2"
    using assms(4,5) unfolding contains_iff [OF assms(1)] by (blast intro: div_pow_mono)
  moreover have "length (norm_ip a) = length (norm_ip (net_ip n1))"
    using assms(5) unfolding contains_iff [OF assms(1)] by blast
  ultimately show ?thesis
    using assms(3,4) unfolding contains_iff [OF assms(2)] overlap_iff [OF assms(1,2)]
    by (simp add: max_def split: if_splits)
qed

section \<open>Lemmas: text\<close>

lemma parse_ipv4_length: "parse_ipv4 s = Some a \<Longrightarrow> length a = 4"
  by (auto simp: parse_ipv4_def split: list.splits option.splits)

lemma length_ungroups [simp]: "length (ungroups gs) = 2 * length gs"
  by (induction gs) simp_all

lemma parse_ipv6_length: "parse_ipv6 s = Some a \<Longrightarrow> length a = 16"
  by (auto simp: parse_ipv6_def split: option.splits if_splits)

lemma parse_addr_length: "parse_addr s = Some a \<Longrightarrow> length a \<in> {4, 16}"
  by (auto simp: parse_addr_def dest: parse_ipv4_length parse_ipv6_length
      split: option.splits if_splits)

lemma wf_net_mask:
  "length a \<in> {4, 16} \<Longrightarrow> k \<le> 8 * length a \<Longrightarrow>
     wf_net \<lparr>net_ip = ip_mask a (cidr_mask k (length a)), net_ones = k\<rparr>"
  by (auto simp: wf_net_def net_bits_def wild_def ip_val_mask)

lemma ip_mask_aligned:
  assumes "wf_net n"
  shows "ip_mask (net_ip n) (cidr_mask (net_ones n) (length (net_ip n))) = net_ip n"
  using assms ip_val_mask [of "net_ones n" "net_ip n"]
  by (intro ip_val_inj) (auto simp: wf_net_def wild_def net_bits_def)

lemma parse_cidr_wf: "parse_cidr s = Some (a, n) \<Longrightarrow> wf_net n"
  by (auto simp: parse_cidr_def intro!: wf_net_mask dest: parse_addr_length
      split: option.splits if_splits)

lemma ipnet_string_norm:
  assumes "wf_net n"
  shows "ipnet_string n = cidr_of (net_ip (norm_net n)) (net_ones (norm_net n))"
  using assms
  by (auto simp: ipnet_string_def cidr_of_def norm_net_def ip_string_def to4_def v4mapped_def wf_net_def)

lemma parse_cidr_ipnet_string [net_simps]:
  assumes "wf_net n"
  shows "parse_cidr (ipnet_string n) = Some (to16 (net_ip (norm_net n)), norm_net n)"
proof -
  have "net_ones (norm_net n) \<le> 8 * length (net_ip (norm_net n))"
    using wf_norm_net(1) [OF assms] by (simp add: wf_net_def net_bits_def)
  then show ?thesis
    unfolding ipnet_string_norm [OF assms] parse_cidr_cidr_of [OF wf_norm_net(2) [OF assms]]
    by (simp add: ip_mask_aligned [OF wf_norm_net(1) [OF assms]])
qed

lemma OverlappingPrefixes_parsed [net_simps]:
  "parse_cidr s1 = Some (a1, n1) \<Longrightarrow> parse_cidr s2 = Some (a2, n2) \<Longrightarrow>
     OverlappingPrefixes s1 s2 = overlap n1 n2"
  by (simp add: OverlappingPrefixes_def overlap_def)

lemma OverlappingPrefixesD:
  assumes "OverlappingPrefixes s1 s2"
  obtains a1 n1 a2 n2 where "parse_cidr s1 = Some (a1, n1)" "parse_cidr s2 = Some (a2, n2)" "overlap n1 n2"
  using assms by (auto simp: OverlappingPrefixes_def overlap_def split: option.splits)

lemma CollideWith_filter: "CollideWith p cs = filter (\<lambda>c. OverlappingPrefixes c p) cs"
  by (induction cs) simp_all


section \<open>Properties\<close>

text \<open>
  C8: for two CIDRs that parse, \<open>OverlappingPrefixes\<close> answers
  true exactly when some IP address lies in both networks; for text that does not parse it answers
  false.
\<close>

theorem overlapping_prefixes_shared:
  "OverlappingPrefixes cidr1 cidr2 \<longleftrightarrow>
     (\<exists>a1 n1 a2 n2 a. parse_cidr cidr1 = Some (a1, n1) \<and> parse_cidr cidr2 = Some (a2, n2) \<and>
        contains n1 a \<and> contains n2 a)"
  by (auto simp: OverlappingPrefixes_parsed overlap_shared parse_cidr_wf elim!: OverlappingPrefixesD)

text \<open>
  C7: for a network no byte of which is 254, \<open>NextPrefix\<close> returns the
  network of the same length that starts right after its last address, \<open>LastIP\<close> (wrapping to 0
  at the end of the address space), and \<open>LastIP\<close> is the highest address of the network.
\<close>

theorem next_prefix_adjacent:
  assumes "wf_net n" "254 \<notin> set (net_ip n)"
  shows "wf_net (NextPrefix n) \<and> net_ones (NextPrefix n) = net_ones n \<and>
    ip_val (net_ip (NextPrefix n)) = (ip_val (LastIP n) + 1) mod 2 ^ net_bits n \<and>
    ip_val (LastIP n) = ip_val (net_ip n) + 2 ^ wild n - 1"
proof -
  have "Suc 0 \<le> 2 ^ wild n" by simp
  then have "ip_val (LastIP n) + 1 = ip_val (net_ip n) + 2 ^ wild n"
    unfolding LastIP_val [OF assms(1)] by linarith
  then show ?thesis
    using NextPrefix_val [OF assms] LastIP_val [OF assms(1)] wf_net_NextPrefix [OF assms(1)] by simp
qed

theorem next_prefix_adjacent_witness:
  "wf_net \<lparr>net_ip = [10, 0, 255, 0], net_ones = 24\<rparr> \<and> 254 \<notin> set [10, 0, 255, 0 :: byte] \<and>
   ip_val (net_ip (NextPrefix \<lparr>net_ip = [10, 0, 255, 0], net_ones = 24\<rparr>)) = ip_val [10, 1, 0, 0]"
proof -
  have n: "wf_net \<lparr>net_ip = [10, 0, 255, 0], net_ones = 24\<rparr>" "254 \<notin> set [10, 0, 255, 0 :: byte]"
    by (simp_all add: wf_net_def net_bits_def wild_def ip_val_def dvd_def)
  from next_prefix_adjacent [of "\<lparr>net_ip = [10, 0, 255, 0], net_ones = 24\<rparr>"] n show ?thesis
    by (simp add: net_bits_def wild_def ip_val_def)
qed

text \<open>
  The carry test of \<open>NextPrefix\<close> adds one too many: after
  172.16.254.0/24 it returns 172.17.255.0/24, jumping over 172.16.255.0/24, although the
  comment promises the next prefix.
\<close>

theorem next_prefix_skips:
  "NextPrefix \<lparr>net_ip = [172, 16, 254, 0], net_ones = 24\<rparr> = \<lparr>net_ip = [172, 17, 255, 0], net_ones = 24\<rparr>"
  by (simp add: NextPrefix_def net_bits_def upt_rec Let_def)

end
