(* ===== verification/IpamAlloc.thy ===== *)
theory IpamAlloc
  imports IpamPrefix
begin

text \<open>
  \<open>pkg/ipam/prefix/{prefix,allocate,errors}.go\<close> and the storage interface of
  \<open>pkg/ipam/types\<close>: the prefix tree, the store as a record of operations on an abstract state,
  and the allocator. The locale \<open>prefix_store\<close> is the contract the allocator relies on; the
  stores interpret it in their own theories. A Go error is a value of \<open>ipam_err\<close> (wrapping with
  \<open>%w\<close> keeps the kind); a nil dereference is the error \<open>Panic\<close>.
\<close>

section \<open>Definitions\<close>

subsection \<open>Prefixes\<close>

datatype pfx = Pfx (pfx_name: string) (pfx_cidr: string) (pfx_parent: "pfx option")

fun pfx_equals :: "pfx \<Rightarrow> pfx option \<Rightarrow> bool" where
  "pfx_equals p None = False"
| "pfx_equals (Pfx n c None) (Some q) = (n = pfx_name q \<and> pfx_parent q = None)"
| "pfx_equals (Pfx n c (Some r)) (Some q) = (n = pfx_name q \<and> pfx_equals r (pfx_parent q))"

subsection \<open>The storage interface\<close>

datatype ipam_err =
    ErrInvalidLength | ErrParseCIDR | ErrNoMorePrefix | ErrCIDRConflict | ErrPrefixExists
  | ErrDatabase | ErrIPFamily | ErrConduitNil | ErrTrenchNil | ErrNoTrench | ErrContext | Panic

text \<open>What the stores read of a context: whether the record must be expirable and the damping
  threshold of updates (\<open>storage/sqlite/context.go\<close>).\<close>

record ctx =
  lifetimeKey :: bool
  updateDampingKey :: "nat option"

record PrefixLengths =
  ConduitLength :: int
  NodeLength :: int
  ChildLength :: int

record 's Storage =
  st_Add :: "ctx \<Rightarrow> pfx option \<Rightarrow> 's \<Rightarrow> ipam_err option \<times> 's"
  st_Update :: "ctx \<Rightarrow> pfx option \<Rightarrow> 's \<Rightarrow> ipam_err option \<times> 's"
  st_Delete :: "ctx \<Rightarrow> pfx option \<Rightarrow> 's \<Rightarrow> ipam_err option \<times> 's"
  st_Get :: "ctx \<Rightarrow> string \<Rightarrow> pfx option \<Rightarrow> 's \<Rightarrow> (ipam_err + pfx option) \<times> 's"
  st_GetChilds :: "ctx \<Rightarrow> pfx \<Rightarrow> 's \<Rightarrow> (ipam_err + pfx list) \<times> 's"

subsection \<open>The allocator\<close>

definition prefixSliceToStringSlice :: "pfx list \<Rightarrow> string list" where
  "prefixSliceToStringSlice prefixes = map pfx_cidr prefixes"

fun PrefixCollideWith :: "pfx \<Rightarrow> pfx list \<Rightarrow> pfx list" where
  "PrefixCollideWith prefix [] = []"
| "PrefixCollideWith prefix (childPrefix # childs) =
     (if OverlappingPrefixes (pfx_cidr childPrefix) (pfx_cidr prefix)
      then childPrefix # PrefixCollideWith prefix childs else PrefixCollideWith prefix childs)"

text \<open>The inner loop: jump over the first collision until there is none.\<close>

partial_function (option) skip_collisions ::
  "string \<Rightarrow> nat \<Rightarrow> ipnet \<Rightarrow> string list \<Rightarrow> ipnet \<Rightarrow> (ipam_err + ipnet) option" where
  "skip_collisions parentCidr len firstCandidate childList currentCandidate =
     (case CollideWith (ipnet_string currentCandidate) childList of
        [] \<Rightarrow> Some (Inr currentCandidate)
      | collision # _ \<Rightarrow>
          (case parse_cidr collision of
             None \<Rightarrow> Some (Inl Panic)
           | Some (_, collisionIPNet) \<Rightarrow>
               (case parse_cidr (cidr_of (LastIP collisionIPNet) len) of
                  None \<Rightarrow> Some (Inl Panic)
                | Some (_, lastCandidate) \<Rightarrow>
                    (let currentCandidate = NextPrefix lastCandidate in
                     if ipnet_string firstCandidate = ipnet_string currentCandidate \<or>
                        \<not> OverlappingPrefixes parentCidr (ipnet_string currentCandidate)
                     then Some (Inl ErrNoMorePrefix)
                     else skip_collisions parentCidr len firstCandidate childList currentCandidate))))"

text \<open>The outer loop: add the candidate, read the children back, and keep it when it is the only
  collision; otherwise start again with the children read.\<close>

partial_function (option) allocate_loop ::
  "'s Storage \<Rightarrow> ctx \<Rightarrow> pfx \<Rightarrow> string \<Rightarrow> nat \<Rightarrow> string list \<Rightarrow> ipnet \<Rightarrow> string list \<Rightarrow> ipnet \<Rightarrow> 's \<Rightarrow>
     ((ipam_err + pfx) \<times> 's) option" where
  "allocate_loop st c parent name len blocklist firstCandidate childList currentCandidate s =
     Option.bind
       (skip_collisions (pfx_cidr parent) len firstCandidate (childList @ blocklist) currentCandidate)
       (\<lambda>r. case r of
          Inl e \<Rightarrow> Some (Inl e, s)
        | Inr currentCandidate \<Rightarrow>
            (let currentCandidatePrefix = Pfx name (ipnet_string currentCandidate) (Some parent);
                 (err, s) = st_Add st c (Some currentCandidatePrefix) s;
                 isCIDRConflict = (err = Some ErrCIDRConflict)
             in if err \<noteq> None \<and> \<not> isCIDRConflict then Some (Inl (the err), s)
                else case st_GetChilds st c parent s of
                  (Inl e, s) \<Rightarrow> Some (Inl e, s)
                | (Inr childs, s) \<Rightarrow>
                    (let collisions = PrefixCollideWith currentCandidatePrefix childs in
                     if length collisions = 1 \<and> pfx_equals currentCandidatePrefix (Some (collisions ! 0))
                     then Some (Inr currentCandidatePrefix, s)
                     else if isCIDRConflict
                     then allocate_loop st c parent name len blocklist firstCandidate
                            (prefixSliceToStringSlice childs) currentCandidate s
                     else case st_Delete st c (Some currentCandidatePrefix) s of
                       (Some e, s) \<Rightarrow> Some (Inl e, s)
                     | (None, s) \<Rightarrow>
                         allocate_loop st c parent name len blocklist firstCandidate
                           (prefixSliceToStringSlice childs) currentCandidate s)))"

definition AllocateWithBlocklist ::
  "'s Storage \<Rightarrow> ctx \<Rightarrow> pfx \<Rightarrow> string \<Rightarrow> int \<Rightarrow> string list \<Rightarrow> 's \<Rightarrow> ((ipam_err + pfx) \<times> 's) option" where
  "AllocateWithBlocklist st c parent name len blocklist s =
     (case parse_cidr (pfx_cidr parent) of
        None \<Rightarrow> Some (Inl Panic, s)
      | Some (_, parentIPNet) \<Rightarrow>
          if len \<le> int (net_ones parentIPNet) then Some (Inl ErrInvalidLength, s)
          else case parse_cidr (cidr_of (net_ip parentIPNet) (nat len)) of
            None \<Rightarrow> Some (Inl ErrParseCIDR, s)
          | Some (_, currentCandidate) \<Rightarrow>
              (case st_GetChilds st c parent s of
                 (Inl e, s) \<Rightarrow> Some (Inl e, s)
               | (Inr childs, s) \<Rightarrow>
                   allocate_loop st c parent name (nat len) blocklist currentCandidate
                     (prefixSliceToStringSlice childs) currentCandidate s))"

definition Allocate ::
  "'s Storage \<Rightarrow> ctx \<Rightarrow> pfx \<Rightarrow> string \<Rightarrow> int \<Rightarrow> 's \<Rightarrow> ((ipam_err + pfx) \<times> 's) option" where
  "Allocate st c parent name len s = AllocateWithBlocklist st c parent name len [] s"

subsection \<open>Vocabulary of the specification\<close>

text \<open>The names from a prefix up to its root.\<close>

fun path :: "pfx \<Rightarrow> string list" where
  "path (Pfx n c None) = [n]"
| "path (Pfx n c (Some r)) = n # path r"

definition beneath :: "pfx \<Rightarrow> pfx \<Rightarrow> bool" where
  "beneath p q \<longleftrightarrow> (\<exists>xs. path q = xs @ path p)"

text \<open>A network of length \<open>len\<close> inside \<open>parent\<close>.\<close>

definition sub_net :: "ipnet \<Rightarrow> ipnet \<Rightarrow> bool" where
  "sub_net n parent \<longleftrightarrow> (\<forall>a. contains n a \<longrightarrow> contains parent a)"

definition candidate :: "ipnet \<Rightarrow> nat \<Rightarrow> ipnet \<Rightarrow> bool" where
  "candidate parent len n \<longleftrightarrow> wf_net n \<and> plain (net_ip n) \<and> net_ones n = len \<and>
     length (net_ip n) = length (net_ip parent) \<and> overlap n parent"


text \<open>No network of the list is the whole address space.\<close>

definition proper_cidrs :: "string list \<Rightarrow> bool" where
  "proper_cidrs cs \<longleftrightarrow> (\<forall>c \<in> set cs. \<forall>a n. parse_cidr c = Some (a, n) \<longrightarrow> 0 < net_ones (norm_net n))"

text \<open>The tree of stored prefixes: names are unique along a path, parents are stored, every prefix lies
  in its parent, and siblings share no address.\<close>

definition closed_tree :: "pfx set \<Rightarrow> bool" where
  "closed_tree S \<longleftrightarrow> inj_on path S \<and> (\<forall>p \<in> S. \<forall>r. pfx_parent p = Some r \<longrightarrow> r \<in> S)"

definition inside :: "pfx \<Rightarrow> pfx \<Rightarrow> bool" where
  "inside p r \<longleftrightarrow> (\<exists>a n b m. parse_cidr (pfx_cidr p) = Some (a, n) \<and> parse_cidr (pfx_cidr r) = Some (b, m) \<and>
     sub_net n m \<and> wild n < wild m)"

definition disjoint_tree :: "pfx set \<Rightarrow> bool" where
  "disjoint_tree S \<longleftrightarrow> (\<forall>p \<in> S. \<forall>r. pfx_parent p = Some r \<longrightarrow> inside p r) \<and>
     (\<forall>p \<in> S. \<forall>q \<in> S. p \<noteq> q \<and> pfx_parent p = pfx_parent q \<and> pfx_parent p \<noteq> None \<longrightarrow>
        \<not> OverlappingPrefixes (pfx_cidr p) (pfx_cidr q))"

definition parent_in :: "pfx set \<Rightarrow> pfx option \<Rightarrow> bool" where
  "parent_in S par \<longleftrightarrow> (\<forall>r. par = Some r \<longrightarrow> r \<in> S)"

section \<open>Lemmas: prefixes\<close>

lemma path_Nil [simp]: "path p \<noteq> []" "[] \<noteq> path p"
  by (cases p rule: path.cases; simp)+

lemma pfx_equals_iff [store_simps]: "pfx_equals p (Some q) \<longleftrightarrow> path p = path q"
proof (induction p arbitrary: q)
  case (Pfx n c par)
  show ?case
  proof (cases par)
    case None
    then show ?thesis by (cases q; cases "pfx_parent q") (auto dest: sym)
  next
    case (Some r)
    then show ?thesis
      using Pfx [of r] by (cases q; cases "pfx_parent q") auto
  qed
qed

lemma PrefixCollideWith_filter:
  "PrefixCollideWith p cs = filter (\<lambda>c. OverlappingPrefixes (pfx_cidr c) (pfx_cidr p)) cs"
  by (induction cs) simp_all

section \<open>Lemmas: the last address\<close>

lemma last_blocks_idle [simp]: "last_blocks 0 bs = bs"
  by (induction bs) (simp_all add: ones_byte_cases)

lemma last_blocks_take: "w \<le> 8 * k \<Longrightarrow> last_blocks w bs = last_blocks w (take k bs) @ drop k bs"
proof (induction w bs arbitrary: k rule: last_blocks.induct)
  case (2 w b bs)
  show ?case
  proof (cases k)
    case 0
    with 2 show ?thesis by (simp add: ones_byte_cases)
  next
    case (Suc j)
    with 2 show ?thesis by simp
  qed
qed simp

lemma LastIP_mapped:
  assumes "wf_net n" "v4mapped (net_ip n)"
  shows "v4mapped (LastIP n)" "drop 12 (LastIP n) = LastIP (norm_net n)"
proof -
  have len: "length (net_ip n) = 16" "length (LastIP n) = 16" using assms(2) by (simp_all add: v4mapped_def)
  have "wild n \<le> 8 * 4"
    using v4mapped_ones [OF assms] len by (simp add: wild_def net_bits_def)
  then have "LastIP n = rev (last_blocks (wild n) (take 4 (rev (net_ip n))) @ drop 4 (rev (net_ip n)))"
    unfolding LastIP_blocks by (intro arg_cong [of _ _ rev] last_blocks_take)
  then have last: "LastIP n = take 12 (net_ip n) @ rev (last_blocks (wild n) (rev (drop 12 (net_ip n))))"
    using len by (simp add: rev_drop rev_take)
  then have "take 12 (LastIP n) = take 12 (net_ip n)"
    using len by simp
  with assms(2) len show "v4mapped (LastIP n)" by (simp add: v4mapped_def)
  have "LastIP (norm_net n) = rev (last_blocks (wild n) (rev (drop 12 (net_ip n))))"
    unfolding LastIP_blocks wild_norm_net [OF assms(1)] using assms(2) by (simp add: norm_net_def)
  with last len show "drop 12 (LastIP n) = LastIP (norm_net n)" by simp
qed

lemma ip_string_norm: "ip_string (norm_ip a) = ip_string a"
  by (auto simp: norm_ip_def ip_string_def to4_def v4mapped_def)

lemma parse_cidr_text:
  assumes "length a \<in> {4, 16}"
  shows "parse_cidr (cidr_of a k) =
    (if k \<le> 8 * length (norm_ip a)
     then Some (to16 (norm_ip a), \<lparr>net_ip = ip_mask (norm_ip a) (cidr_mask k (length (norm_ip a))), net_ones = k\<rparr>)
     else None)"
proof -
  have "cidr_of a k = cidr_of (norm_ip a) k" by (simp add: cidr_of_def ip_string_norm)
  then show ?thesis using parse_cidr_cidr_of [OF plain_norm_ip [OF assms]] by simp
qed

text \<open>A network meeting \<open>n\<close> starts at or before the last address of \<open>n\<close>.\<close>

lemma overlap_le_last:
  assumes "wf_net n" "wf_net c" "plain (net_ip n)" "plain (net_ip c)" "overlap n c"
  shows "ip_val (net_ip c) \<le> ip_val (LastIP n)"
proof -
  let ?w = "max (wild n) (wild c)" and ?n = "ip_val (net_ip n)" and ?c = "ip_val (net_ip c)"
  have eq: "?n div 2 ^ ?w = ?c div 2 ^ ?w"
    using assms by (simp add: overlap_iff)
  have last: "ip_val (LastIP n) + 1 = ?n + 2 ^ wild n"
    using LastIP_val [OF assms(1)] by simp
  have dvd: "2 ^ wild n dvd ?n" "2 ^ wild c dvd ?c" using assms by (simp_all add: wf_net_def)
  show ?thesis
  proof (cases "wild n \<le> wild c")
    case True
    then have "?n div 2 ^ wild c = ?c div 2 ^ wild c" using eq by (simp add: max_def)
    then have "?c = ?n div 2 ^ wild c * 2 ^ wild c" using dvd(2) by simp
    also have "\<dots> \<le> ?n" by (rule div_times_less_eq_dividend)
    finally have "?c \<le> ?n" .
    moreover have "(1 :: nat) \<le> 2 ^ wild n" by simp
    ultimately show ?thesis using last by linarith
  next
    case False
    then have "?n div 2 ^ wild n = ?c div 2 ^ wild n" using eq by (simp add: max_def)
    then have "?n = ?c div 2 ^ wild n * 2 ^ wild n"
      using dvd_div_mult_self [OF dvd(1)] by simp
    moreover have "?c = ?c div 2 ^ wild n * 2 ^ wild n + ?c mod 2 ^ wild n"
      by (simp only: div_mult_mod_eq)
    moreover have "?c mod 2 ^ wild n < 2 ^ wild n" by simp
    ultimately show ?thesis using last by linarith
  qed
qed

lemma block_last_div: "0 < k \<Longrightarrow> (k * q + (k - 1)) div k = q" for k q :: nat
  by (cases k) (auto intro!: div_nat_eqI)

lemma aligned_le_mask:
  fixes c x :: nat
  assumes "2 ^ w dvd c" "c \<le> x"
  shows "c \<le> x div 2 ^ w * 2 ^ w"
proof -
  have "c = c div 2 ^ w * 2 ^ w" using assms(1) by simp
  also have "\<dots> \<le> x div 2 ^ w * 2 ^ w" using assms(2) by (intro mult_le_mono1 div_le_mono)
  finally show ?thesis .
qed


section \<open>Lemmas: the candidates\<close>

lemma CollideWith_Cons:
  assumes "CollideWith p cs = c # r"
  shows "c \<in> set cs" "OverlappingPrefixes c p"
proof -
  have "c \<in> set (filter (\<lambda>c. OverlappingPrefixes c p) cs)"
    using assms by (simp add: CollideWith_filter)
  then show "c \<in> set cs" "OverlappingPrefixes c p" by auto
qed

lemma overlap_norm: "wf_net n \<Longrightarrow> wf_net m \<Longrightarrow> overlap (norm_net n) m \<longleftrightarrow> overlap n m"
  using wf_norm_net [of n]
  by (simp add: overlap_iff net_ip_norm_net wild_norm_net)

lemma Overlapping_text:
  assumes "wf_net n"
  shows "OverlappingPrefixes s (ipnet_string n) \<longleftrightarrow> (\<exists>a m. parse_cidr s = Some (a, m) \<and> overlap m n)"
    and "OverlappingPrefixes (ipnet_string n) s \<longleftrightarrow> (\<exists>a m. parse_cidr s = Some (a, m) \<and> overlap m n)"
proof -
  have "OverlappingPrefixes s (ipnet_string n) \<longleftrightarrow> (\<exists>a m. parse_cidr s = Some (a, m) \<and> overlap (norm_net n) m)"
    by (auto simp: OverlappingPrefixes_def parse_cidr_ipnet_string [OF assms] overlap_def split: option.splits)
  then show one: "OverlappingPrefixes s (ipnet_string n) \<longleftrightarrow> (\<exists>a m. parse_cidr s = Some (a, m) \<and> overlap m n)"
    using overlap_norm [OF assms] overlap_sym parse_cidr_wf by blast
  have "OverlappingPrefixes (ipnet_string n) s \<longleftrightarrow> OverlappingPrefixes s (ipnet_string n)"
    by (auto simp: OverlappingPrefixes_def split: option.splits)
  with one show "OverlappingPrefixes (ipnet_string n) s \<longleftrightarrow> (\<exists>a m. parse_cidr s = Some (a, m) \<and> overlap m n)"
    by simp
qed

lemma cidr_of_LastIP_norm: "wf_net n \<Longrightarrow> cidr_of (LastIP (norm_net n)) len = cidr_of (LastIP n) len"
proof (cases "v4mapped (net_ip n)")
  case True
  assume "wf_net n"
  then have "norm_ip (LastIP n) = LastIP (norm_net n)" using LastIP_mapped True by simp
  then show ?thesis by (metis cidr_of_def ip_string_norm)
qed (simp add: norm_net_def)

text \<open>One round of the inner loop: the next candidate, when it is still in the parent, is again a
  candidate, and it starts beyond the last address of the collision.\<close>

lemma norm_length_16:
  assumes "length a \<in> {4, 16}" "length (norm_ip a) = 16"
  shows "length a = 16" "plain a" "norm_ip a = a"
  using assms by (auto simp: norm_ip_def to4_def plain_def v4mapped_def split: if_splits)

lemma next_candidate:
  assumes P: "wf_net P" "plain (net_ip P)"
    and c: "candidate P len c"
    and n: "wf_net n" "plain (net_ip n)" "overlap n c"
    and p: "parse_cidr (cidr_of (LastIP n) len) = Some (a, c')"
    and ov: "overlap P (NextPrefix c')"
  shows "candidate P len (NextPrefix c')" "wf_net c'"
    "length (net_ip c') = length (net_ip P)" "net_ones c' = len"
    "ip_val (net_ip c') = ip_val (LastIP n) div 2 ^ wild c * 2 ^ wild c"
proof -
  have wfn: "wf_net c'" "wf_net (NextPrefix c')"
    using parse_cidr_wf [OF p] by (simp_all add: wf_net_NextPrefix)
  have len: "length (LastIP n) \<in> {4, 16}"
    using n(1) by (simp add: wf_net_def)
  have cc: "wf_net c" "plain (net_ip c)" "net_ones c = len" "length (net_ip c) = length (net_ip P)"
    using c by (simp_all add: candidate_def)
  from p have k: "len \<le> 8 * length (norm_ip (LastIP n))" "net_ones c' = len"
      "net_ip c' = ip_mask (norm_ip (LastIP n)) (cidr_mask len (length (norm_ip (LastIP n))))"
    unfolding parse_cidr_text [OF len] by (auto split: if_splits)
  have ln: "length (net_ip n) = length (net_ip P)"
    using n cc by (simp add: overlap_iff)
  have lN: "length (norm_ip (net_ip (NextPrefix c'))) = length (net_ip P)"
    using ov P by (simp add: overlap_iff [OF P(1) wfn(2)])
  have lc: "length (net_ip (NextPrefix c')) = length (norm_ip (LastIP n))"
    using k(3) by simp
  have key: "norm_ip (LastIP n) = LastIP n \<and> plain (net_ip (NextPrefix c'))"
  proof (cases "length (net_ip P) = 16")
    case True
    have "length (net_ip (NextPrefix c')) \<in> {4, 16}" using wfn by (simp add: wf_net_def)
    from norm_length_16 [OF this] lN True have N: "plain (net_ip (NextPrefix c'))"
        "length (net_ip (NextPrefix c')) = 16" by simp_all
    then have "length (norm_ip (LastIP n)) = 16" using lc by simp
    with norm_length_16 [OF len] N show ?thesis by simp
  next
    case False
    then have "length (net_ip P) = 4" using P(1) by (auto simp: wf_net_def)
    then have "plain (LastIP n)" "length (LastIP n) = 4" using ln by (simp_all add: plain_def)
    with lc show ?thesis by (simp add: plain_def)
  qed
  then have lenL: "norm_ip (LastIP n) = LastIP n" "length (LastIP n) = length (net_ip P)"
    using ln by simp_all
  then show lP: "length (net_ip c') = length (net_ip P)" using k(3) by simp
  show "wf_net c'" "net_ones c' = len" by (rule wfn(1), rule k(2))
  show "candidate P len (NextPrefix c')"
    unfolding candidate_def using wfn(2) key k(2) lP ov overlap_sym by auto
  have "8 * length (LastIP n) - len = wild c"
    using cc lenL(2) by (simp add: wild_def net_bits_def)
  then show "ip_val (net_ip c') = ip_val (LastIP n) div 2 ^ wild c * 2 ^ wild c"
    using ip_val_mask [of len "LastIP n"] k lenL by simp
qed


lemma top_half:
  assumes "length a = Suc L"
  shows "ip_val a div 2 ^ (8 * length a - 1) = unat (hd a) div 128"
proof -
  obtain b r where a: "a = b # r" "length r = L" using assms by (cases a) auto
  have "(2 :: nat) ^ (8 * length a - 1) = 256 ^ L * 128"
    using power_add [of "2 :: nat" "8 * L" 7] by (simp add: a power_mult add.commute)
  moreover have "(unat b * 256 ^ L + ip_val r) div 256 ^ L = unat b"
    using ip_val_less [of r] a(2) by (simp add: power_mult)
  ultimately show ?thesis
    by (simp add: a ip_val_Cons div_mult2_eq)
qed

text \<open>Networks that overlap and are not the whole address space lie in the same half of it.\<close>

lemma overlap_same_half:
  assumes "wf_net n" "wf_net m" "plain (net_ip n)" "plain (net_ip m)" "overlap n m"
    and "0 < net_ones n" "0 < net_ones m"
  shows "ip_val (net_ip n) div 2 ^ (net_bits n - 1) = ip_val (net_ip m) div 2 ^ (net_bits n - 1)"
proof -
  have o: "length (net_ip n) = length (net_ip m)"
    "ip_val (net_ip n) div 2 ^ max (wild n) (wild m) = ip_val (net_ip m) div 2 ^ max (wild n) (wild m)"
    using assms by (simp_all add: overlap_iff)
  have "max (wild n) (wild m) \<le> net_bits n - 1"
    using assms o(1) by (auto simp: wild_def net_bits_def)
  with o(2) show ?thesis by (rule div_pow_mono)
qed

lemma next_candidate_beyond:
  assumes P: "wf_net P" "plain (net_ip P)" "0 < net_ones P"
    and c: "candidate P len c" "0 < len"
    and n: "wf_net n" "plain (net_ip n)" "overlap n c" "0 < net_ones n"
    and p: "parse_cidr (cidr_of (LastIP n) len) = Some (a, c')"
    and ov: "overlap P (NextPrefix c')"
  shows "ip_val (net_ip c) < ip_val (net_ip (NextPrefix c'))"
proof -
  note nc = next_candidate [OF P(1,2) c(1) n(1-3) p ov]
  have cc: "wf_net c" "plain (net_ip c)" "net_ones c = len" "length (net_ip c) = length (net_ip P)" "overlap c P"
    using c by (simp_all add: candidate_def)
  let ?h = "2 ^ (net_bits P - 1) :: nat"
  have le: "ip_val (net_ip c) \<le> ip_val (LastIP n)"
    using overlap_le_last n cc by blast
  have le': "ip_val (net_ip c) \<le> ip_val (net_ip c')"
    unfolding nc(5) using cc(1) le by (intro aligned_le_mask) (simp_all add: wf_net_def)
  have ln: "length (net_ip n) = length (net_ip P)"
    using n cc by (simp add: overlap_iff)
  have bits: "net_bits n = net_bits P" "net_bits c = net_bits P" using ln cc by (simp_all add: net_bits_def)
  have half: "ip_val (net_ip c) div ?h = ip_val (net_ip P) div ?h"
      "ip_val (net_ip n) div ?h = ip_val (net_ip c) div ?h"
    using overlap_same_half [OF cc(1) P(1) cc(2) P(2) cc(5)] overlap_same_half [OF n(1) cc(1) n(2) cc(2) n(3)]
      P(3) n(4) c(2) cc(3) bits by simp_all
  obtain L where L: "length (net_ip P) = Suc L"
    using P(1) by (cases "length (net_ip P)") (auto simp: wf_net_def)
  from NextPrefix_mono [OF nc(2)] nc(4) c(2)
  consider "ip_val (net_ip c') + 2 ^ wild c' \<le> ip_val (net_ip (NextPrefix c'))"
    | "hd (net_ip (NextPrefix c')) = 0" "128 \<le> unat (hd (net_ip c'))" by auto
  then show ?thesis
  proof cases
    case 1
    moreover have "(1 :: nat) \<le> 2 ^ wild c'" by simp
    ultimately show ?thesis using le' by linarith
  next
    case 2
    have "candidate P len (NextPrefix c')" by (rule nc(1))
    then have "ip_val (net_ip (NextPrefix c')) div ?h = ip_val (net_ip P) div ?h"
      using overlap_same_half [of "NextPrefix c'" P] P c(2) by (simp add: candidate_def net_bits_def)
    moreover have "ip_val (net_ip (NextPrefix c')) div ?h = 0"
      using top_half [of "net_ip (NextPrefix c')" L] 2(1) nc(3) L by (simp add: net_bits_def)
    ultimately have "ip_val (net_ip n) div ?h = 0" using half by simp
    moreover have "?h = 2 ^ wild n * 2 ^ (net_bits P - 1 - wild n)"
      using n(4) n(1) bits(1) by (simp add: wild_def wf_net_def flip: power_add)
    moreover have "ip_val (LastIP n) div 2 ^ wild n = ip_val (net_ip n) div 2 ^ wild n"
    proof -
      obtain q where q: "ip_val (net_ip n) = 2 ^ wild n * q" using n(1) by (auto simp: wf_net_def elim: dvdE)
      then have "ip_val (LastIP n) = 2 ^ wild n * q + (2 ^ wild n - 1)"
        using LastIP_val [OF n(1)] by simp
      moreover have "(2 ^ wild n * q + (2 ^ wild n - 1)) div 2 ^ wild n = q"
        by (rule block_last_div) simp
      ultimately show ?thesis using q by (simp only: nonzero_mult_div_cancel_left) simp
    qed
    ultimately have "ip_val (LastIP n) div ?h = 0" by (simp add: div_mult2_eq)
    then have "ip_val (LastIP n) < ?h" by (simp add: div_eq_0_iff)
    moreover have "ip_val (net_ip c') \<le> ip_val (LastIP n)"
      unfolding nc(5) by (rule div_times_less_eq_dividend)
    ultimately have "ip_val (net_ip c') div ?h = 0" by simp
    moreover have "ip_val (net_ip c') div ?h = unat (hd (net_ip c')) div 128"
      using top_half [of "net_ip c'" L] nc(3) L by (simp add: net_bits_def)
    ultimately show ?thesis using 2(2) by (simp add: div_eq_0_iff)
  qed
qed


section \<open>Lemmas: the loops\<close>

text \<open>What the step of \<open>skip_collisions\<close> works on.\<close>

lemma collision_net:
  assumes "candidate P len c" "CollideWith (ipnet_string c) cl = k # r" "parse_cidr k = Some (b, n)"
  shows "wf_net (norm_net n)" "plain (net_ip (norm_net n))" "overlap (norm_net n) c"
proof -
  have c: "wf_net c" using assms(1) by (simp add: candidate_def)
  have n: "wf_net n" using parse_cidr_wf assms(3) by blast
  show "wf_net (norm_net n)" "plain (net_ip (norm_net n))" using wf_norm_net [OF n] by simp_all
  show "overlap (norm_net n) c"
    using CollideWith_Cons(2) [OF assms(2)] assms(3) by (simp add: Overlapping_text [OF c] overlap_norm [OF n c])
qed

lemma next_in_parent:
  assumes "parse_cidr pc = Some (a, P)" "parse_cidr s = Some (b, c')"
  shows "OverlappingPrefixes pc (ipnet_string (NextPrefix c')) \<longleftrightarrow> overlap P (NextPrefix c')"
  using assms parse_cidr_wf [OF assms(2)] by (simp add: Overlapping_text wf_net_NextPrefix)

lemma skip_collisions_result:
  assumes "skip_collisions pc len first cl c = Some r"
  shows "r = Inr c' \<Longrightarrow> parse_cidr pc = Some (a, P) \<Longrightarrow> plain (net_ip P) \<Longrightarrow> candidate P len c \<Longrightarrow>
    candidate P len c' \<and> CollideWith (ipnet_string c') cl = []"
  using assms
proof (induction rule: skip_collisions.raw_induct [rotated, consumes 1, case_names 1])
  case (1 skip pc len first cl c r)
  note P = parse_cidr_wf [OF "1.prems"(2)]
  show ?case
  proof (cases "CollideWith (ipnet_string c) cl")
    case Nil
    with 1 show ?thesis by simp
  next
    case (Cons k ks)
    with "1.hyps" "1.prems" obtain b n b' c'' where
      k: "parse_cidr k = Some (b, n)" "parse_cidr (cidr_of (LastIP n) len) = Some (b', c'')"
      and ov: "OverlappingPrefixes pc (ipnet_string (NextPrefix c''))"
      and rec: "skip pc len first cl (NextPrefix c'') = Some r"
      by (auto simp: Let_def split: option.splits if_splits)
    have "candidate P len (NextPrefix c'')"
      using next_candidate(1) [OF P "1.prems"(3,4) collision_net [OF "1.prems"(4) Cons k(1)]]
        k(2) cidr_of_LastIP_norm [OF parse_cidr_wf [OF k(1)]] ov next_in_parent [OF "1.prems"(2) k(2)] by simp
    with 1 rec show ?thesis by blast
  qed
qed

text \<open>The inner loop returns, whatever the children are, when neither the parent nor a child is the
  whole address space.\<close>

lemma skip_collisions_returns:
  assumes "parse_cidr pc = Some (a, P)" "plain (net_ip P)" "0 < net_ones P" "0 < len"
    and "proper_cidrs cl" "candidate P len c"
  shows "\<exists>r. skip_collisions pc len first cl c = Some r"
  using assms(6)
proof (induction "2 ^ net_bits P - ip_val (net_ip c)" arbitrary: c rule: less_induct)
  case less
  note P = parse_cidr_wf [OF assms(1)]
  show ?case
  proof (cases "CollideWith (ipnet_string c) cl")
    case Nil
    then show ?thesis by (subst skip_collisions.simps) simp
  next
    case (Cons k ks)
    have rec: "\<exists>r. skip_collisions pc len first cl (NextPrefix c') = Some r"
      if k: "parse_cidr k = Some (b, n)" "parse_cidr (cidr_of (LastIP n) len) = Some (b', c')"
        "OverlappingPrefixes pc (ipnet_string (NextPrefix c'))" for b n b' c'
    proof (rule less.hyps)
      note n = collision_net [OF less.prems Cons k(1)]
      have p: "parse_cidr (cidr_of (LastIP (norm_net n)) len) = Some (b', c')"
        using k(2) cidr_of_LastIP_norm [OF parse_cidr_wf [OF k(1)]] by simp
      have ov: "overlap P (NextPrefix c')" using k(3) next_in_parent [OF assms(1) k(2)] by simp
      have "0 < net_ones (norm_net n)"
        using CollideWith_Cons(1) [OF Cons] assms(5) k(1) by (auto simp: proper_cidrs_def)
      from next_candidate_beyond [OF P assms(2,3) less.prems assms(4) n this p ov]
      have "ip_val (net_ip c) < ip_val (net_ip (NextPrefix c'))" .
      moreover have "ip_val (net_ip c) < 2 ^ net_bits P"
        using ip_val_less [of "net_ip c"] less.prems by (simp add: candidate_def net_bits_def)
      ultimately show "2 ^ net_bits P - ip_val (net_ip (NextPrefix c')) < 2 ^ net_bits P - ip_val (net_ip c)"
        by linarith
      show "candidate P len (NextPrefix c')"
        using next_candidate(1) [OF P assms(2) less.prems n p ov] .
    qed
    show ?thesis
      using rec by (subst skip_collisions.simps) (auto simp: Cons Let_def split: option.splits)
  qed
qed


lemma candidate_sub_net:
  assumes "wf_net P" "plain (net_ip P)" "net_ones P \<le> len" "candidate P len c"
  shows "sub_net c P"
  unfolding sub_net_def
proof (intro allI impI)
  fix a assume a: "contains c a"
  have "wild c \<le> wild P" using assms by (simp add: candidate_def wild_def net_bits_def)
  with a assms show "contains P a"
    using overlap_inside [of c P a] by (simp add: candidate_def)
qed

lemma first_candidate:
  assumes "wf_net P" "net_ones P < len" "parse_cidr (cidr_of (net_ip P) len) = Some (a, c)"
  shows "plain (net_ip P)" "candidate P len c" "net_ip c = net_ip P"
proof -
  have l: "length (net_ip P) \<in> {4, 16}" using assms(1) by (simp add: wf_net_def)
  from assms(3) have k: "len \<le> 8 * length (norm_ip (net_ip P))" and cn: "net_ones c = len"
      "net_ip c = ip_mask (norm_ip (net_ip P)) (cidr_mask len (length (norm_ip (net_ip P))))"
    unfolding parse_cidr_text [OF l] by (auto split: if_splits)
  show pl: "plain (net_ip P)"
  proof (rule ccontr)
    assume "\<not> ?thesis"
    then have m: "v4mapped (net_ip P)" using not_v4mapped_plain [OF l] by simp
    with v4mapped_ones [OF assms(1)] k assms(2) show False by (simp add: v4mapped_def)
  qed
  have w: "wf_net c" using parse_cidr_wf assms(3) by blast
  have "8 * length (net_ip P) - len \<le> wild P"
    using assms(2) by (simp add: wild_def net_bits_def)
  then have "2 ^ (8 * length (net_ip P) - len) dvd ip_val (net_ip P)"
    using assms(1) by (auto simp: wf_net_def intro: dvd_trans le_imp_power_dvd)
  then show ip: "net_ip c = net_ip P"
    using ip_val_mask [of len "net_ip P"] k pl cn(2) by (intro ip_val_inj) simp_all
  with assms(1) w cn pl show "candidate P len c"
    by (simp add: candidate_def overlap_def)
qed

lemma CollideWith_append: "CollideWith p (xs @ ys) = [] \<longleftrightarrow> CollideWith p xs = [] \<and> CollideWith p ys = []"
  by (simp add: CollideWith_filter)

lemma allocate_loop_result:
  assumes "allocate_loop st k parent name len bl first cl c s = Some out"
  shows "out = (Inr p, s') \<Longrightarrow> parse_cidr (pfx_cidr parent) = Some (a, P) \<Longrightarrow> plain (net_ip P) \<Longrightarrow>
    candidate P len c \<Longrightarrow>
    \<exists>c' s1 childs q. candidate P len c' \<and> p = Pfx name (ipnet_string c') (Some parent) \<and>
      CollideWith (ipnet_string c') bl = [] \<and> st_GetChilds st k parent s1 = (Inr childs, s') \<and>
      PrefixCollideWith p childs = [q] \<and> path q = path p"
  using assms
proof (induction rule: allocate_loop.raw_induct [rotated, consumes 1, case_names 1])
  case (1 loop st k parent name len bl first cl c s out)
  from "1.hyps" obtain r where sk: "skip_collisions (pfx_cidr parent) len first (cl @ bl) c = Some r"
    by (auto simp: bind_eq_Some_conv)
  with "1.hyps" "1.prems"(1) obtain c' where r: "r = Inr c'"
    by (cases r) auto
  note c' = skip_collisions_result [OF sk r "1.prems"(2-4)]
  obtain e s1 where add: "st_Add st k (Some (Pfx name (ipnet_string c') (Some parent))) s = (e, s1)" by fastforce
  obtain g s2 where get: "st_GetChilds st k parent s1 = (g, s2)" by fastforce
  show ?case
  proof (cases "\<exists>childs q. g = Inr childs \<and>
      PrefixCollideWith (Pfx name (ipnet_string c') (Some parent)) childs = [q] \<and>
      path q = path (Pfx name (ipnet_string c') (Some parent)) \<and> (e = None \<or> e = Some ErrCIDRConflict)")
    case True
    then obtain childs q where g: "g = Inr childs"
        "PrefixCollideWith (Pfx name (ipnet_string c') (Some parent)) childs = [q]"
        "path q = path (Pfx name (ipnet_string c') (Some parent))" "e = None \<or> e = Some ErrCIDRConflict"
      by blast
    with "1.hyps" sk r add get "1.prems"(1) have "p = Pfx name (ipnet_string c') (Some parent)" "s' = s2"
      by (auto simp: Let_def pfx_equals_iff)
    with g get c' show ?thesis by (auto simp: CollideWith_append)
  next
    case False
    with "1.hyps" sk r add get "1.prems"(1) obtain cl' s3 where
      "loop st k parent name len bl first cl' c' s3 = Some out"
      by (auto simp: Let_def pfx_equals_iff length_Suc_conv split: sum.splits if_splits option.splits prod.splits)
    with "1.IH" "1.prems" c' show ?thesis by blast
  qed
qed


section \<open>Lemmas: the tree\<close>

lemma tree_path_eq: "closed_tree S \<Longrightarrow> p \<in> S \<Longrightarrow> q \<in> S \<Longrightarrow> path p = path q \<longleftrightarrow> p = q"
  unfolding closed_tree_def inj_on_def by blast

lemma tree_parent: "closed_tree S \<Longrightarrow> p \<in> S \<Longrightarrow> pfx_parent p = Some r \<Longrightarrow> r \<in> S"
  unfolding closed_tree_def by blast

lemma path_Pfx: "path p = pfx_name p # (case pfx_parent p of None \<Rightarrow> [] | Some r \<Rightarrow> path r)"
  by (cases p rule: path.cases) simp_all

lemma path_sel [simp]: "path (Pfx (pfx_name q) c (pfx_parent q)) = path q"
  by (cases q rule: path.cases) simp_all

lemma beneath_parent: "pfx_parent q = Some r \<Longrightarrow> beneath p q \<longleftrightarrow> path p = path q \<or> beneath p r"
  unfolding beneath_def by (subst (1 2) path_Pfx [of q]) (auto simp: Cons_eq_append_conv)

lemma beneath_refl [simp]: "beneath p p"
  by (simp add: beneath_def)

lemma beneath_trans: "beneath p q \<Longrightarrow> beneath q r \<Longrightarrow> beneath p r"
  by (auto simp: beneath_def)

lemma beneath_root: "pfx_parent p = None \<Longrightarrow> last (path p) = last (path q) \<Longrightarrow> beneath p q"
  unfolding beneath_def using append_butlast_last_id [of "path q"] by (metis last.simps option.simps(4) path_Nil(1) path_Pfx)

lemma disjoint_inside:
  assumes "inside p r" "\<not> OverlappingPrefixes (pfx_cidr r) c"
  shows "\<not> OverlappingPrefixes (pfx_cidr p) c"
proof
  assume "OverlappingPrefixes (pfx_cidr p) c"
  then obtain a n b m where c: "parse_cidr (pfx_cidr p) = Some (a, n)" "parse_cidr c = Some (b, m)" "overlap n m"
    by (elim OverlappingPrefixesD)
  moreover from assms(1) c(1) obtain e k where r: "parse_cidr (pfx_cidr r) = Some (e, k)" "sub_net n k"
    by (auto simp: inside_def)
  ultimately have "overlap k m"
    using overlap_shared [of n m] overlap_shared [of k m] parse_cidr_wf by (auto simp: sub_net_def)
  with r c assms(2) show False by (simp add: OverlappingPrefixes_parsed)
qed

lemma Overlapping_sym: "OverlappingPrefixes c d \<longleftrightarrow> OverlappingPrefixes d c"
  by (auto simp: OverlappingPrefixes_def split: option.splits)

lemma disjoint_tree_insert:
  assumes "disjoint_tree S" "pfx_parent q = Some p" "inside q p"
    and apart: "\<And>r. r \<in> S \<Longrightarrow> pfx_parent r = Some p \<Longrightarrow> \<not> OverlappingPrefixes (pfx_cidr r) (pfx_cidr q)"
  shows "disjoint_tree (insert q S)"
proof -
  have "\<not> OverlappingPrefixes (pfx_cidr x) (pfx_cidr y)"
    if h: "x \<in> insert q S" "y \<in> insert q S" "x \<noteq> y" "pfx_parent x = pfx_parent y" "pfx_parent x \<noteq> None" for x y
  proof -
    consider "x \<in> S" "y \<in> S" | "x = q" "y \<in> S" | "x \<in> S" "y = q" using h(1-3) by blast
    then show ?thesis
    proof cases
      case 1
      with h assms(1) show ?thesis unfolding disjoint_tree_def by blast
    next
      case 2
      with h(4) assms(2) apart [of y] show ?thesis
        by (subst Overlapping_sym) simp
    next
      case 3
      with h(4) assms(2) apart [of x] show ?thesis by simp
    qed
  qed
  then show ?thesis
    using assms(1-3) unfolding disjoint_tree_def by (metis insert_iff option.inject)
qed

lemma disjoint_tree_subset: "disjoint_tree S \<Longrightarrow> T \<subseteq> S \<Longrightarrow> disjoint_tree T"
  unfolding disjoint_tree_def by blast

text \<open>Prefixes of one trench of which neither contains the other share no address.\<close>

lemma tree_disjoint:
  assumes "closed_tree S" "disjoint_tree S"
  shows "p \<in> S \<Longrightarrow> q \<in> S \<Longrightarrow> last (path p) = last (path q) \<Longrightarrow> \<not> beneath p q \<Longrightarrow> \<not> beneath q p \<Longrightarrow>
    \<not> OverlappingPrefixes (pfx_cidr p) (pfx_cidr q)"
proof (induction "length (path p) + length (path q)" arbitrary: p q rule: less_induct)
  case less
  from less.prems obtain r t where par: "pfx_parent p = Some r" "pfx_parent q = Some t"
    using beneath_root by (metis not_Some_eq)
  have S: "r \<in> S" "t \<in> S" and ins: "inside p r" "inside q t"
    using assms par less.prems(1,2) by (auto simp: closed_tree_def disjoint_tree_def)
  have path: "path p = pfx_name p # path r" "path q = pfx_name q # path t"
    by (subst path_Pfx, simp add: par)+
  then have root: "last (path r) = last (path p)" "last (path t) = last (path q)"
    and shorter: "length (path r) < length (path p)" "length (path t) < length (path q)" by simp_all
  show ?case
  proof (cases "r = t")
    case True
    moreover have "p \<noteq> q" using less.prems(4) by auto
    ultimately show ?thesis using assms(2) par less.prems(1,2) unfolding disjoint_tree_def by auto
  next
    case False
    show ?thesis
    proof (cases "beneath r q")
      case True
      then obtain xs where xs: "path q = xs @ path r" by (auto simp: beneath_def)
      have "xs \<noteq> []"
        using xs less.prems(5) beneath_parent [OF par(1), of q] by (auto simp: beneath_def)
      then obtain y ys where "xs = y # ys" by (cases xs) auto
      with xs path(2) have ys: "path t = ys @ path r" by simp
      have "ys \<noteq> []"
        using ys False S assms(1) by (auto simp: closed_tree_def inj_on_def)
      with ys path(1) have "length (path p) \<le> length (path t)" by (cases ys) simp_all
      then have "\<not> beneath t p"
        using less.prems(4) path(2) by (auto simp: beneath_def)
      moreover have "\<not> beneath p t" using less.prems(4) by (simp add: beneath_parent [OF par(2)])
      ultimately have "\<not> OverlappingPrefixes (pfx_cidr p) (pfx_cidr t)"
        using less.hyps [of p t] less.prems(1,3) S root(2) shorter(2) by simp
      with disjoint_inside [OF ins(2)] show ?thesis by (simp add: Overlapping_sym)
    next
      case False
      have "\<not> beneath q r" using less.prems(5) by (simp add: beneath_parent [OF par(1)])
      with False have "\<not> OverlappingPrefixes (pfx_cidr r) (pfx_cidr q)"
        using less.hyps [of r q] less.prems(2,3) S root(1) shorter(1) by simp
      with disjoint_inside [OF ins(1)] show ?thesis by simp
    qed
  qed
qed


section \<open>The contract of a store\<close>

text \<open>
  What the allocator and the tree rely on. \<open>stored s\<close> is the tree of prefixes in the store,
  \<open>legal\<close> the paths the store can hold. The laws are about prefixes whose parent is stored,
  which is how the tree calls the store.
\<close>

locale prefix_store =
  fixes st :: "'s Storage" and stored :: "'s \<Rightarrow> pfx set" and inv :: "'s \<Rightarrow> bool"
    and legal :: "string list \<Rightarrow> bool"
  assumes inv_tree: "inv s \<Longrightarrow> closed_tree (stored s)"
    and childs_law: "inv s \<Longrightarrow> p \<in> stored s \<Longrightarrow>
      \<exists>cs. st_GetChilds st k p s = (Inr cs, s) \<and> distinct cs \<and> set cs = {q \<in> stored s. pfx_parent q = Some p}"
    and get_stored: "inv s \<Longrightarrow> q \<in> stored s \<Longrightarrow>
      st_Get st k (pfx_name q) (pfx_parent q) s = (Inr (Some q), s)"
    and get_absent: "inv s \<Longrightarrow> parent_in (stored s) par \<Longrightarrow> legal (path (Pfx name [] par)) \<Longrightarrow>
      path (Pfx name [] par) \<notin> path ` stored s \<Longrightarrow> st_Get st k name par s = (Inr None, s)"
    and add_law: "inv s \<Longrightarrow> parent_in (stored s) (pfx_parent p) \<Longrightarrow> legal (path p) \<Longrightarrow>
      path p \<notin> path ` stored s \<Longrightarrow>
      \<forall>q \<in> stored s. pfx_parent q = pfx_parent p \<longrightarrow> pfx_cidr q \<noteq> pfx_cidr p \<Longrightarrow>
      \<exists>s'. st_Add st k (Some p) s = (None, s') \<and> inv s' \<and> stored s' = insert p (stored s)"
    and update_law: "inv s \<Longrightarrow> p \<in> stored s \<Longrightarrow>
      \<exists>s'. st_Update st k (Some p) s = (None, s') \<and> inv s' \<and> stored s' = stored s"
    and delete_law: "inv s \<Longrightarrow> p \<in> stored s \<Longrightarrow>
      \<exists>s'. st_Delete st k (Some p) s = (None, s') \<and> inv s' \<and> stored s' = {q \<in> stored s. \<not> beneath p q}"
    and delete_nil: "st_Delete st k None s = (None, s)"
begin

lemma proper_childs:
  assumes "disjoint_tree (stored s)" "p \<in> stored s" "parse_cidr (pfx_cidr p) = Some (a, P)"
    and "set cs = {q \<in> stored s. pfx_parent q = Some p}"
  shows "proper_cidrs (prefixSliceToStringSlice cs)"
  unfolding proper_cidrs_def prefixSliceToStringSlice_def
proof (intro ballI allI impI)
  fix c b n assume c: "c \<in> set (map pfx_cidr cs)" "parse_cidr c = Some (b, n)"
  then obtain q where "q \<in> stored s" "pfx_parent q = Some p" "pfx_cidr q = c" using assms(4) by auto
  with assms(1,3) c(2) have n: "sub_net n P" "wild n < wild P"
    by (fastforce simp: disjoint_tree_def inside_def)+
  have wf: "wf_net n" "wf_net P" using c(2) assms(3) parse_cidr_wf by blast+
  from n(1) wf have "contains P (net_ip n)" by (simp add: sub_net_def)
  then have "length (net_ip (norm_net n)) = length (net_ip (norm_net P))"
    using wf by (simp add: contains_iff net_ip_norm_net)
  moreover have "wild (norm_net n) < wild (norm_net P)" using n(2) wf by (simp add: wild_norm_net)
  ultimately show "0 < net_ones (norm_net n)" by (simp add: wild_def net_bits_def)
qed

lemma allocate_cases:
  assumes s: "inv s" "disjoint_tree (stored s)" "p \<in> stored s"
    and new: "legal (name # path p)" "name # path p \<notin> path ` stored s"
    and P: "parse_cidr (pfx_cidr p) = Some (a, P)" "0 < net_ones P" "proper_cidrs bl"
  shows "(\<exists>e. AllocateWithBlocklist st k p name len bl s = Some (Inl e, s)) \<or>
    (\<exists>c s'. let q = Pfx name (ipnet_string c) (Some p) in
       AllocateWithBlocklist st k p name len bl s = Some (Inr q, s') \<and> inv s' \<and>
       stored s' = insert q (stored s) \<and> disjoint_tree (stored s') \<and>
       candidate P (nat len) c \<and> int (net_ones P) < len \<and> CollideWith (ipnet_string c) bl = [])"
proof -
  obtain cs where cs: "st_GetChilds st k p s = (Inr cs, s)" "set cs = {q \<in> stored s. pfx_parent q = Some p}"
    using childs_law [OF s(1,3)] by blast
  let ?l = "prefixSliceToStringSlice cs"
  show ?thesis
  proof (cases "len \<le> int (net_ones P) \<or> parse_cidr (cidr_of (net_ip P) (nat len)) = None")
    case True
    then show ?thesis using P(1) by (auto simp: AllocateWithBlocklist_def)
  next
    case False
    then obtain b c0 where len: "int (net_ones P) < len" and c0: "parse_cidr (cidr_of (net_ip P) (nat len)) = Some (b, c0)"
      by auto
    have "net_ones P < nat len" using len by simp
    note first = first_candidate [OF parse_cidr_wf [OF P(1)] this c0]
    have proper: "proper_cidrs (?l @ bl)"
      using proper_childs [OF s(2,3) P(1) cs(2)] P(3) by (auto simp: proper_cidrs_def)
    obtain r where skip: "skip_collisions (pfx_cidr p) (nat len) c0 (?l @ bl) c0 = Some r"
      using skip_collisions_returns [OF P(1) first(1) P(2) _ proper first(2)] len by auto
    have unfold: "AllocateWithBlocklist st k p name len bl s = allocate_loop st k p name (nat len) bl c0 ?l c0 s"
      using len P(1) c0 cs(1) by (simp add: AllocateWithBlocklist_def)
    show ?thesis
    proof (cases r)
      case (Inl e)
      then show ?thesis unfolding unfold by (subst allocate_loop.simps) (simp add: skip)
    next
      case (Inr c)
      from skip_collisions_result [OF skip Inr P(1) first(1,2)] have c: "candidate P (nat len) c"
          "CollideWith (ipnet_string c) (?l @ bl) = []" by simp_all
      let ?q = "Pfx name (ipnet_string c) (Some p)"
      have wf: "wf_net c" "wf_net P" "norm_net c = c"
        using c(1) parse_cidr_wf [OF P(1)] by (simp_all add: candidate_def)
      have self: "OverlappingPrefixes (ipnet_string c) (ipnet_string c)"
        using parse_cidr_ipnet_string [OF wf(1)] wf by (simp add: Overlapping_text)
      have apart: "\<not> OverlappingPrefixes (pfx_cidr q) (ipnet_string c)" if "q \<in> stored s" "pfx_parent q = Some p" for q
        using that c(2) cs(2) by (auto simp: CollideWith_filter prefixSliceToStringSlice_def filter_empty_conv)
      obtain s1 where add: "st_Add st k (Some ?q) s = (None, s1)" "inv s1" "stored s1 = insert ?q (stored s)"
      proof -
        have "\<forall>q \<in> stored s. pfx_parent q = pfx_parent ?q \<longrightarrow> pfx_cidr q \<noteq> pfx_cidr ?q"
          using apart self by (metis pfx.sel(2,3))
        with add_law [of s ?q k] s(1,3) new that show ?thesis by (auto simp: parent_in_def)
      qed
      obtain cs1 where cs1: "st_GetChilds st k p s1 = (Inr cs1, s1)" "distinct cs1"
          "set cs1 = {q \<in> stored s1. pfx_parent q = Some p}"
        using childs_law [of s1 p k] add s(3) by auto
      have "PrefixCollideWith ?q cs1 = [?q]"
        unfolding PrefixCollideWith_filter
        using cs1 add(3) self apart by (intro filter_single) auto
      then have "allocate_loop st k p name (nat len) bl c0 ?l c0 s = Some (Inr ?q, s1)"
        by (subst allocate_loop.simps) (simp add: skip Inr add(1) cs1(1) pfx_equals_iff)
      moreover have "disjoint_tree (stored s1)"
      proof -
        have "wild c < wild P"
          using c(1) len wf(2) by (auto simp: candidate_def wild_def net_bits_def wf_net_def)
        then have "inside ?q p"
          using candidate_sub_net [OF wf(2) first(1) _ c(1)] len P(1) parse_cidr_ipnet_string [OF wf(1)] wf(3)
          by (auto simp: inside_def)
        then show ?thesis
          unfolding add(3) using s(2) apart by (intro disjoint_tree_insert [where p = p]) auto
      qed
      ultimately show ?thesis
        unfolding unfold Let_def using add c len by (metis CollideWith_append)
    qed
  qed
qed

end


text \<open>What a successful allocation guarantees for any store.\<close>

lemma allocate_result:
  assumes "AllocateWithBlocklist st k parent name len blocklist s = Some (Inr p, s')"
  shows "\<exists>a P b n s1 childs q. parse_cidr (pfx_cidr parent) = Some (a, P) \<and>
    parse_cidr (pfx_cidr p) = Some (b, n) \<and> path p = name # path parent \<and>
    int (net_ones n) = len \<and> sub_net n P \<and> wild n < wild P \<and> plain (net_ip P) \<and> plain (net_ip n) \<and>
    (\<forall>c \<in> set blocklist. \<not> OverlappingPrefixes c (pfx_cidr p)) \<and>
    st_GetChilds st k parent s1 = (Inr childs, s') \<and> PrefixCollideWith p childs = [q] \<and> path q = path p"
proof -
  from assms obtain a P b c0 cs s0 where P: "parse_cidr (pfx_cidr parent) = Some (a, P)"
    and len: "int (net_ones P) < len"
    and c0: "parse_cidr (cidr_of (net_ip P) (nat len)) = Some (b, c0)"
    and loop: "allocate_loop st k parent name (nat len) blocklist c0 (prefixSliceToStringSlice cs) c0 s0 = Some (Inr p, s')"
    by (auto simp: AllocateWithBlocklist_def split: option.splits if_splits sum.splits prod.splits)
  note wf = parse_cidr_wf [OF P]
  have "net_ones P < nat len" using len by simp
  note first = first_candidate [OF wf this c0]
  from allocate_loop_result [OF loop refl P first(1,2)] obtain c s1 childs q where
    c: "candidate P (nat len) c" "p = Pfx name (ipnet_string c) (Some parent)"
      "CollideWith (ipnet_string c) blocklist = []"
    and last: "st_GetChilds st k parent s1 = (Inr childs, s')" "PrefixCollideWith p childs = [q]" "path q = path p"
    by blast
  have cc: "wf_net c" "norm_net c = c" using c(1) by (simp_all add: candidate_def)
  have "parse_cidr (pfx_cidr p) = Some (to16 (net_ip c), c)"
    using parse_cidr_ipnet_string [OF cc(1)] cc(2) c(2) by simp
  moreover have "sub_net c P"
    using candidate_sub_net [OF wf first(1) _ c(1)] len by simp
  moreover have "wild c < wild P" "int (net_ones c) = len" "path p = name # path parent" "plain (net_ip c)"
    using c(1,2) len cc(1) by (auto simp: candidate_def wild_def net_bits_def wf_net_def)
  moreover have "\<forall>x \<in> set blocklist. \<not> OverlappingPrefixes x (pfx_cidr p)"
    using c(2,3) by (simp add: CollideWith_filter filter_empty_conv)
  ultimately show ?thesis using P last first(1) by blast
qed

section \<open>Properties\<close>

text \<open>
  C2: whatever the store answers (other clients may change it between two calls), a
  prefix that \<open>AllocateWithBlocklist\<close> returns has the requested name, parent and length, every
  one of its addresses belongs to the parent, it shares no address with the block list, and in the
  last list of children the store returned it is the only prefix that collides with it.
\<close>

theorem allocate_safe:
  assumes "AllocateWithBlocklist st k parent name len blocklist s = Some (Inr p, s')"
  shows "\<exists>a P b n s1 childs q. parse_cidr (pfx_cidr parent) = Some (a, P) \<and>
    parse_cidr (pfx_cidr p) = Some (b, n) \<and> path p = name # path parent \<and>
    int (net_ones n) = len \<and> sub_net n P \<and> wild n < wild P \<and>
    (\<forall>c \<in> set blocklist. \<not> OverlappingPrefixes c (pfx_cidr p)) \<and>
    st_GetChilds st k parent s1 = (Inr childs, s') \<and> PrefixCollideWith p childs = [q] \<and> path q = path p"
  using allocate_result [OF assms] by blast

end
