(* ===== verification/IpamMemory.thy ===== *)
theory IpamMemory
  imports IpamAlloc
begin

text \<open>
  \<open>pkg/ipam/storage/memory/memory.go\<close>: the prefix store as a list. Each operation holds the
  mutex, so it is one atomic step on the list. The recursive \<open>delete\<close> gets fuel; the depth of the
  stored tree is enough (\<open>mem_delete_enough\<close>). The store meets the contract \<open>prefix_store\<close>.
\<close>

section \<open>Definitions\<close>

record MemoryIPAMStorage =
  prefixes :: "pfx list"

definition mem_New :: MemoryIPAMStorage where
  "mem_New = \<lparr>prefixes = []\<rparr>"

definition getIndex :: "pfx list \<Rightarrow> pfx \<Rightarrow> nat option" where
  "getIndex ps prefix = find_index (\<lambda>p. pfx_equals prefix (Some p)) ps"

definition mem_exists :: "pfx list \<Rightarrow> pfx \<Rightarrow> bool" where
  "mem_exists ps prefix \<longleftrightarrow> getIndex ps prefix \<noteq> None"

definition deleteIndex :: "pfx list \<Rightarrow> nat option \<Rightarrow> pfx list" where
  "deleteIndex ps index = (case index of None \<Rightarrow> ps | Some i \<Rightarrow> remove_index i ps)"

definition mem_getChilds :: "pfx list \<Rightarrow> pfx \<Rightarrow> pfx list" where
  "mem_getChilds ps prefix = filter (\<lambda>p. pfx_equals prefix (pfx_parent p)) ps"

fun mem_delete_loop :: "(pfx list \<Rightarrow> pfx \<Rightarrow> pfx list option) \<Rightarrow> pfx list \<Rightarrow> pfx list \<Rightarrow> pfx list option" where
  "mem_delete_loop del [] ps = Some ps"
| "mem_delete_loop del (p # r) ps =
     (case del ps p of None \<Rightarrow> None | Some ps \<Rightarrow> mem_delete_loop del r ps)"

text \<open>None is the recursion running out of fuel.\<close>

primrec mem_delete :: "nat \<Rightarrow> pfx list \<Rightarrow> pfx \<Rightarrow> pfx list option" where
  "mem_delete 0 ps prefix = None"
| "mem_delete (Suc fuel) ps prefix =
     (case mem_delete_loop (mem_delete fuel) (mem_getChilds ps prefix) ps of
        None \<Rightarrow> None
      | Some ps \<Rightarrow> Some (deleteIndex ps (getIndex ps prefix)))"

definition max_depth :: "pfx list \<Rightarrow> nat" where
  "max_depth ps = fold max (map (\<lambda>p. length (path p)) ps) 0"

definition mem_Add :: "ctx \<Rightarrow> pfx option \<Rightarrow> MemoryIPAMStorage \<Rightarrow> ipam_err option \<times> MemoryIPAMStorage" where
  "mem_Add c prefix mis =
     (case prefix of None \<Rightarrow> (None, mis)
      | Some p \<Rightarrow> if mem_exists (prefixes mis) p then (Some ErrPrefixExists, mis)
                  else (None, mis\<lparr>prefixes := prefixes mis @ [p]\<rparr>))"

definition mem_Update :: "ctx \<Rightarrow> pfx option \<Rightarrow> MemoryIPAMStorage \<Rightarrow> ipam_err option \<times> MemoryIPAMStorage" where
  "mem_Update c prefix mis = (None, mis)"

definition mem_Delete :: "ctx \<Rightarrow> pfx option \<Rightarrow> MemoryIPAMStorage \<Rightarrow> ipam_err option \<times> MemoryIPAMStorage" where
  "mem_Delete c prefix mis =
     (case prefix of None \<Rightarrow> (None, mis)
      | Some p \<Rightarrow>
          (None, mis\<lparr>prefixes := (case mem_delete (Suc (max_depth (prefixes mis))) (prefixes mis) p of
                                   None \<Rightarrow> prefixes mis | Some ps \<Rightarrow> ps)\<rparr>))"

definition mem_Get :: "ctx \<Rightarrow> string \<Rightarrow> pfx option \<Rightarrow> MemoryIPAMStorage \<Rightarrow> (ipam_err + pfx option) \<times> MemoryIPAMStorage" where
  "mem_Get c name parent mis =
     (Inr (find (\<lambda>p. pfx_equals (Pfx name [] parent) (Some p)) (prefixes mis)), mis)"

definition mem_GetChilds :: "ctx \<Rightarrow> pfx \<Rightarrow> MemoryIPAMStorage \<Rightarrow> (ipam_err + pfx list) \<times> MemoryIPAMStorage" where
  "mem_GetChilds c prefix mis = (Inr (mem_getChilds (prefixes mis) prefix), mis)"

definition mem_store :: "MemoryIPAMStorage Storage" where
  "mem_store = \<lparr>st_Add = mem_Add, st_Update = mem_Update, st_Delete = mem_Delete, st_Get = mem_Get,
                st_GetChilds = mem_GetChilds\<rparr>"

definition mem_stored :: "MemoryIPAMStorage \<Rightarrow> pfx set" where
  "mem_stored mis = set (prefixes mis)"

definition mem_inv :: "MemoryIPAMStorage \<Rightarrow> bool" where
  "mem_inv mis \<longleftrightarrow> distinct (map path (prefixes mis)) \<and> closed_tree (set (prefixes mis))"

section \<open>Lemmas: deletion\<close>

lemma getChilds_closed:
  assumes "closed_tree (set ps)" "p \<in> set ps"
  shows "mem_getChilds ps p = filter (\<lambda>q. pfx_parent q = Some p) ps"
proof -
  have "pfx_equals p (pfx_parent q) \<longleftrightarrow> pfx_parent q = Some p" if q: "q \<in> set ps" for q
  proof (cases "pfx_parent q")
    case (Some r)
    with assms q have "path p = path r \<longleftrightarrow> p = r" by (metis tree_parent tree_path_eq)
    with Some show ?thesis by (auto simp: pfx_equals_iff)
  qed simp
  then show ?thesis unfolding mem_getChilds_def by (rule filter_cong [OF refl])
qed

lemma closed_tree_without:
  assumes "closed_tree S"
  shows "closed_tree {q \<in> S. \<not> beneath p q}"
  unfolding closed_tree_def
proof (intro conjI ballI allI impI)
  show "inj_on path {q \<in> S. \<not> beneath p q}"
    using assms by (auto simp: closed_tree_def intro: inj_on_subset)
  fix q r assume "q \<in> {q \<in> S. \<not> beneath p q}" "pfx_parent q = Some r"
  with assms show "r \<in> {q \<in> S. \<not> beneath p q}"
    by (auto simp: closed_tree_def beneath_parent)
qed

lemma deleteIndex_filter:
  assumes "distinct (map path ps)"
  shows "deleteIndex ps (getIndex ps p) = filter (\<lambda>q. path q \<noteq> path p) ps"
  using assms
proof (induction ps)
  case (Cons q ps)
  show ?case
  proof (cases "path q = path p")
    case True
    with Cons.prems have "\<forall>x \<in> set ps. path x \<noteq> path p" by (metis distinct.simps(2) image_eqI list.set_map list.simps(9))
    then have "filter (\<lambda>q. path q \<noteq> path p) ps = ps" by simp
    with True show ?thesis by (simp add: deleteIndex_def getIndex_def pfx_equals_iff)
  next
    case False
    then have "deleteIndex (q # ps) (getIndex (q # ps) p) = q # deleteIndex ps (getIndex ps p)"
      by (cases "find_index (\<lambda>q. path p = path q) ps")
        (auto simp: deleteIndex_def getIndex_def pfx_equals_iff simp del: find_index_None)
    with False Cons show ?thesis by simp
  qed
qed (simp add: deleteIndex_def getIndex_def)

lemma max_depth_iff: "max_depth ps < d \<longleftrightarrow> 0 < d \<and> (\<forall>p \<in> set ps. length (path p) < d)"
proof -
  have "fold max xs m < d \<longleftrightarrow> m < d \<and> (\<forall>x \<in> set xs. x < d)" for xs and m :: nat
    by (induction xs arbitrary: m) auto
  then show ?thesis by (simp add: max_depth_def)
qed


lemma beneath_childs:
  assumes "closed_tree S" "p \<in> S"
  shows "q \<in> S \<Longrightarrow> beneath p q \<longleftrightarrow> path q = path p \<or> (\<exists>c \<in> S. pfx_parent c = Some p \<and> beneath c q)"
proof (induction q)
  case (Pfx n d par)
  let ?q = "Pfx n d par"
  show ?case
  proof (cases par)
    case None
    have "beneath p ?q \<longleftrightarrow> path ?q = path p"
      using None by (auto simp: beneath_def Cons_eq_append_conv)
    moreover have "path ?q = path p" if "pfx_parent c = Some p" "beneath c ?q" for c
    proof -
      from that(2) None obtain xs where "[n] = xs @ path c" by (auto simp: beneath_def)
      then have "[n] = xs @ pfx_name c # path p" using that(1) by (simp add: path_Pfx [of c])
      then show ?thesis by (cases xs) simp_all
    qed
    ultimately show ?thesis by blast
  next
    case (Some r)
    then have par: "pfx_parent ?q = Some r" by simp
    have r: "r \<in> S" using assms(1) Pfx.prems par by (rule tree_parent)
    note IH = Pfx.IH [of r, OF _ r]
    have "path r = path p \<longleftrightarrow> r = p" using assms r by (simp add: tree_path_eq)
    then have "beneath p ?q \<longleftrightarrow> path p = path ?q \<or> r = p \<or> (\<exists>c \<in> S. pfx_parent c = Some p \<and> beneath c r)"
      unfolding beneath_parent [OF par] using IH Some by simp
    moreover have "beneath c ?q \<longleftrightarrow> path c = path ?q \<or> beneath c r" for c
      by (rule beneath_parent [OF par])
    moreover have "r = p" if "path c = path ?q" "pfx_parent c = Some p" "c \<in> S" for c
      using that tree_path_eq [OF assms(1) that(3) Pfx.prems] par by simp
    ultimately show ?thesis using Pfx.prems par by (metis beneath_refl)
  qed
qed

lemma siblings_apart:
  assumes "closed_tree S" "c \<in> S" "d \<in> S" "pfx_parent c = Some p" "pfx_parent d = Some p" "c \<noteq> d"
  shows "\<not> beneath c d"
proof -
  have "path c = pfx_name c # path p" "path d = pfx_name d # path p"
    using assms(4,5) by (simp_all add: path_Pfx [of c] path_Pfx [of d])
  moreover have "path c \<noteq> path d" using assms by (simp add: tree_path_eq)
  ultimately show ?thesis by (auto simp: beneath_def Cons_eq_append_conv)
qed

lemma delete_loop_filter:
  assumes del: "\<And>ps c. closed_tree (set ps) \<Longrightarrow> distinct (map path ps) \<Longrightarrow> c \<in> set ps \<Longrightarrow> ok ps c \<Longrightarrow>
      del ps c = Some (filter (\<lambda>q. \<not> beneath c q) ps)"
    and ok: "\<And>ps qs c. ok ps c \<Longrightarrow> set qs \<subseteq> set ps \<Longrightarrow> ok qs c"
  shows "closed_tree (set ps) \<Longrightarrow> distinct (map path ps) \<Longrightarrow> set cs \<subseteq> set ps \<Longrightarrow> distinct cs \<Longrightarrow>
    \<forall>c \<in> set cs. pfx_parent c = Some p \<Longrightarrow> \<forall>c \<in> set cs. ok ps c \<Longrightarrow>
    mem_delete_loop del cs ps = Some (filter (\<lambda>q. \<forall>c \<in> set cs. \<not> beneath c q) ps)"
proof (induction cs arbitrary: ps)
  case (Cons c cs)
  let ?ps = "filter (\<lambda>q. \<not> beneath c q) ps"
  have "\<not> beneath c d" if "d \<in> set cs" for d
    using siblings_apart [OF Cons.prems(1), of c d p] Cons.prems(3-5) that by auto
  then have "set cs \<subseteq> set ?ps" using Cons.prems(3) by auto
  moreover have "closed_tree (set ?ps)" using closed_tree_without [OF Cons.prems(1)] by simp
  moreover have "distinct (map path ?ps)" using Cons.prems(2) by (rule distinct_map_filter)
  moreover have "\<forall>d \<in> set cs. ok ?ps d" using Cons.prems(6) ok [of ps _ ?ps] by auto
  ultimately have "mem_delete_loop del cs ?ps = Some (filter (\<lambda>q. \<forall>c \<in> set cs. \<not> beneath c q) ?ps)"
    using Cons.prems(4,5) by (intro Cons.IH) simp_all
  moreover have "del ps c = Some ?ps" using Cons.prems by (intro del) simp_all
  ultimately show ?case by (simp add: conj_commute)
qed simp

lemma mem_delete_enough:
  assumes "closed_tree (set ps)" "distinct (map path ps)" "p \<in> set ps"
    and "\<forall>q \<in> set ps. length (path q) < length (path p) + fuel"
  shows "mem_delete fuel ps p = Some (filter (\<lambda>q. \<not> beneath p q) ps)"
  using assms
proof (induction fuel arbitrary: ps p)
  case (Suc fuel)
  let ?cs = "mem_getChilds ps p"
  have cs: "set ?cs = {q \<in> set ps. pfx_parent q = Some p}" "distinct ?cs"
    using getChilds_closed [OF Suc.prems(1,3)] Suc.prems(2) by (simp_all add: distinct_map)
  have depth: "length (path c) = Suc (length (path p))" if "pfx_parent c = Some p" for c
    using that by (simp add: path_Pfx [of c])
  have "mem_delete_loop (mem_delete fuel) ?cs ps = Some (filter (\<lambda>q. \<forall>c \<in> set ?cs. \<not> beneath c q) ps)"
    by (rule delete_loop_filter [where ok = "\<lambda>ps c. \<forall>q \<in> set ps. length (path q) < length (path c) + fuel"])
      (use Suc cs depth in auto)
  moreover have "filter (\<lambda>q. path q \<noteq> path p) (filter (\<lambda>q. \<forall>c \<in> set ?cs. \<not> beneath c q) ps) =
      filter (\<lambda>q. \<not> beneath p q) ps"
    unfolding filter_filter cs(1)
    by (rule filter_cong [OF refl]) (use beneath_childs [OF Suc.prems(1,3)] in auto)
  ultimately show ?case
    using Suc.prems(2) by (simp add: deleteIndex_filter distinct_map_filter)
qed auto


section \<open>The store meets the contract\<close>

lemma mem_Delete_stored:
  assumes "mem_inv s" "p \<in> mem_stored s"
  shows "mem_Delete k (Some p) s = (None, s\<lparr>prefixes := filter (\<lambda>q. \<not> beneath p q) (prefixes s)\<rparr>)"
proof -
  have "\<forall>q \<in> set (prefixes s). length (path q) < length (path p) + Suc (max_depth (prefixes s))"
    using max_depth_iff [of "prefixes s" "Suc (max_depth (prefixes s))"] by fastforce
  with assms show ?thesis
    by (simp add: mem_Delete_def mem_inv_def mem_stored_def mem_delete_enough del: mem_delete.simps)
qed

lemma find_path:
  assumes "closed_tree (set ps)" "q \<in> set ps" "path r = path q"
  shows "find (\<lambda>p. pfx_equals r (Some p)) ps = Some q"
proof -
  have "inj_on path (set ps)" using assms(1) by (simp add: closed_tree_def)
  then have "find (\<lambda>p. path r = path p) ps = Some q"
    using assms(2,3) by (induction ps) (auto simp: inj_on_def)
  then show ?thesis by (simp add: pfx_equals_iff)
qed

interpretation mem: prefix_store mem_store mem_stored mem_inv "\<lambda>_. True"
proof
  fix s p k assume s: "mem_inv s"
  show "closed_tree (mem_stored s)" using s by (simp add: mem_inv_def mem_stored_def)
  show "\<exists>cs. st_GetChilds mem_store k p s = (Inr cs, s) \<and> distinct cs \<and>
      set cs = {q \<in> mem_stored s. pfx_parent q = Some p}" if "p \<in> mem_stored s"
    using s that
    by (simp add: mem_store_def mem_GetChilds_def mem_stored_def mem_inv_def getChilds_closed distinct_map)
  show "st_Get mem_store k (pfx_name q) (pfx_parent q) s = (Inr (Some q), s)" if "q \<in> mem_stored s" for q
    using s that find_path [of "prefixes s" q "Pfx (pfx_name q) [] (pfx_parent q)"]
    by (simp add: mem_store_def mem_Get_def mem_stored_def mem_inv_def)
  show "st_Get mem_store k name par s = (Inr None, s)"
    if "path (Pfx name [] par) \<notin> path ` mem_stored s" for name par
    using that by (auto simp: mem_store_def mem_Get_def mem_stored_def find_None_iff pfx_equals_iff)
  show "\<exists>s'. st_Add mem_store k (Some p) s = (None, s') \<and> mem_inv s' \<and> mem_stored s' = insert p (mem_stored s)"
    if "parent_in (mem_stored s) (pfx_parent p)" "path p \<notin> path ` mem_stored s"
  proof -
    have "\<not> mem_exists (prefixes s) p"
      using that(2) by (auto simp: mem_exists_def getIndex_def mem_stored_def pfx_equals_iff)
    moreover have "closed_tree (insert p (set (prefixes s)))"
      using s that by (auto simp: mem_inv_def mem_stored_def closed_tree_def parent_in_def)
    ultimately show ?thesis
      using s that(2) by (simp add: mem_store_def mem_Add_def mem_stored_def mem_inv_def)
  qed
  show "\<exists>s'. st_Update mem_store k (Some p) s = (None, s') \<and> mem_inv s' \<and> mem_stored s' = mem_stored s"
    using s by (simp add: mem_store_def mem_Update_def)
  show "\<exists>s'. st_Delete mem_store k (Some p) s = (None, s') \<and> mem_inv s' \<and>
      mem_stored s' = {q \<in> mem_stored s. \<not> beneath p q}" if "p \<in> mem_stored s"
    using mem_Delete_stored [OF s that] s closed_tree_without [of "set (prefixes s)" p]
    by (simp add: mem_store_def mem_inv_def mem_stored_def distinct_map_filter)
next
  show "st_Delete mem_store k None s = (None, s)" for k s
    by (simp add: mem_store_def mem_Delete_def)
qed

end
