(* ===== verification/IpamTree.thy ===== *)
theory IpamTree
  imports IpamMemory
begin

text \<open>
  \<open>pkg/ipam/{node,conduit,trench}\<close>, the conduit watcher, the logging store and the gRPC server
  \<open>pkg/ipam/server.go\<close>. A Node, Conduit or Trench object is its prefix (the Go structs embed
  it) with the store and the prefix lengths as arguments; nil lengths, which the constructors accept,
  are None and using them is the error \<open>Panic\<close>. The operations are proved once against
  the contract \<open>prefix_store\<close>; the properties are stated for the memory store.
\<close>

section \<open>Definitions\<close>

subsection \<open>Logging store\<close>

definition logger_Add :: "'s Storage \<Rightarrow> ctx \<Rightarrow> pfx option \<Rightarrow> 's \<Rightarrow> ipam_err option \<times> 's" where
  "logger_Add st c p s = (case st_Add st c p s of (Some err, s) \<Rightarrow> (Some err, s) | (None, s) \<Rightarrow> (None, s))"

definition logger_Update :: "'s Storage \<Rightarrow> ctx \<Rightarrow> pfx option \<Rightarrow> 's \<Rightarrow> ipam_err option \<times> 's" where
  "logger_Update st c p s = (case st_Update st c p s of (Some err, s) \<Rightarrow> (Some err, s) | (None, s) \<Rightarrow> (None, s))"

definition logger_Delete :: "'s Storage \<Rightarrow> ctx \<Rightarrow> pfx option \<Rightarrow> 's \<Rightarrow> ipam_err option \<times> 's" where
  "logger_Delete st c p s = (case st_Delete st c p s of (Some err, s) \<Rightarrow> (Some err, s) | (None, s) \<Rightarrow> (None, s))"

definition logger_store :: "'s Storage \<Rightarrow> 's Storage" where
  "logger_store st = \<lparr>st_Add = logger_Add st, st_Update = logger_Update st, st_Delete = logger_Delete st,
                      st_Get = st_Get st, st_GetChilds = st_GetChilds st\<rparr>"

subsection \<open>Node\<close>

definition getBlocklist :: "PrefixLengths option \<Rightarrow> pfx \<Rightarrow> ipam_err + string list" where
  "getBlocklist pl n =
     (case parse_cidr (pfx_cidr n) of
        None \<Rightarrow> Inl ErrParseCIDR
      | Some (_, ipNet) \<Rightarrow>
          (case pl of
             None \<Rightarrow> Inl Panic
           | Some pl \<Rightarrow>
               (let first = ip_string (net_ip ipNet) @ ''/'' @ itoa (ChildLength pl);
                    lst = ip_string (LastIP ipNet) @ ''/'' @ itoa (ChildLength pl)
                in Inr [first, lst])))"

definition node_Allocate ::
  "'s Storage \<Rightarrow> PrefixLengths option \<Rightarrow> pfx \<Rightarrow> ctx \<Rightarrow> string \<Rightarrow> 's \<Rightarrow> ((ipam_err + pfx) \<times> 's) option" where
  "node_Allocate st pl n c name s =
     (case st_Get st c name (Some n) s of
        (Inl err, s) \<Rightarrow> Some (Inl err, s)
      | (Inr None, s) \<Rightarrow>
          (case getBlocklist pl n of
             Inl err \<Rightarrow> Some (Inl err, s)
           | Inr blocklist \<Rightarrow> AllocateWithBlocklist st c n name (ChildLength (the pl)) blocklist s)
      | (Inr (Some p), s) \<Rightarrow>
          (case st_Update st c (Some p) s of
             (Some err, s) \<Rightarrow> Some (Inl err, s)
           | (None, s) \<Rightarrow> Some (Inr p, s)))"

text \<open>\<open>Release\<close>, \<open>RemoveNode\<close> and \<open>RemoveConduit\<close> look the child up and delete what they find.\<close>

definition node_Release :: "'s Storage \<Rightarrow> pfx \<Rightarrow> ctx \<Rightarrow> string \<Rightarrow> 's \<Rightarrow> ipam_err option \<times> 's" where
  "node_Release st n c name s =
     (case st_Get st c name (Some n) s of
        (Inl err, s) \<Rightarrow> (Some err, s)
      | (Inr prefix, s) \<Rightarrow>
          (case st_Delete st c prefix s of (Some err, s) \<Rightarrow> (Some err, s) | (None, s) \<Rightarrow> (None, s)))"

subsection \<open>Conduit\<close>

definition addNode ::
  "'s Storage \<Rightarrow> PrefixLengths option \<Rightarrow> pfx \<Rightarrow> ctx \<Rightarrow> string \<Rightarrow> 's \<Rightarrow> ((ipam_err + pfx) \<times> 's) option" where
  "addNode st pl cd c name s =
     (case pl of None \<Rightarrow> Some (Inl Panic, s) | Some pl \<Rightarrow> Allocate st c cd name (NodeLength pl) s)"

definition GetNode ::
  "'s Storage \<Rightarrow> PrefixLengths option \<Rightarrow> pfx \<Rightarrow> ctx \<Rightarrow> string \<Rightarrow> 's \<Rightarrow> ((ipam_err + pfx) \<times> 's) option" where
  "GetNode st pl cd c name s =
     (case st_Get st c name (Some cd) s of
        (Inl err, s) \<Rightarrow> Some (Inl err, s)
      | (Inr None, s) \<Rightarrow> addNode st pl cd c name s
      | (Inr (Some p), s) \<Rightarrow>
          (case st_Update st c (Some p) s of
             (Some err, s) \<Rightarrow> Some (Inl err, s)
           | (None, s) \<Rightarrow> Some (Inr p, s)))"

definition RemoveNode :: "'s Storage \<Rightarrow> pfx \<Rightarrow> ctx \<Rightarrow> string \<Rightarrow> 's \<Rightarrow> ipam_err option \<times> 's" where
  "RemoveNode st cd c name s =
     (case st_Get st c name (Some cd) s of
        (Inl err, s) \<Rightarrow> (Some err, s)
      | (Inr prefix, s) \<Rightarrow>
          (case st_Delete st c prefix s of (Some err, s) \<Rightarrow> (Some err, s) | (None, s) \<Rightarrow> (None, s)))"

subsection \<open>Trench\<close>

definition trench_New :: "'s Storage \<Rightarrow> ctx \<Rightarrow> pfx \<Rightarrow> 's \<Rightarrow> (ipam_err + pfx) \<times> 's" where
  "trench_New st c prefix s =
     (case st_Get st c (pfx_name prefix) None s of
        (Inl err, s) \<Rightarrow> (Inl err, s)
      | (Inr (Some p), s) \<Rightarrow> (Inr p, s)
      | (Inr None, s) \<Rightarrow>
          (case st_Add st c (Some prefix) s of (Some err, s) \<Rightarrow> (Inl err, s) | (None, s) \<Rightarrow> (Inr prefix, s)))"

definition GetConduit :: "'s Storage \<Rightarrow> pfx \<Rightarrow> ctx \<Rightarrow> string \<Rightarrow> 's \<Rightarrow> (ipam_err + pfx option) \<times> 's" where
  "GetConduit st t c name s =
     (case st_Get st c name (Some t) s of
        (Inl err, s) \<Rightarrow> (Inl err, s)
      | (Inr None, s) \<Rightarrow> (Inr None, s)
      | (Inr (Some prefix), s) \<Rightarrow> (Inr (Some prefix), s))"

definition AddConduit ::
  "'s Storage \<Rightarrow> PrefixLengths option \<Rightarrow> pfx \<Rightarrow> ctx \<Rightarrow> string \<Rightarrow> 's \<Rightarrow> ((ipam_err + pfx) \<times> 's) option" where
  "AddConduit st pl t c name s =
     (case GetConduit st t c name s of
        (Inl err, s) \<Rightarrow> Some (Inl err, s)
      | (Inr (Some cd), s) \<Rightarrow> Some (Inr cd, s)
      | (Inr None, s) \<Rightarrow>
          (case pl of None \<Rightarrow> Some (Inl Panic, s) | Some pl \<Rightarrow> Allocate st c t name (ConduitLength pl) s))"

definition RemoveConduit :: "'s Storage \<Rightarrow> pfx \<Rightarrow> ctx \<Rightarrow> string \<Rightarrow> 's \<Rightarrow> ipam_err option \<times> 's" where
  "RemoveConduit st t c name s =
     (case st_Get st c name (Some t) s of
        (Inl err, s) \<Rightarrow> (Some err, s)
      | (Inr prefix, s) \<Rightarrow>
          (case st_Delete st c prefix s of (Some err, s) \<Rightarrow> (Some err, s) | (None, s) \<Rightarrow> (None, s)))"

text \<open>\<open>SetConduits\<close>: the map of current conduits is a list of its keys, in the order the range
  statement visits them.\<close>

fun add_conduits :: "'s Storage \<Rightarrow> PrefixLengths option \<Rightarrow> pfx \<Rightarrow> ctx \<Rightarrow> string list \<Rightarrow> string list \<Rightarrow> 's \<Rightarrow>
    (string list \<times> 's) option" where
  "add_conduits st pl t c cc [] s = Some (cc, s)"
| "add_conduits st pl t c cc (name # newConduits) s =
     (case AddConduit st pl t c name s of
        None \<Rightarrow> None
      | Some (_, s) \<Rightarrow> add_conduits st pl t c (filter (\<lambda>n. n \<noteq> name) cc) newConduits s)"

fun remove_conduits :: "'s Storage \<Rightarrow> pfx \<Rightarrow> ctx \<Rightarrow> string list \<Rightarrow> 's \<Rightarrow> 's" where
  "remove_conduits st t c [] s = s"
| "remove_conduits st t c (conduitName # cc) s =
     remove_conduits st t c cc (snd (RemoveConduit st t c conduitName s))"

definition SetConduits ::
  "'s Storage \<Rightarrow> PrefixLengths option \<Rightarrow> pfx \<Rightarrow> ctx \<Rightarrow> string list \<Rightarrow> string list \<Rightarrow> 's \<Rightarrow> 's option" where
  "SetConduits st pl t c currentConduits newConduits s =
     (case add_conduits st pl t c currentConduits newConduits s of
        None \<Rightarrow> None
      | Some (cc, s) \<Rightarrow> Some (remove_conduits st t c cc s))"

record IpamTrench =
  tr_prefix :: pfx
  tr_lengths :: "PrefixLengths option"

fun set_all_conduits ::
  "'s Storage \<Rightarrow> ctx \<Rightarrow> IpamTrench list \<Rightarrow> string list \<Rightarrow> string list \<Rightarrow> 's \<Rightarrow> 's option" where
  "set_all_conduits st c [] currentConduits newConduits s = Some s"
| "set_all_conduits st c (w # trenchWatchers) currentConduits newConduits s =
     Option.bind (SetConduits st (tr_lengths w) (tr_prefix w) c currentConduits newConduits s)
       (set_all_conduits st c trenchWatchers currentConduits newConduits)"

text \<open>The receive loop of \<open>NewConduitWatcher\<close> on the responses that arrive; the set of current
  conduits survives a broken stream, which only makes the loop receive again.\<close>

fun NewConduitWatcher ::
  "'s Storage \<Rightarrow> ctx \<Rightarrow> IpamTrench list \<Rightarrow> string list \<Rightarrow> string list list \<Rightarrow> 's \<Rightarrow> 's option" where
  "NewConduitWatcher st c trenchWatchers currentConduits [] s = Some s"
| "NewConduitWatcher st c trenchWatchers currentConduits (conduits # responses) s =
     Option.bind (set_all_conduits st c trenchWatchers currentConduits conduits s)
       (NewConduitWatcher st c trenchWatchers (remdups conduits) responses)"

subsection \<open>Server\<close>

record SubnetConduit =
  sc_name :: string
  sc_trench :: "string option"

record Child =
  ch_name :: string
  ch_family :: int
  ch_conduit :: "SubnetConduit option"
  ch_node :: string

record IpamServer =
  Trenches :: "int \<rightharpoonup> IpamTrench"
  srv_lengths :: "int \<rightharpoonup> PrefixLengths"

record PrefixReply =
  Address :: string
  PrefixLength :: int

definition getTrenchName :: "string \<Rightarrow> int \<Rightarrow> string" where
  "getTrenchName trenchName ipFamily = trenchName @ ''-'' @ itoa ipFamily"

definition to_int32 :: "int \<Rightarrow> int" where
  "to_int32 i = (i + 2 ^ 31) mod 2 ^ 32 - 2 ^ 31"

definition nodeUpdateDampingThreshold :: nat where
  "nodeUpdateDampingThreshold = 60 * 1000000000"

definition WithExpirable :: "ctx \<Rightarrow> ctx" where
  "WithExpirable c = c\<lparr>lifetimeKey := True\<rparr>"

definition WithUpdateDamping :: "ctx \<Rightarrow> nat \<Rightarrow> ctx" where
  "WithUpdateDamping c threshold = c\<lparr>updateDampingKey := Some threshold\<rparr>"

text \<open>The checks on the subnet; \<open>Allocate\<close> reports them, \<open>Release\<close> ignores the request.\<close>

definition find_trench :: "IpamServer \<Rightarrow> Child \<Rightarrow> ipam_err + IpamTrench \<times> string" where
  "find_trench is child =
     (case Trenches is (ch_family child) of
        None \<Rightarrow> Inl ErrIPFamily
      | Some t \<Rightarrow>
          (case ch_conduit child of
             None \<Rightarrow> Inl ErrConduitNil
           | Some cd \<Rightarrow>
               (case sc_trench cd of
                  None \<Rightarrow> Inl ErrTrenchNil
                | Some tn \<Rightarrow>
                    if pfx_name (tr_prefix t) \<noteq> getTrenchName tn (ch_family child) then Inl ErrNoTrench
                    else Inr (t, sc_name cd))))"

text \<open>The polling loop: the context is still alive for \<open>polls\<close> more checks, and \<open>env i\<close> is what
  other goroutines did to the store before the check with \<open>i\<close> checks left.\<close>

primrec wait_conduit ::
  "'s Storage \<Rightarrow> (nat \<Rightarrow> 's \<Rightarrow> 's) \<Rightarrow> pfx \<Rightarrow> ctx \<Rightarrow> string \<Rightarrow> nat \<Rightarrow> 's \<Rightarrow> (ipam_err + pfx) \<times> 's" where
  "wait_conduit st env t c name 0 s = (Inl ErrContext, s)"
| "wait_conduit st env t c name (Suc polls) s =
     (case GetConduit st t c name (env polls s) of
        (Inl err, s) \<Rightarrow> (Inl err, s)
      | (Inr (Some cd), s) \<Rightarrow> (Inr cd, s)
      | (Inr None, s) \<Rightarrow> wait_conduit st env t c name polls s)"

definition ipam_Allocate ::
  "'s Storage \<Rightarrow> (nat \<Rightarrow> 's \<Rightarrow> 's) \<Rightarrow> nat \<Rightarrow> IpamServer \<Rightarrow> ctx \<Rightarrow> Child \<Rightarrow> 's \<Rightarrow>
     ((ipam_err + PrefixReply) \<times> 's) option" where
  "ipam_Allocate st env polls is c child s =
     (case find_trench is child of
        Inl err \<Rightarrow> Some (Inl err, s)
      | Inr (t, conduitName) \<Rightarrow>
          (case wait_conduit st env (tr_prefix t) c conduitName polls s of
             (Inl err, s) \<Rightarrow> Some (Inl err, s)
           | (Inr conduit, s) \<Rightarrow>
               Option.bind
                 (GetNode st (tr_lengths t) conduit
                   (WithUpdateDamping (WithExpirable c) nodeUpdateDampingThreshold) (ch_node child) s)
                 (\<lambda>(r, s). case r of
                    Inl err \<Rightarrow> Some (Inl err, s)
                  | Inr node \<Rightarrow>
                      Option.bind (node_Allocate st (tr_lengths t) node (WithExpirable c) (ch_name child) s)
                        (\<lambda>(r, s). case r of
                           Inl err \<Rightarrow> Some (Inl err, s)
                         | Inr p \<Rightarrow>
                             (case parse_cidr (pfx_cidr p) of
                                None \<Rightarrow> Some (Inl ErrParseCIDR, s)
                              | Some (ip, _) \<Rightarrow>
                                  (case srv_lengths is (ch_family child) of
                                     None \<Rightarrow> Some (Inl Panic, s)
                                   | Some pl \<Rightarrow>
                                       Some (Inr \<lparr>Address = ip_string ip,
                                                  PrefixLength = to_int32 (NodeLength pl)\<rparr>, s)))))))"

definition ipam_Release ::
  "'s Storage \<Rightarrow> IpamServer \<Rightarrow> ctx \<Rightarrow> Child \<Rightarrow> 's \<Rightarrow> (ipam_err option \<times> 's) option" where
  "ipam_Release st is c child s =
     (case find_trench is child of
        Inl _ \<Rightarrow> Some (None, s)
      | Inr (t, conduitName) \<Rightarrow>
          (case GetConduit st (tr_prefix t) c conduitName s of
             (Inl err, s) \<Rightarrow> Some (Some err, s)
           | (Inr None, s) \<Rightarrow> Some (None, s)
           | (Inr (Some conduit), s) \<Rightarrow>
               Option.bind
                 (GetNode st (tr_lengths t) conduit
                   (WithUpdateDamping (WithExpirable c) nodeUpdateDampingThreshold) (ch_node child) s)
                 (\<lambda>(r, s). case r of
                    Inl err \<Rightarrow> Some (Some err, s)
                  | Inr node \<Rightarrow> Some (node_Release st node c (ch_name child) s))))"

text \<open>\<open>NewServer\<close>: one trench per family, over the map of CIDRs in the order it is visited.\<close>

fun add_trenches ::
  "'s Storage \<Rightarrow> ctx \<Rightarrow> string \<Rightarrow> (int \<rightharpoonup> PrefixLengths) \<Rightarrow> (int \<times> string) list \<Rightarrow> IpamServer \<Rightarrow> 's \<Rightarrow>
     (ipam_err + IpamServer) \<times> 's" where
  "add_trenches st c trenchName lengths [] is s = (Inr is, s)"
| "add_trenches st c trenchName lengths ((ipFamily, cidr) # cidrs) is s =
     (case trench_New st c (Pfx (getTrenchName trenchName ipFamily) cidr None) s of
        (Inl err, s) \<Rightarrow> (Inl err, s)
      | (Inr p, s) \<Rightarrow>
          add_trenches st c trenchName lengths cidrs
            (is\<lparr>Trenches := (Trenches is)(ipFamily \<mapsto> \<lparr>tr_prefix = p, tr_lengths = lengths ipFamily\<rparr>)\<rparr>) s)"

definition NewServer ::
  "'s Storage \<Rightarrow> ctx \<Rightarrow> string \<Rightarrow> (int \<times> string) list \<Rightarrow> (int \<rightharpoonup> PrefixLengths) \<Rightarrow> 's \<Rightarrow>
     (ipam_err + IpamServer) \<times> 's" where
  "NewServer st c trenchName cidrs prefixLengths s =
     add_trenches (logger_store st) c trenchName prefixLengths cidrs
       \<lparr>Trenches = Map.empty, srv_lengths = prefixLengths\<rparr> s"


subsection \<open>Vocabulary of the specification\<close>

text \<open>The states the operations keep: the store's invariant, a tree without overlap, and trenches
  (the roots) that are networks smaller than the whole address space.\<close>

definition roots_ok :: "pfx set \<Rightarrow> bool" where
  "roots_ok S \<longleftrightarrow> (\<forall>p \<in> S. pfx_parent p = None \<longrightarrow>
     (\<exists>a n. parse_cidr (pfx_cidr p) = Some (a, n) \<and> 0 < net_ones n))"

definition tree_state :: "('s \<Rightarrow> bool) \<Rightarrow> ('s \<Rightarrow> pfx set) \<Rightarrow> 's \<Rightarrow> bool" where
  "tree_state ok stored s \<longleftrightarrow> ok s \<and> disjoint_tree (stored s) \<and> roots_ok (stored s)"

text \<open>An operation that returns a child named \<open>name\<close> of \<open>p\<close>, adding it when it is missing.\<close>

definition grows ::
  "('s \<Rightarrow> bool) \<Rightarrow> ('s \<Rightarrow> pfx set) \<Rightarrow> 's \<Rightarrow> pfx \<Rightarrow> string \<Rightarrow> ((ipam_err + pfx) \<times> 's) option \<Rightarrow> bool" where
  "grows ok stored s p name out \<longleftrightarrow> (\<exists>r s'. out = Some (r, s') \<and> tree_state ok stored s' \<and>
     (case r of
        Inl e \<Rightarrow> stored s' = stored s
      | Inr q \<Rightarrow> stored s' = insert q (stored s) \<and> pfx_parent q = Some p \<and> pfx_name q = name))"

definition server_state ::
  "('s \<Rightarrow> bool) \<Rightarrow> ('s \<Rightarrow> pfx set) \<Rightarrow> IpamServer \<Rightarrow> 's \<Rightarrow> bool" where
  "server_state ok stored is s \<longleftrightarrow> tree_state ok stored s \<and>
     (\<forall>f t. Trenches is f = Some t \<longrightarrow> tr_prefix t \<in> stored s \<and> pfx_parent (tr_prefix t) = None)"

text \<open>The requests a server handles one after the other, over the memory store.\<close>

inductive ipam_reach :: "IpamServer \<Rightarrow> MemoryIPAMStorage \<Rightarrow> bool" for "is" where
  start: "NewServer mem_store c trenchName cidrs prefixLengths mem_New = (Inr is, s) \<Longrightarrow>
    distinct (map fst cidrs) \<Longrightarrow> distinct (map snd cidrs) \<Longrightarrow>
    \<forall>cidr \<in> set (map snd cidrs). \<exists>a n. parse_cidr cidr = Some (a, n) \<and> 0 < net_ones n \<Longrightarrow> ipam_reach is s"
| allocate: "ipam_reach is s \<Longrightarrow>
    ipam_Allocate mem_store (\<lambda>_ s. s) polls is c child s = Some (r, s') \<Longrightarrow> ipam_reach is s'"
| release: "ipam_reach is s \<Longrightarrow> ipam_Release mem_store is c child s = Some (r, s') \<Longrightarrow> ipam_reach is s'"
| conduits: "ipam_reach is s \<Longrightarrow> Trenches is f = Some t \<Longrightarrow>
    SetConduits mem_store (tr_lengths t) (tr_prefix t) c currentConduits newConduits s = Some s' \<Longrightarrow>
    ipam_reach is s'"

section \<open>Lemmas\<close>

lemma logger_store [simp]: "logger_store st = st"
proof -
  have "logger_Add st = st_Add st" "logger_Update st = st_Update st" "logger_Delete st = st_Delete st"
    by (auto simp: fun_eq_iff logger_Add_def logger_Update_def logger_Delete_def split: prod.splits option.splits)
  then show ?thesis by (simp add: logger_store_def)
qed

lemma disjoint_tree_root: "disjoint_tree S \<Longrightarrow> pfx_parent p = None \<Longrightarrow> disjoint_tree (insert p S)"
  unfolding disjoint_tree_def by (metis insert_iff option.distinct(1))

lemma wf_net_bits: "wf_net n \<Longrightarrow> net_ones n + wild n = net_bits n"
  by (simp add: wf_net_def wild_def)

text \<open>Every prefix of the tree is a network other than the whole address space.\<close>

lemma tree_cidr:
  assumes "closed_tree S" "disjoint_tree S" "roots_ok S" "p \<in> S"
  obtains a n where "parse_cidr (pfx_cidr p) = Some (a, n)" "0 < net_ones n"
proof (cases "pfx_parent p")
  case None
  with assms that show ?thesis by (auto simp: roots_ok_def)
next
  case (Some r)
  with assms have "inside p r" by (simp add: disjoint_tree_def)
  then obtain a n b m where p: "parse_cidr (pfx_cidr p) = Some (a, n)" "parse_cidr (pfx_cidr r) = Some (b, m)"
      "sub_net n m" "wild n < wild m" by (auto simp: inside_def)
  have wf: "wf_net n" "wf_net m" using p(1,2) parse_cidr_wf by blast+
  have "0 < net_ones n"
  proof (cases "v4mapped (net_ip n)")
    case True
    then show ?thesis using v4mapped_ones [OF wf(1)] by simp
  next
    case False
    from p(3) wf have "contains m (net_ip n)" by (simp add: sub_net_def)
    then have "length (norm_ip (net_ip n)) = length (norm_ip (net_ip m))" using wf by (simp add: contains_iff)
    moreover have "norm_ip (net_ip n) = net_ip n" using False wf(1) not_v4mapped_plain [of "net_ip n"] by (simp add: wf_net_def)
    moreover have "length (net_ip (norm_net m)) = length (norm_ip (net_ip m))" using wf by (simp add: net_ip_norm_net)
    moreover have "wild m \<le> net_bits (norm_net m)" using wild_norm_net [OF wf(2)] by (simp add: wild_def)
    ultimately show ?thesis using p(4) wf_net_bits [OF wf(1)] by (simp add: net_bits_def)
  qed
  with p(1) that show ?thesis by blast
qed

lemma mapped_mask:
  assumes "length a = 16" "96 \<le> k" "v4mapped (ip_mask a (cidr_mask k 16))"
  shows "v4mapped a"
proof -
  have "take 12 (ip_mask a (cidr_mask k 16)) = take 12 a"
    using assms(1,2)
    by (intro nth_equalityI) (simp_all add: ip_mask_def cidr_mask_def mask_byte_full)
  with assms(1,3) show ?thesis by (simp add: v4mapped_def)
qed

lemma proper_text:
  assumes "length a \<in> {4, 16}" "0 < k" "parse_cidr (cidr_of a k) = Some (b, n)"
  shows "0 < net_ones (norm_net n)"
proof -
  let ?a = "norm_ip a"
  have n: "n = \<lparr>net_ip = ip_mask ?a (cidr_mask k (length ?a)), net_ones = k\<rparr>"
    using assms(3) unfolding parse_cidr_text [OF assms(1)] by (auto split: if_splits)
  have "\<not> v4mapped (net_ip n)"
  proof
    assume m: "v4mapped (net_ip n)"
    then have l: "length ?a = 16" using n by (simp add: v4mapped_def)
    from v4mapped_ones [OF parse_cidr_wf [OF assms(3)] m] have "96 \<le> k" using n by simp
    from mapped_mask [OF l this] m l n have "v4mapped ?a" by simp
    with plain_norm_ip [OF assms(1)] l show False by (simp add: plain_def)
  qed
  then show ?thesis using n assms(2) by (simp add: norm_net_def)
qed

lemma proper_blocklist:
  assumes "getBlocklist (Some pl) p = Inr bl" "0 < ChildLength pl"
  shows "proper_cidrs bl"
proof -
  obtain a n where n: "parse_cidr (pfx_cidr p) = Some (a, n)"
    using assms(1) by (auto simp: getBlocklist_def split: option.splits)
  have l: "length (net_ip n) \<in> {4, 16}" "length (LastIP n) \<in> {4, 16}"
    using parse_cidr_wf [OF n] by (simp_all add: wf_net_def)
  have "bl = [cidr_of (net_ip n) (nat (ChildLength pl)), cidr_of (LastIP n) (nat (ChildLength pl))]"
    using assms n by (auto simp: getBlocklist_def cidr_of_def itoa_def)
  moreover have "0 < nat (ChildLength pl)" using assms(2) by simp
  note proper_text [OF l(1) this] proper_text [OF l(2) this]
  ultimately show ?thesis by (auto simp: proper_cidrs_def)
qed


context prefix_store
begin

lemma tree_stateD:
  assumes "tree_state inv stored s"
  shows "inv s" "disjoint_tree (stored s)" "roots_ok (stored s)" "closed_tree (stored s)"
  using assms inv_tree by (auto simp: tree_state_def)

text \<open>Looking a child up finds it, or its path is free.\<close>

lemma get_child:
  assumes "tree_state inv stored s" "p \<in> stored s" "legal (name # path p)"
  obtains (found) q where "q \<in> stored s" "pfx_parent q = Some p" "pfx_name q = name"
      "st_Get st k name (Some p) s = (Inr (Some q), s)"
  | (free) "name # path p \<notin> path ` stored s" "st_Get st k name (Some p) s = (Inr None, s)"
proof (cases "\<exists>q \<in> stored s. path q = name # path p")
  case True
  then obtain q where q: "q \<in> stored s" "path q = name # path p" by blast
  then obtain r where r: "pfx_parent q = Some r" "pfx_name q = name" "path r = path p"
    by (cases q rule: path.cases) auto
  note tree = tree_stateD [OF assms(1)]
  have "r = p"
    using tree_path_eq [OF tree(4) tree_parent [OF tree(4) q(1) r(1)] assms(2)] r(3) by simp
  with q r show ?thesis using get_stored [OF tree(1) q(1), of k] by (intro found [of q]) simp_all
next
  case False
  then have "name # path p \<notin> path ` stored s" by (auto simp: eq_commute)
  then show ?thesis
    using get_absent [of s "Some p" name k] tree_stateD(1) [OF assms(1)] assms(2,3)
    by (intro free) (auto simp: parent_in_def)
qed

lemma allocate_grows:
  assumes "tree_state inv stored s" "p \<in> stored s" "legal (name # path p)" "name # path p \<notin> path ` stored s"
    and "0 < len \<Longrightarrow> proper_cidrs bl"
  shows "grows inv stored s p name (AllocateWithBlocklist st k p name len bl s)"
proof -
  note tree = tree_stateD [OF assms(1)]
  obtain a P where P: "parse_cidr (pfx_cidr p) = Some (a, P)" "0 < net_ones P"
    using tree_cidr [OF tree(4,2,3) assms(2)] .
  show ?thesis
  proof (cases "0 < len")
    case False
    with P assms(1) show ?thesis by (simp add: AllocateWithBlocklist_def grows_def)
  next
    case True
    from allocate_cases [OF tree(1,2) assms(2-4) P assms(5) [OF True], of k len] show ?thesis
    proof (elim disjE exE)
      fix e assume "AllocateWithBlocklist st k p name len bl s = Some (Inl e, s)"
      with assms(1) show ?thesis by (simp add: grows_def)
    next
      fix c s' assume "let q = Pfx name (ipnet_string c) (Some p) in
         AllocateWithBlocklist st k p name len bl s = Some (Inr q, s') \<and> inv s' \<and>
         stored s' = insert q (stored s) \<and> disjoint_tree (stored s') \<and>
         candidate P (nat len) c \<and> int (net_ones P) < len \<and> CollideWith (ipnet_string c) bl = []"
      with tree(3) show ?thesis
        by (auto simp: Let_def grows_def tree_state_def roots_ok_def)
    qed
  qed
qed

lemma grows_found:
  assumes "tree_state inv stored s" "q \<in> stored s" "pfx_parent q = Some p" "pfx_name q = name"
  shows "grows inv stored s p name (Some (Inr q, s))"
    and "grows inv stored s p name
      (case st_Update st k (Some q) s of (Some err, s) \<Rightarrow> Some (Inl err, s) | (None, s) \<Rightarrow> Some (Inr q, s))"
proof -
  show "grows inv stored s p name (Some (Inr q, s))"
    using assms by (auto simp: grows_def insert_absorb)
  from update_law [of s q k] assms tree_stateD(1) [OF assms(1)] obtain s' where
    "st_Update st k (Some q) s = (None, s')" "inv s'" "stored s' = stored s" by blast
  with assms show "grows inv stored s p name
      (case st_Update st k (Some q) s of (Some err, s) \<Rightarrow> Some (Inl err, s) | (None, s) \<Rightarrow> Some (Inr q, s))"
    by (auto simp: grows_def insert_absorb tree_state_def)
qed

lemma node_Allocate_grows:
  assumes "tree_state inv stored s" "n \<in> stored s" "legal (name # path n)"
  shows "grows inv stored s n name (node_Allocate st pl n k name s)"
  using assms
proof (cases rule: get_child [where k = k, consumes 3])
  case (found q)
  with grows_found(2) [OF assms(1), of q n name k] show ?thesis by (simp add: node_Allocate_def)
next
  case free
  show ?thesis
  proof (cases "getBlocklist pl n")
    case (Inl e)
    with free assms(1) show ?thesis by (simp add: node_Allocate_def grows_def)
  next
    case (Inr bl)
    then obtain l where l: "pl = Some l" by (cases pl) (auto simp: getBlocklist_def split: option.splits)
    from Inr l have "0 < ChildLength l \<Longrightarrow> proper_cidrs bl" using proper_blocklist by blast
    with allocate_grows [OF assms free(1), of "ChildLength l" bl k] Inr l free(2) show ?thesis
      by (simp add: node_Allocate_def)
  qed
qed

lemma Allocate_grows:
  assumes "tree_state inv stored s" "p \<in> stored s" "legal (name # path p)" "name # path p \<notin> path ` stored s"
  shows "grows inv stored s p name (Allocate st k p name len s)"
  using allocate_grows [OF assms, of len "[]" k] by (simp add: Allocate_def proper_cidrs_def)

lemma GetNode_grows:
  assumes "tree_state inv stored s" "c \<in> stored s" "legal (name # path c)"
  shows "grows inv stored s c name (GetNode st pl c k name s)"
  using assms
proof (cases rule: get_child [where k = k, consumes 3])
  case (found q)
  with grows_found(2) [OF assms(1), of q c name k] show ?thesis by (simp add: GetNode_def)
next
  case free
  with Allocate_grows [OF assms free(1)] assms(1) show ?thesis
    by (cases pl) (simp_all add: GetNode_def addNode_def, simp add: grows_def)
qed

lemma AddConduit_grows:
  assumes "tree_state inv stored s" "t \<in> stored s" "legal (name # path t)"
  shows "grows inv stored s t name (AddConduit st pl t k name s)"
  using assms
proof (cases rule: get_child [where k = k, consumes 3])
  case (found q)
  with grows_found(1) [OF assms(1), of q t name] show ?thesis by (simp add: AddConduit_def GetConduit_def)
next
  case free
  with Allocate_grows [OF assms free(1)] assms(1) show ?thesis
    by (cases pl) (simp_all add: AddConduit_def GetConduit_def, simp add: grows_def)
qed

text \<open>Deleting a child removes exactly what is beneath it.\<close>

lemma delete_child:
  assumes "tree_state inv stored s" "p \<in> stored s" "legal (name # path p)"
  shows "\<exists>s'. node_Release st p k name s = (None, s') \<and> RemoveNode st p k name s = (None, s') \<and>
    RemoveConduit st p k name s = (None, s') \<and> tree_state inv stored s' \<and>
    stored s' = {q \<in> stored s. \<not> (\<exists>xs. path q = xs @ name # path p)}"
  using assms
proof (cases rule: get_child [where k = k, consumes 3])
  case (found q)
  then have q: "path q = name # path p" by (simp add: path_Pfx [of q])
  obtain s' where s': "st_Delete st k (Some q) s = (None, s')" "inv s'" "stored s' = {r \<in> stored s. \<not> beneath q r}"
    using delete_law [of s q k] tree_stateD(1) [OF assms(1)] found(1) by blast
  have "tree_state inv stored s'"
    using s' tree_stateD [OF assms(1)] disjoint_tree_subset [of "stored s" "stored s'"]
    by (auto simp: tree_state_def roots_ok_def)
  with s' found q show ?thesis
    by (simp add: node_Release_def RemoveNode_def RemoveConduit_def beneath_def)
next
  case free
  have "\<not> (\<exists>xs. path q = xs @ name # path p)" if "q \<in> stored s" for q
  proof
    assume "\<exists>xs. path q = xs @ name # path p"
    then obtain xs where "path q = xs @ name # path p" by blast
    with that show False
    proof (induction xs arbitrary: q)
      case Nil
      with free(1) show ?case by (metis append_Nil image_eqI)
    next
      case (Cons x xs)
      then obtain r where "pfx_parent q = Some r" "path r = xs @ name # path p"
        by (cases q rule: path.cases) auto
      with Cons tree_parent [OF tree_stateD(4) [OF assms(1)]] show ?case by blast
    qed
  qed
  with free assms(1) show ?thesis
    by (auto simp: node_Release_def RemoveNode_def RemoveConduit_def delete_nil)
qed

text \<open>The watcher and the server.\<close>

lemma growsE:
  assumes "grows inv stored s p name out"
  obtains (error) e s' where "out = Some (Inl e, s')" "tree_state inv stored s'" "stored s' = stored s"
  | (child) q s' where "out = Some (Inr q, s')" "tree_state inv stored s'" "stored s' = insert q (stored s)"
      "pfx_parent q = Some p" "pfx_name q = name"
proof -
  from assms obtain r s' where r: "out = Some (r, s')" "tree_state inv stored s'"
      "case r of Inl e \<Rightarrow> stored s' = stored s
       | Inr q \<Rightarrow> stored s' = insert q (stored s) \<and> pfx_parent q = Some p \<and> pfx_name q = name"
    unfolding grows_def by blast
  then show ?thesis by (cases r) (auto intro: error child)
qed

lemma add_conduits_state:
  assumes "\<And>l. legal l"
  shows "tree_state inv stored s \<Longrightarrow> t \<in> stored s \<Longrightarrow>
    \<exists>cc' s'. add_conduits st pl t k cc names s = Some (cc', s') \<and> tree_state inv stored s' \<and>
      stored s \<subseteq> stored s' \<and> set cc' = set cc - set names"
proof (induction names arbitrary: s cc)
  case (Cons name names)
  from AddConduit_grows [OF Cons.prems assms, of name pl k] obtain r s1 where
    s1: "AddConduit st pl t k name s = Some (r, s1)" "tree_state inv stored s1" "stored s \<subseteq> stored s1"
    by (cases rule: growsE) auto
  with Cons.IH [of s1 "filter (\<lambda>n. n \<noteq> name) cc"] Cons.prems obtain cc' s' where
    "add_conduits st pl t k (filter (\<lambda>n. n \<noteq> name) cc) names s1 = Some (cc', s')"
    "tree_state inv stored s'" "stored s1 \<subseteq> stored s'" "set cc' = set (filter (\<lambda>n. n \<noteq> name) cc) - set names"
    by blast
  with s1 show ?case by auto
qed simp

lemma remove_conduits_state:
  assumes "\<And>l. legal l"
  shows "tree_state inv stored s \<Longrightarrow> t \<in> stored s \<Longrightarrow>
    tree_state inv stored (remove_conduits st t k cc s) \<and>
    stored (remove_conduits st t k cc s) = {q \<in> stored s. \<not> (\<exists>name \<in> set cc. \<exists>xs. path q = xs @ name # path t)}"
proof (induction cc arbitrary: s)
  case (Cons name cc)
  obtain s1 where s1: "RemoveConduit st t k name s = (None, s1)" "tree_state inv stored s1"
      "stored s1 = {q \<in> stored s. \<not> (\<exists>xs. path q = xs @ name # path t)}"
    using delete_child [OF Cons.prems assms, of k name] by blast
  have "t \<in> stored s1"
    using s1(3) Cons.prems(2) by (auto dest: arg_cong [of _ _ length])
  with Cons.IH [of s1] s1 show ?case by auto
qed simp

lemma SetConduits_state:
  assumes "\<And>l. legal l" "tree_state inv stored s" "t \<in> stored s"
  shows "\<exists>s'. SetConduits st pl t k current new s = Some s' \<and> tree_state inv stored s' \<and>
    (\<forall>q \<in> stored s'. \<forall>name \<in> set current - set new. \<forall>xs. path q \<noteq> xs @ name # path t) \<and>
    (\<forall>q \<in> stored s. (\<forall>name \<in> set current - set new. \<forall>xs. path q \<noteq> xs @ name # path t) \<longrightarrow> q \<in> stored s')"
proof -
  obtain cc s1 where s1: "add_conduits st pl t k current new s = Some (cc, s1)" "tree_state inv stored s1"
      "stored s \<subseteq> stored s1" "set cc = set current - set new"
    using add_conduits_state [OF assms] by blast
  moreover have "t \<in> stored s1" using s1(3) assms(3) by blast
  ultimately show ?thesis
    using remove_conduits_state [OF assms(1) s1(2), of t k cc] by (auto simp: SetConduits_def)
qed

lemma wait_conduit_state:
  assumes "\<And>l. legal l" "\<And>i s. server_state inv stored is s \<Longrightarrow> server_state inv stored is (env i s)"
    and "Trenches is f = Some t"
  shows "server_state inv stored is s \<Longrightarrow> wait_conduit st env (tr_prefix t) k name polls s = (r, s') \<Longrightarrow>
    server_state inv stored is s' \<and> (\<forall>c. r = Inr c \<longrightarrow> c \<in> stored s' \<and> pfx_parent c = Some (tr_prefix t) \<and> pfx_name c = name)"
proof (induction polls arbitrary: s)
  case (Suc polls)
  let ?s = "env polls s"
  have s: "server_state inv stored is ?s" using assms(2) Suc.prems(1) by blast
  then have "tree_state inv stored ?s" "tr_prefix t \<in> stored ?s"
    using assms(3) by (auto simp: server_state_def)
  then show ?case
    using assms(1)
  proof (cases rule: get_child [where k = k and name = name, consumes 3])
    case (found q)
    with Suc.prems(2) s show ?thesis by (auto simp: GetConduit_def)
  next
    case free
    with Suc s show ?thesis by (simp add: GetConduit_def)
  qed
qed auto

lemma server_grows:
  assumes "server_state inv stored is s" "grows inv stored s p name (Some (r, s'))"
  shows "server_state inv stored is s'" "stored s \<subseteq> stored s'"
    "\<And>q. r = Inr q \<Longrightarrow> q \<in> stored s' \<and> pfx_parent q = Some p \<and> pfx_name q = name"
  using assms(2) by (cases rule: growsE; use assms(1) in \<open>auto simp: server_state_def\<close>)+

lemma find_trenchD: "find_trench is child = Inr (t, name) \<Longrightarrow> Trenches is (ch_family child) = Some t"
  by (auto simp: find_trench_def split: option.splits if_splits)

text \<open>\<open>Allocate\<close> always answers, keeps the state, and an address it returns is that of a stored
  prefix with the path child, node, conduit, trench.\<close>

lemma ipam_Allocate_state:
  assumes legal: "\<And>l. legal l"
    and env: "\<And>i s. server_state inv stored is s \<Longrightarrow> server_state inv stored is (env i s)"
    and s: "server_state inv stored is s"
  shows "\<exists>r s'. ipam_Allocate st env polls is k child s = Some (r, s') \<and> server_state inv stored is s' \<and>
    (\<forall>reply. r = Inr reply \<longrightarrow> (\<exists>t cn c n p a m. find_trench is child = Inr (t, cn) \<and>
       {c, n, p} \<subseteq> stored s' \<and> pfx_parent c = Some (tr_prefix t) \<and> pfx_name c = cn \<and>
       pfx_parent n = Some c \<and> pfx_name n = ch_node child \<and>
       pfx_parent p = Some n \<and> pfx_name p = ch_name child \<and>
       parse_cidr (pfx_cidr p) = Some (a, m) \<and>
       (\<exists>pl. srv_lengths is (ch_family child) = Some pl \<and>
          reply = \<lparr>Address = ip_string a, PrefixLength = to_int32 (NodeLength pl)\<rparr>)))"
proof (cases "find_trench is child")
  case (Inl e)
  with s show ?thesis by (simp add: ipam_Allocate_def)
next
  case (Inr tc)
  obtain t cn where ft: "find_trench is child = Inr (t, cn)" using Inr by (cases tc) simp
  obtain r1 s1 where w: "wait_conduit st env (tr_prefix t) k cn polls s = (r1, s1)" by fastforce
  note w' = wait_conduit_state [OF legal env find_trenchD [OF ft] s w]
  show ?thesis
  proof (cases r1)
    case (Inl e)
    with w w' ft show ?thesis by (auto simp: ipam_Allocate_def)
  next
    case (Inr c)
    with w' have s1: "server_state inv stored is s1" "tree_state inv stored s1" "c \<in> stored s1"
        "pfx_parent c = Some (tr_prefix t)" "pfx_name c = cn" by (auto simp: server_state_def)
    let ?k = "WithUpdateDamping (WithExpirable k) nodeUpdateDampingThreshold"
    note g2 = GetNode_grows [OF s1(2,3) legal, of "ch_node child" "tr_lengths t" ?k]
    then obtain r2 s2 where n: "GetNode st (tr_lengths t) c ?k (ch_node child) s1 = Some (r2, s2)"
      by (auto simp: grows_def)
    note s2 = server_grows [OF s1(1) g2 [unfolded n]]
    show ?thesis
    proof (cases r2)
      case (Inl e)
      with s2 n w \<open>r1 = Inr c\<close> ft show ?thesis by (auto simp: ipam_Allocate_def)
    next
      case (Inr nd)
      with s2(3) have nd: "nd \<in> stored s2" "pfx_parent nd = Some c" "pfx_name nd = ch_node child" by auto
      have "tree_state inv stored s2" using s2(1) by (simp add: server_state_def)
      note g3 = node_Allocate_grows [OF this nd(1) legal, of "ch_name child" "tr_lengths t" "WithExpirable k"]
      then obtain r3 s3 where a: "node_Allocate st (tr_lengths t) nd (WithExpirable k) (ch_name child) s2 = Some (r3, s3)"
        by (auto simp: grows_def)
      note s3 = server_grows [OF s2(1) g3 [unfolded a]]
      have st: "c \<in> stored s3" "nd \<in> stored s3" using s1 s2 s3 nd by auto
      show ?thesis
        using w \<open>r1 = Inr c\<close> n Inr a ft s3 s1(4,5) nd(2,3) st
        by (auto simp: ipam_Allocate_def split: sum.splits option.splits) blast
    qed
  qed
qed

lemma ipam_Release_state:
  assumes legal: "\<And>l. legal l" and s: "server_state inv stored is s"
  shows "\<exists>r s'. ipam_Release st is k child s = Some (r, s') \<and> server_state inv stored is s' \<and>
    (r = None \<longrightarrow> (\<forall>t cn. find_trench is child = Inr (t, cn) \<longrightarrow>
       (\<forall>p \<in> stored s'. path p \<noteq> [ch_name child, ch_node child, cn, pfx_name (tr_prefix t)])))"
proof (cases "find_trench is child")
  case (Inl e)
  with s show ?thesis by (simp add: ipam_Release_def)
next
  case (Inr tc)
  obtain t cn where ft: "find_trench is child = Inr (t, cn)" using Inr by (cases tc) simp
  have t: "tree_state inv stored s" "tr_prefix t \<in> stored s" "path (tr_prefix t) = [pfx_name (tr_prefix t)]"
    using s find_trenchD [OF ft] by (auto simp: server_state_def path_Pfx [of "tr_prefix t"])
  let ?k = "WithUpdateDamping (WithExpirable k) nodeUpdateDampingThreshold"
  from t(1,2) legal show ?thesis
  proof (cases rule: get_child [where k = k and name = cn, consumes 3])
    case free
    have "path p \<noteq> [ch_name child, ch_node child, cn, pfx_name (tr_prefix t)]" if "p \<in> stored s" for p
    proof
      assume "path p = [ch_name child, ch_node child, cn, pfx_name (tr_prefix t)]"
      then obtain n where n: "pfx_parent p = Some n" "path n = [ch_node child, cn, pfx_name (tr_prefix t)]"
        by (cases p rule: path.cases) auto
      then obtain c where "pfx_parent n = Some c" "path c = [cn, pfx_name (tr_prefix t)]"
        by (cases n rule: path.cases) auto
      with n(1) that tree_parent [OF tree_stateD(4) [OF t(1)]] free(1) t(3) show False by (metis image_eqI)
    qed
    with free s ft show ?thesis by (auto simp: ipam_Release_def GetConduit_def)
  next
    case (found c)
    note g = GetNode_grows [OF t(1) found(1) legal, of "ch_node child" "tr_lengths t" ?k]
    then obtain r2 s2 where n: "GetNode st (tr_lengths t) c ?k (ch_node child) s = Some (r2, s2)"
      by (auto simp: grows_def)
    note s2 = server_grows [OF s g [unfolded n]]
    show ?thesis
    proof (cases r2)
      case (Inl e)
      with found n ft s2 show ?thesis by (auto simp: ipam_Release_def GetConduit_def)
    next
      case (Inr nd)
      with s2(3) have nd: "nd \<in> stored s2" "pfx_parent nd = Some c" "pfx_name nd = ch_node child" by auto
      have ts: "tree_state inv stored s2" using s2(1) by (simp add: server_state_def)
      obtain s3 where s3: "node_Release st nd k (ch_name child) s2 = (None, s3)" "tree_state inv stored s3"
          "stored s3 = {q \<in> stored s2. \<not> (\<exists>xs. path q = xs @ ch_name child # path nd)}"
        using delete_child [OF ts nd(1) legal, of k "ch_name child"] by blast
      have path: "path nd = [ch_node child, cn, pfx_name (tr_prefix t)]"
        using nd found(2,3) t(3) by (simp add: path_Pfx [of nd] path_Pfx [of c])
      have "path p \<noteq> [ch_name child, ch_node child, cn, pfx_name (tr_prefix t)]" if "p \<in> stored s3" for p
        using that s3(3) path by auto
      moreover have "tr_prefix u \<in> stored s3 \<and> pfx_parent (tr_prefix u) = None" if "Trenches is f = Some u" for f u
        using that s2(1) s3(3) path by (auto simp: server_state_def path_Pfx [of "tr_prefix u"] Cons_eq_append_conv)
      ultimately show ?thesis
        using found n Inr ft s3 by (auto simp: ipam_Release_def GetConduit_def server_state_def)
    qed
  qed
qed

lemma get_root:
  assumes "tree_state inv stored s" "legal [name]"
  obtains (found) q where "q \<in> stored s" "pfx_parent q = None" "st_Get st k name None s = (Inr (Some q), s)"
  | (free) "[name] \<notin> path ` stored s" "st_Get st k name None s = (Inr None, s)"
proof (cases "\<exists>q \<in> stored s. path q = [name]")
  case True
  then obtain q where q: "q \<in> stored s" "path q = [name]" by blast
  then have "pfx_parent q = None" "pfx_name q = name" by (cases q rule: path.cases; simp)+
  with q get_stored [OF tree_stateD(1) [OF assms(1)] q(1), of k] show ?thesis by (intro found [of q]) simp_all
next
  case False
  then have "[name] \<notin> path ` stored s" by (auto simp: eq_commute)
  then show ?thesis
    using get_absent [of s None name k] tree_stateD(1) [OF assms(1)] assms(2)
    by (intro free) (simp_all add: parent_in_def)
qed

lemma add_trenches_state:
  assumes legal: "\<And>l. legal l"
  shows "server_state inv stored is s \<Longrightarrow> distinct (map snd cidrs) \<Longrightarrow>
    \<forall>q \<in> stored s. pfx_parent q = None \<longrightarrow> pfx_cidr q \<notin> set (map snd cidrs) \<Longrightarrow>
    \<forall>cidr \<in> set (map snd cidrs). \<exists>a n. parse_cidr cidr = Some (a, n) \<and> 0 < net_ones n \<Longrightarrow>
    add_trenches st k trenchName lengths cidrs is s = (Inr is', s') \<Longrightarrow> server_state inv stored is' s'"
proof (induction cidrs arbitrary: "is" s)
  case (Cons fc cidrs)
  obtain f cidr where fc: "fc = (f, cidr)" by fastforce
  let ?p = "Pfx (getTrenchName trenchName f) cidr None"
  have t: "tree_state inv stored s" using Cons.prems(1) by (simp add: server_state_def)
  from t legal show ?case
  proof (cases rule: get_root [where k = k and name = "getTrenchName trenchName f", consumes 2])
    case (found q)
    let ?is = "is\<lparr>Trenches := (Trenches is)(f \<mapsto> \<lparr>tr_prefix = q, tr_lengths = lengths f\<rparr>)\<rparr>"
    have "server_state inv stored ?is s" using Cons.prems(1) found by (auto simp: server_state_def)
    with Cons.IH [of ?is s] Cons.prems fc found show ?thesis by (auto simp: trench_New_def)
  next
    case free
    have "\<forall>q \<in> stored s. pfx_parent q = pfx_parent ?p \<longrightarrow> pfx_cidr q \<noteq> pfx_cidr ?p"
      using Cons.prems(3) fc by auto
    then obtain s1 where s1: "st_Add st k (Some ?p) s = (None, s1)" "inv s1" "stored s1 = insert ?p (stored s)"
      using add_law [of s ?p k] tree_stateD(1) [OF t] free legal by (auto simp: parent_in_def)
    have "disjoint_tree (stored s1)"
      using tree_stateD(2) [OF t] unfolding s1(3) by (rule disjoint_tree_root) simp
    moreover have "roots_ok (stored s1)"
      using tree_stateD(3) [OF t] Cons.prems(4) fc unfolding s1(3) by (auto simp: roots_ok_def)
    ultimately have t1: "tree_state inv stored s1" using s1(2) by (simp add: tree_state_def)
    let ?is = "is\<lparr>Trenches := (Trenches is)(f \<mapsto> \<lparr>tr_prefix = ?p, tr_lengths = lengths f\<rparr>)\<rparr>"
    have "server_state inv stored ?is s1" using Cons.prems(1) t1 s1(3) by (auto simp: server_state_def)
    moreover have "\<forall>q \<in> stored s1. pfx_parent q = None \<longrightarrow> pfx_cidr q \<notin> set (map snd cidrs)"
      using Cons.prems(2,3) fc s1(3) by auto
    ultimately show ?thesis
      using Cons.IH [of ?is s1] Cons.prems fc free s1(1) by (auto simp: trench_New_def)
  qed
qed simp

text \<open>A second \<open>Allocate\<close> for a child that is stored answers with the stored prefix.\<close>

lemma ipam_Allocate_again:
  assumes "server_state inv stored is s" "find_trench is child = Inr (t, cn)"
    and "c \<in> stored s" "pfx_parent c = Some (tr_prefix t)" "pfx_name c = cn"
    and "n \<in> stored s" "pfx_parent n = Some c" "pfx_name n = ch_node child"
    and "p \<in> stored s" "pfx_parent p = Some n" "pfx_name p = ch_name child"
    and "parse_cidr (pfx_cidr p) = Some (a, m)" "srv_lengths is (ch_family child) = Some pl"
  shows "\<exists>s'. ipam_Allocate st (\<lambda>_ s. s) (Suc polls) is k child s =
    Some (Inr \<lparr>Address = ip_string a, PrefixLength = to_int32 (NodeLength pl)\<rparr>, s') \<and> stored s' = stored s"
proof -
  have i: "inv s" using assms(1) by (simp add: server_state_def tree_state_def)
  note get = get_stored [OF i assms(3)] get_stored [OF i assms(6)]
  let ?k = "WithUpdateDamping (WithExpirable k) nodeUpdateDampingThreshold"
  obtain s1 where s1: "st_Update st ?k (Some n) s = (None, s1)" "inv s1" "stored s1 = stored s"
    using update_law [OF i assms(6)] by blast
  obtain s2 where s2: "st_Update st (WithExpirable k) (Some p) s1 = (None, s2)" "inv s2" "stored s2 = stored s1"
    using update_law [OF s1(2), of p "WithExpirable k"] assms(9) s1(3) by auto
  have p: "st_Get st kk (pfx_name p) (pfx_parent p) s1 = (Inr (Some p), s1)" for kk
    using get_stored [OF s1(2)] s1(3) assms(9) by simp
  show ?thesis
    using assms(2,4,5,7,8,10-13) get p s1 s2
    by (simp add: ipam_Allocate_def GetConduit_def GetNode_def node_Allocate_def)
qed

end

lemma reach_state: "ipam_reach is s \<Longrightarrow> server_state mem_inv mem_stored is s"
proof (induction rule: ipam_reach.induct)
  case (start c trenchName cidrs prefixLengths s)
  have "server_state mem_inv mem_stored \<lparr>Trenches = Map.empty, srv_lengths = prefixLengths\<rparr> mem_New"
    by (simp add: server_state_def tree_state_def mem_inv_def mem_stored_def mem_New_def closed_tree_def
        disjoint_tree_def roots_ok_def)
  moreover have "mem_stored mem_New = {}" by (simp add: mem_stored_def mem_New_def)
  ultimately show ?case
    using mem.add_trenches_state [OF TrueI, of _ mem_New cidrs c trenchName prefixLengths "is" s] start
    by (simp add: NewServer_def)
next
  case (allocate s polls c child r s')
  with mem.ipam_Allocate_state [OF TrueI _ allocate.IH, of "\<lambda>_ s. s" polls c child] show ?case by auto
next
  case (release s c child r s')
  with mem.ipam_Release_state [OF TrueI release.IH, of c child] show ?case by auto
next
  case (conduits s f t c currentConduits newConduits s')
  then have t: "tree_state mem_inv mem_stored s" "tr_prefix t \<in> mem_stored s"
    by (auto simp: server_state_def)
  note step = mem.SetConduits_state [OF TrueI t, of "tr_lengths t" c currentConduits newConduits]
  have "tr_prefix u \<in> mem_stored s'" if "Trenches is g = Some u" for g u
  proof -
    have u: "tr_prefix u \<in> mem_stored s" "path (tr_prefix u) = [pfx_name (tr_prefix u)]"
      using that conduits.IH by (auto simp: server_state_def path_Pfx [of "tr_prefix u"])
    moreover have "path (tr_prefix u) \<noteq> xs @ name # path (tr_prefix t)" for xs name
      using u(2) by (auto simp: Cons_eq_append_conv)
    ultimately show ?thesis using step conduits.hyps(3) by auto
  qed
  with step conduits show ?case by (auto simp: server_state_def)
qed


section \<open>Properties\<close>



text \<open>
  C4: in a reachable state \<open>Release\<close> answers every request, and when it
  reports no error for a known trench no prefix with the child's path is left in the store.
\<close>

theorem ipam_release_frees:
  assumes "ipam_reach is s" "find_trench is child = Inr (t, cn)"
  shows "\<exists>r s'. ipam_Release mem_store is c child s = Some (r, s') \<and>
    (r = None \<longrightarrow> (\<forall>p \<in> set (prefixes s').
       path p \<noteq> [ch_name child, ch_node child, cn, pfx_name (tr_prefix t)]))"
  using mem.ipam_Release_state [OF TrueI reach_state [OF assms(1)], of c child] assms(2)
  by (fastforce simp: mem_stored_def)

text \<open>
  C5: \<open>SetConduits\<close> returns, leaves nothing of the conduits that are no longer
  configured, and keeps every prefix that is not beneath one of them.
\<close>

theorem set_conduits_exact:
  assumes "ipam_reach is s" "Trenches is f = Some t"
  shows "\<exists>s'. SetConduits mem_store pl (tr_prefix t) c current new s = Some s' \<and>
    (\<forall>q \<in> set (prefixes s'). \<forall>name \<in> set current - set new. \<forall>xs. path q \<noteq> xs @ [name, pfx_name (tr_prefix t)]) \<and>
    (\<forall>q \<in> set (prefixes s). (\<forall>name \<in> set current - set new. \<forall>xs. path q \<noteq> xs @ [name, pfx_name (tr_prefix t)]) \<longrightarrow>
       q \<in> set (prefixes s'))"
proof -
  from reach_state [OF assms(1)] assms(2) have t: "tree_state mem_inv mem_stored s" "tr_prefix t \<in> mem_stored s"
      "path (tr_prefix t) = [pfx_name (tr_prefix t)]"
    by (auto simp: server_state_def path_Pfx [of "tr_prefix t"])
  from mem.SetConduits_state [OF TrueI t(1,2), of pl c current new] show ?thesis
    unfolding t(3) mem_stored_def by blast
qed


end
