(* ===== verification/IpamExample.thy ===== *)
theory IpamExample
  imports IpamTree
begin

text \<open>
  A concrete run of the IPAM over the memory store, one trench 10.0.0.0/8 with two conduits and a
  node, evaluated by the simplifier: the witnesses of the IPAM properties.
\<close>

section \<open>Definitions\<close>

definition ex_lengths :: PrefixLengths where
  "ex_lengths = \<lparr>ConduitLength = 16, NodeLength = 24, ChildLength = 32\<rparr>"

definition ex_trench :: pfx where
  "ex_trench = Pfx ''t-0'' ''10.0.0.0/8'' None"

definition ex_server :: IpamServer where
  "ex_server = \<lparr>Trenches = [0 \<mapsto> \<lparr>tr_prefix = ex_trench, tr_lengths = Some ex_lengths\<rparr>],
                srv_lengths = [0 \<mapsto> ex_lengths]\<rparr>"

definition ex_ctx :: ctx where
  "ex_ctx = \<lparr>lifetimeKey = False, updateDampingKey = None\<rparr>"

definition ex_conduit_a :: pfx where
  "ex_conduit_a = Pfx ''a'' ''10.0.0.0/16'' (Some ex_trench)"

definition ex_conduit_b :: pfx where
  "ex_conduit_b = Pfx ''b'' ''10.1.0.0/16'' (Some ex_trench)"

definition ex_node :: pfx where
  "ex_node = Pfx ''n'' ''10.0.0.0/24'' (Some ex_conduit_a)"

definition ex_store :: MemoryIPAMStorage where
  "ex_store = \<lparr>prefixes = [ex_trench, ex_conduit_a, ex_conduit_b]\<rparr>"

definition ex_child :: Child where
  "ex_child = \<lparr>ch_name = ''x'', ch_family = 0,
     ch_conduit = Some \<lparr>sc_name = ''a'', sc_trench = Some ''t''\<rparr>, ch_node = ''n''\<rparr>"

section \<open>The run\<close>

lemmas mem_eval = mem_store_def mem_Add_def mem_Get_def mem_GetChilds_def mem_getChilds_def mem_Update_def
  mem_exists_def getIndex_def pfx_equals_iff

lemma ex_start:
  "NewServer mem_store ex_ctx ''t'' [(0, ''10.0.0.0/8'')] [0 \<mapsto> ex_lengths] mem_New =
     (Inr ex_server, \<lparr>prefixes = [ex_trench]\<rparr>)"
  by (simp add: NewServer_def trench_New_def mem_eval getTrenchName_def itoa_def show_nat_def show_base_def
     digits.simps digit_char_table mem_New_def ex_server_def ex_trench_def)

text \<open>The pieces of text the run meets.\<close>

lemma ex_parse:
  "parse_cidr ''10.0.0.0/8'' = Some (to16 [10, 0, 0, 0], \<lparr>net_ip = [10, 0, 0, 0], net_ones = 8\<rparr>)"
  "parse_cidr ''10.0.0.0/16'' = Some (to16 [10, 0, 0, 0], \<lparr>net_ip = [10, 0, 0, 0], net_ones = 16\<rparr>)"
  "parse_cidr ''10.1.0.0/16'' = Some (to16 [10, 1, 0, 0], \<lparr>net_ip = [10, 1, 0, 0], net_ones = 16\<rparr>)"
  "parse_cidr ''10.0.255.255/16'' = Some (to16 [10, 0, 255, 255], \<lparr>net_ip = [10, 0, 0, 0], net_ones = 16\<rparr>)"
  by (simp_all add: net_eval)

lemma ex_print:
  "cidr_of [10, 0, 0, 0] 16 = ''10.0.0.0/16''" "cidr_of [10, 0, 255, 255] 16 = ''10.0.255.255/16''"
  "ipnet_string \<lparr>net_ip = [10, 0, 0, 0], net_ones = 16\<rparr> = ''10.0.0.0/16''"
  "ipnet_string \<lparr>net_ip = [10, 1, 0, 0], net_ones = 16\<rparr> = ''10.1.0.0/16''"
  by (simp_all add: net_eval)

lemma ex_next:
  "LastIP \<lparr>net_ip = [10, 0, 0, 0], net_ones = 16\<rparr> = [10, 0, 255, 255]"
  "NextPrefix \<lparr>net_ip = [10, 0, 0, 0], net_ones = 16\<rparr> = \<lparr>net_ip = [10, 1, 0, 0], net_ones = 16\<rparr>"
  by (simp_all add: LastIP_def NextPrefix_def net_bits_def Let_def upt_rec)

lemma ex_contains:
  "contains \<lparr>net_ip = [10, 0, 0, 0], net_ones = 16\<rparr> [10, 0, 0, 0]"
  "contains \<lparr>net_ip = [10, 1, 0, 0], net_ones = 16\<rparr> [10, 1, 0, 0]"
  "contains \<lparr>net_ip = [10, 0, 0, 0], net_ones = 8\<rparr> [10, 1, 0, 0]"
  "\<not> contains \<lparr>net_ip = [10, 0, 0, 0], net_ones = 16\<rparr> [10, 1, 0, 0]"
  "\<not> contains \<lparr>net_ip = [10, 1, 0, 0], net_ones = 16\<rparr> [10, 0, 0, 0]"
  by (simp_all add: net_eval)

lemmas ex_text = ex_parse ex_print ex_next ex_contains OverlappingPrefixes_def Let_def prefixSliceToStringSlice_def

lemma ex_add_a:
  "AddConduit mem_store (Some ex_lengths) ex_trench ex_ctx ''a'' \<lparr>prefixes = [ex_trench]\<rparr> =
     Some (Inr ex_conduit_a, \<lparr>prefixes = [ex_trench, ex_conduit_a]\<rparr>)"
  by (simp add: AddConduit_def GetConduit_def mem_eval ex_trench_def ex_conduit_a_def ex_lengths_def
     Allocate_def AllocateWithBlocklist_def ex_text allocate_loop.simps [of _ _ _ _ _ _ _ "[]"] skip_collisions.simps [of _ _ _ "[]"])

lemma ex_skip: "skip_collisions ''10.0.0.0/8'' 16 \<lparr>net_ip = [10, 0, 0, 0], net_ones = 16\<rparr> [''10.0.0.0/16'']
    \<lparr>net_ip = [10, 0, 0, 0], net_ones = 16\<rparr> = Some (Inr \<lparr>net_ip = [10, 1, 0, 0], net_ones = 16\<rparr>)"
  by (subst skip_collisions.simps, simp add: ex_text) (subst skip_collisions.simps, simp add: ex_text)

lemma ex_add_b:
  "AddConduit mem_store (Some ex_lengths) ex_trench ex_ctx ''b'' \<lparr>prefixes = [ex_trench, ex_conduit_a]\<rparr> =
     Some (Inr ex_conduit_b, \<lparr>prefixes = [ex_trench, ex_conduit_a, ex_conduit_b]\<rparr>)"
  by (simp add: AddConduit_def GetConduit_def mem_eval ex_trench_def ex_conduit_a_def ex_conduit_b_def ex_lengths_def
     Allocate_def AllocateWithBlocklist_def ex_text allocate_loop.simps [of _ _ _ _ _ _ _ "[''10.0.0.0/16'']"] ex_skip)


lemma ex_set: "SetConduits mem_store (Some ex_lengths) ex_trench ex_ctx [] [''a'', ''b''] \<lparr>prefixes = [ex_trench]\<rparr> =
    Some ex_store"
  by (simp add: SetConduits_def ex_add_a ex_add_b ex_store_def)

lemma ex_reach: "ipam_reach ex_server ex_store"
proof (rule ipam_reach.conduits)
  show "ipam_reach ex_server \<lparr>prefixes = [ex_trench]\<rparr>"
    by (rule ipam_reach.start [OF ex_start]) (simp_all add: ex_parse)
  show "Trenches ex_server 0 = Some \<lparr>tr_prefix = ex_trench, tr_lengths = Some ex_lengths\<rparr>"
    by (simp add: ex_server_def)
  show "SetConduits mem_store (tr_lengths \<lparr>tr_prefix = ex_trench, tr_lengths = Some ex_lengths\<rparr>)
      (tr_prefix \<lparr>tr_prefix = ex_trench, tr_lengths = Some ex_lengths\<rparr>) ex_ctx [] [''a'', ''b'']
      \<lparr>prefixes = [ex_trench]\<rparr> = Some ex_store"
    using ex_set by simp
qed

lemma ex_trench_of: "find_trench ex_server ex_child = Inr (\<lparr>tr_prefix = ex_trench, tr_lengths = Some ex_lengths\<rparr>, ''a'')"
  by (simp add: find_trench_def ex_server_def ex_child_def ex_trench_def getTrenchName_def itoa_def show_nat_def
      show_base_def digits.simps digit_char_table)

lemma ex_node_text:
  "parse_cidr ''10.0.0.0/24'' = Some (to16 [10, 0, 0, 0], \<lparr>net_ip = [10, 0, 0, 0], net_ones = 24\<rparr>)"
  "parse_cidr ''10.0.0.0/32'' = Some (to16 [10, 0, 0, 0], \<lparr>net_ip = [10, 0, 0, 0], net_ones = 32\<rparr>)"
  "parse_cidr ''10.0.0.1/32'' = Some (to16 [10, 0, 0, 1], \<lparr>net_ip = [10, 0, 0, 1], net_ones = 32\<rparr>)"
  "parse_cidr ''10.0.0.255/32'' = Some (to16 [10, 0, 0, 255], \<lparr>net_ip = [10, 0, 0, 255], net_ones = 32\<rparr>)"
  "ip_string [10, 0, 0, 0] = ''10.0.0.0''" "ip_string [10, 0, 0, 255] = ''10.0.0.255''" "itoa 32 = ''32''"
  "cidr_of [10, 0, 0, 0] 32 = ''10.0.0.0/32''"
  "ipnet_string \<lparr>net_ip = [10, 0, 0, 0], net_ones = 32\<rparr> = ''10.0.0.0/32''"
  "ipnet_string \<lparr>net_ip = [10, 0, 0, 1], net_ones = 32\<rparr> = ''10.0.0.1/32''"
  "LastIP \<lparr>net_ip = [10, 0, 0, 0], net_ones = 24\<rparr> = [10, 0, 0, 255]"
  "LastIP \<lparr>net_ip = [10, 0, 0, 0], net_ones = 32\<rparr> = [10, 0, 0, 0]"
  "NextPrefix \<lparr>net_ip = [10, 0, 0, 0], net_ones = 32\<rparr> = \<lparr>net_ip = [10, 0, 0, 1], net_ones = 32\<rparr>"
  by (simp_all add: net_eval itoa_def LastIP_def NextPrefix_def net_bits_def Let_def)

lemma ex_node_contains:
  "contains \<lparr>net_ip = [10, 0, 0, 0], net_ones = 32\<rparr> [10, 0, 0, 0]"
  "contains \<lparr>net_ip = [10, 0, 0, 1], net_ones = 32\<rparr> [10, 0, 0, 1]"
  "contains \<lparr>net_ip = [10, 0, 0, 0], net_ones = 24\<rparr> [10, 0, 0, 1]"
  "\<not> contains \<lparr>net_ip = [10, 0, 0, 0], net_ones = 32\<rparr> [10, 0, 0, 1]"
  "\<not> contains \<lparr>net_ip = [10, 0, 0, 1], net_ones = 32\<rparr> [10, 0, 0, 0]"
  "\<not> contains \<lparr>net_ip = [10, 0, 0, 255], net_ones = 32\<rparr> [10, 0, 0, 1]"
  "\<not> contains \<lparr>net_ip = [10, 0, 0, 1], net_ones = 32\<rparr> [10, 0, 0, 255]"
  "\<not> contains \<lparr>net_ip = [10, 0, 0, 255], net_ones = 32\<rparr> [10, 0, 0, 0]"
  "\<not> contains \<lparr>net_ip = [10, 0, 0, 0], net_ones = 32\<rparr> [10, 0, 0, 255]"
  by (simp_all add: net_eval)

lemma ex_node_skip:
  "skip_collisions ''10.0.0.0/24'' 32 \<lparr>net_ip = [10, 0, 0, 0], net_ones = 32\<rparr> [''10.0.0.0/32'', ''10.0.0.255/32'']
     \<lparr>net_ip = [10, 0, 0, 0], net_ones = 32\<rparr> = Some (Inr \<lparr>net_ip = [10, 0, 0, 1], net_ones = 32\<rparr>)"
  by (subst skip_collisions.simps, simp add: OverlappingPrefixes_def ex_node_text ex_node_contains Let_def)
    (subst skip_collisions.simps, simp add: OverlappingPrefixes_def ex_node_text ex_node_contains)

lemma ex_node_allocate:
  "node_Allocate mem_store (Some ex_lengths) ex_node ex_ctx ''x'' \<lparr>prefixes = []\<rparr> =
     Some (Inr (Pfx ''x'' ''10.0.0.1/32'' (Some ex_node)), \<lparr>prefixes = [Pfx ''x'' ''10.0.0.1/32'' (Some ex_node)]\<rparr>)"
  by (simp add: node_Allocate_def mem_eval getBlocklist_def ex_node_def ex_lengths_def ex_node_text Let_def
      AllocateWithBlocklist_def prefixSliceToStringSlice_def allocate_loop.simps [of _ _ _ _ _ _ _ "[]"] ex_node_skip
      OverlappingPrefixes_def ex_node_contains)

section \<open>Witnesses\<close>


theorem allocate_safe_witness:
  "\<exists>p s'. AllocateWithBlocklist mem_store ex_ctx ex_node ''x'' 32 [''10.0.0.0/32'', ''10.0.0.255/32'']
      \<lparr>prefixes = []\<rparr> = Some (Inr p, s') \<and> path p = ''x'' # path ex_node \<and>
     \<not> OverlappingPrefixes ''10.0.0.0/32'' (pfx_cidr p)"
proof -
  have "AllocateWithBlocklist mem_store ex_ctx ex_node ''x'' 32 [''10.0.0.0/32'', ''10.0.0.255/32'']
      \<lparr>prefixes = []\<rparr> = Some (Inr (Pfx ''x'' ''10.0.0.1/32'' (Some ex_node)), \<lparr>prefixes = [Pfx ''x'' ''10.0.0.1/32'' (Some ex_node)]\<rparr>)"
    using ex_node_allocate
    by (simp add: node_Allocate_def mem_eval getBlocklist_def ex_node_def ex_lengths_def ex_node_text Let_def)
  with allocate_safe [OF this] show ?thesis by auto
qed


theorem ipam_release_frees_witness:
  "ipam_reach ex_server ex_store \<and>
   (\<exists>r s'. ipam_Release mem_store ex_server ex_ctx ex_child ex_store = Some (r, s') \<and>
     (r = None \<longrightarrow> (\<forall>p \<in> set (prefixes s'). path p \<noteq> [''x'', ''n'', ''a'', ''t-0''])))"
  using ex_reach ipam_release_frees [OF ex_reach ex_trench_of, of ex_ctx]
  by (simp add: ex_child_def ex_trench_def)

theorem set_conduits_exact_witness:
  "\<exists>s'. SetConduits mem_store (Some ex_lengths) ex_trench ex_ctx [''a'', ''b''] [''b''] ex_store = Some s' \<and>
     (\<forall>q \<in> set (prefixes s'). \<forall>xs. path q \<noteq> xs @ [''a'', ''t-0'']) \<and> ex_conduit_b \<in> set (prefixes s')"
proof -
  have t: "Trenches ex_server 0 = Some \<lparr>tr_prefix = ex_trench, tr_lengths = Some ex_lengths\<rparr>"
    by (simp add: ex_server_def)
  have b: "ex_conduit_b \<in> set (prefixes ex_store)" "path ex_conduit_b \<noteq> xs @ [''a'', ''t-0'']" for xs
    by (auto simp: ex_store_def ex_conduit_b_def ex_trench_def Cons_eq_append_conv)
  have gone: "set [''a'', ''b''] - set [''b''] = {''a''}" by auto
  have "\<exists>s'. SetConduits mem_store (Some ex_lengths) ex_trench ex_ctx [''a'', ''b''] [''b''] ex_store = Some s' \<and>
      (\<forall>q \<in> set (prefixes s'). \<forall>xs. path q \<noteq> xs @ [''a'', pfx_name ex_trench]) \<and>
      (\<forall>q \<in> set (prefixes ex_store). (\<forall>xs. path q \<noteq> xs @ [''a'', pfx_name ex_trench]) \<longrightarrow> q \<in> set (prefixes s'))"
    using set_conduits_exact [OF ex_reach t, of "Some ex_lengths" ex_ctx "[''a'', ''b'']" "[''b'']"]
    unfolding gone by (simp only: ball_simps IpamTrench.simps simp_thms)
  moreover have "pfx_name ex_trench = ''t-0''" by (simp add: ex_trench_def)
  ultimately show ?thesis using b by metis
qed


end
