(* ===== verification/NspApi.thy ===== *)
theory NspApi
  imports Prelude
begin

text \<open>
  The messages of \<open>api/nsp/v1\<close> and the functions written by hand on them: \<open>filter.go\<close>,
  \<open>utils.go\<close> and \<open>diff.go\<close>. A message pointer is an option; the generated getters of a nil
  message return the zero value, which the definitions write out.
\<close>

section \<open>Definitions\<close>

subsection \<open>Messages\<close>

record Trench =
  trench_name :: string

record Vip =
  vip_name :: string
  vip_address :: string
  vip_trench :: "Trench option"

record PortNat =
  pn_port :: nat
  pn_targetPort :: nat
  pn_vips :: "Vip list"
  pn_protocol :: string

record Conduit =
  conduit_name :: string
  conduit_trench :: "Trench option"
  conduit_portNats :: "PortNat list"

record Stream =
  stream_name :: string
  stream_conduit :: "Conduit option"
  stream_maxTargets :: nat

record Flow =
  flow_name :: string
  flow_sourceSubnets :: "string list"
  flow_destinationPortRanges :: "string list"
  flow_sourcePortRanges :: "string list"
  flow_protocols :: "string list"
  flow_priority :: int
  flow_stream :: "Stream option"
  flow_vips :: "Vip list"
  flow_byteMatches :: "string list"

record BfdSpec =
  bfd_MinTx :: nat
  bfd_MinRx :: nat
  bfd_Multiplier :: nat

record BgpAuth =
  auth_keyName :: string
  auth_keySource :: string

record Gateway =
  gateway_name :: string
  gateway_address :: string
  gateway_ipFamily :: string
  gateway_protocol :: string
  gateway_remoteASN :: nat
  gateway_localASN :: nat
  gateway_remotePort :: nat
  gateway_localPort :: nat
  gateway_holdTime :: nat
  gateway_bfd :: bool
  gateway_bfdSpec :: "BfdSpec option"
  gateway_trench :: "Trench option"
  gateway_bgpAuth :: "BgpAuth option"

record Attractor =
  attractor_name :: string
  attractor_trench :: "Trench option"
  attractor_vips :: "Vip list"
  attractor_gateways :: "Gateway list"

datatype TargetStatus = ENABLED | DISABLED | ANY

datatype TargetType = DEFAULT | FRONTEND

record Target =
  target_ips :: "string list"
  target_context :: "string \<rightharpoonup> string"
  target_status :: TargetStatus
  target_type :: TargetType
  target_stream :: "Stream option"

subsection \<open>Filters\<close>

fun TrenchFilter :: "Trench option \<Rightarrow> Trench option \<Rightarrow> bool" where
  "TrenchFilter f None = False"
| "TrenchFilter None (Some c) = True"
| "TrenchFilter (Some f) (Some c) =
     (let name = (trench_name f = trench_name c) in if trench_name f = [] then True else name)"

fun ConduitFilter :: "Conduit option \<Rightarrow> Conduit option \<Rightarrow> bool" where
  "ConduitFilter f None = False"
| "ConduitFilter None (Some c) = True"
| "ConduitFilter (Some f) (Some c) =
     (let name = (if conduit_name f = [] then True else conduit_name f = conduit_name c);
          parent = (if conduit_trench f = None then True
                    else TrenchFilter (conduit_trench f) (conduit_trench c))
      in name \<and> parent)"

fun StreamFilter :: "Stream option \<Rightarrow> Stream option \<Rightarrow> bool" where
  "StreamFilter f None = False"
| "StreamFilter None (Some c) = True"
| "StreamFilter (Some f) (Some c) =
     (let name = (if stream_name f = [] then True else stream_name f = stream_name c);
          parent = (if stream_conduit f = None then True
                    else ConduitFilter (stream_conduit f) (stream_conduit c))
      in name \<and> parent)"

fun FlowFilter :: "Flow option \<Rightarrow> Flow option \<Rightarrow> bool" where
  "FlowFilter f None = False"
| "FlowFilter None (Some c) = True"
| "FlowFilter (Some f) (Some c) =
     (let name = (if flow_name f = [] then True else flow_name f = flow_name c);
          parent = (if flow_stream f = None then True else StreamFilter (flow_stream f) (flow_stream c))
      in name \<and> parent)"

fun VipFilter :: "Vip option \<Rightarrow> Vip option \<Rightarrow> bool" where
  "VipFilter f None = False"
| "VipFilter None (Some c) = True"
| "VipFilter (Some f) (Some c) =
     (let name = (if vip_name f = [] then True else vip_name f = vip_name c);
          parent = (if vip_trench f = None then True else TrenchFilter (vip_trench f) (vip_trench c))
      in name \<and> parent)"

fun AttractorFilter :: "Attractor option \<Rightarrow> Attractor option \<Rightarrow> bool" where
  "AttractorFilter f None = False"
| "AttractorFilter None (Some c) = True"
| "AttractorFilter (Some f) (Some c) =
     (let name = (if attractor_name f = [] then True else attractor_name f = attractor_name c);
          parent = (if attractor_trench f = None then True
                    else TrenchFilter (attractor_trench f) (attractor_trench c))
      in name \<and> parent)"

fun GatewayFilter :: "Gateway option \<Rightarrow> Gateway option \<Rightarrow> bool" where
  "GatewayFilter f None = False"
| "GatewayFilter None (Some c) = True"
| "GatewayFilter (Some f) (Some c) =
     (let name = (if gateway_name f = [] then True else gateway_name f = gateway_name c);
          parent = (if gateway_trench f = None then True
                    else TrenchFilter (gateway_trench f) (gateway_trench c))
      in name \<and> parent)"

fun TargetFilter :: "Target option \<Rightarrow> Target option \<Rightarrow> bool" where
  "TargetFilter f None = False"
| "TargetFilter None (Some c) = True"
| "TargetFilter (Some f) (Some c) =
     (let status = (if target_status f = ANY then True else target_status f = target_status c);
          stream = (if target_stream f = None then True
                    else StreamFilter (target_stream f) (target_stream c))
      in status \<and> target_type f = target_type c \<and> stream)"

subsection \<open>Equality\<close>

fun trench_Equals :: "Trench option \<Rightarrow> Trench option \<Rightarrow> bool" where
  "trench_Equals (Some t) (Some t2) =
     (if trench_name t \<noteq> [] \<and> trench_name t2 \<noteq> [] then trench_name t = trench_name t2 else True)"
| "trench_Equals _ _ = False"

fun conduit_Equals :: "Conduit option \<Rightarrow> Conduit option \<Rightarrow> bool" where
  "conduit_Equals (Some c) (Some c2) =
     ((if conduit_name c \<noteq> [] \<and> conduit_name c2 \<noteq> [] then conduit_name c = conduit_name c2 else True) \<and>
      trench_Equals (conduit_trench c) (conduit_trench c2))"
| "conduit_Equals _ _ = False"

fun stream_Equals :: "Stream option \<Rightarrow> Stream option \<Rightarrow> bool" where
  "stream_Equals None None = True"
| "stream_Equals (Some s) (Some s2) =
     ((if stream_name s \<noteq> [] \<and> stream_name s2 \<noteq> [] then stream_name s = stream_name s2 else True) \<and>
      conduit_Equals (stream_conduit s) (stream_conduit s2))"
| "stream_Equals _ _ = False"

fun flow_Equals :: "Flow option \<Rightarrow> Flow option \<Rightarrow> bool" where
  "flow_Equals (Some f) (Some f2) =
     ((if flow_name f \<noteq> [] \<and> flow_name f2 \<noteq> [] then flow_name f = flow_name f2 else True) \<and>
      stream_Equals (flow_stream f) (flow_stream f2))"
| "flow_Equals _ _ = False"

fun vip_Equals :: "Vip option \<Rightarrow> Vip option \<Rightarrow> bool" where
  "vip_Equals (Some v) (Some v2) =
     ((if vip_name v \<noteq> [] \<and> vip_name v2 \<noteq> [] then vip_name v = vip_name v2 else True) \<and>
      trench_Equals (vip_trench v) (vip_trench v2))"
| "vip_Equals _ _ = False"

fun attractor_Equals :: "Attractor option \<Rightarrow> Attractor option \<Rightarrow> bool" where
  "attractor_Equals (Some a) (Some a2) =
     ((if attractor_name a \<noteq> [] \<and> attractor_name a2 \<noteq> [] then attractor_name a = attractor_name a2 else True) \<and>
      trench_Equals (attractor_trench a) (attractor_trench a2))"
| "attractor_Equals _ _ = False"

fun gateway_Equals :: "Gateway option \<Rightarrow> Gateway option \<Rightarrow> bool" where
  "gateway_Equals (Some g) (Some g2) =
     ((if gateway_name g \<noteq> [] \<and> gateway_name g2 \<noteq> [] then gateway_name g = gateway_name g2 else True) \<and>
      trench_Equals (gateway_trench g) (gateway_trench g2))"
| "gateway_Equals _ _ = False"

fun target_Equals :: "Target option \<Rightarrow> Target option \<Rightarrow> bool" where
  "target_Equals (Some t) (Some t2) =
     (let status = (if target_status t = ANY \<or> target_status t2 = ANY then True
                    else target_status t = target_status t2);
          stream = (if target_stream t = None \<and> target_stream t2 = None then True
                    else stream_Equals (target_stream t) (target_stream t2))
      in status \<and> target_type t = target_type t2 \<and> stream)"
| "target_Equals _ _ = False"

definition vips_ToSlice :: "Vip list \<Rightarrow> string list" where
  "vips_ToSlice vips = map vip_address vips"

text \<open>\<open>compareSlice\<close>: the map from the items of \<open>b\<close> to "unique to b".\<close>

fun compare_mark :: "string list \<Rightarrow> (string \<rightharpoonup> bool) \<Rightarrow> (string \<rightharpoonup> bool) option" where
  "compare_mark [] m = Some m"
| "compare_mark (item # a) m =
     (case m item of None \<Rightarrow> None | Some _ \<Rightarrow> compare_mark a (m(item \<mapsto> False)))"

definition compareSlice :: "string list \<Rightarrow> string list \<Rightarrow> bool" where
  "compareSlice a b =
     (if length a \<noteq> length b then False
      else if length a = 0 then True
      else let m = foldl (\<lambda>m item. m(item \<mapsto> True)) Map.empty b in
           case compare_mark a m of
             None \<Rightarrow> False
           | Some m \<Rightarrow> \<not> (\<exists>item \<in> set b. m item = Some True))"

definition DeepEquals :: "Flow option \<Rightarrow> Flow option \<Rightarrow> bool" where
  "DeepEquals f f2 =
     (flow_Equals f f2 \<and>
      (case (f, f2) of
         (Some f, Some f2) \<Rightarrow>
           flow_priority f = flow_priority f2 \<and>
           compareSlice (flow_destinationPortRanges f) (flow_destinationPortRanges f2) \<and>
           compareSlice (flow_protocols f) (flow_protocols f2) \<and>
           compareSlice (flow_sourcePortRanges f) (flow_sourcePortRanges f2) \<and>
           compareSlice (flow_sourceSubnets f) (flow_sourceSubnets f2) \<and>
           compareSlice (vips_ToSlice (flow_vips f)) (vips_ToSlice (flow_vips f2)) \<and>
           compareSlice (flow_byteMatches f) (flow_byteMatches f2)
       | _ \<Rightarrow> False))"

subsection \<open>Port NAT\<close>

definition GetNatName :: "PortNat \<Rightarrow> string" where
  "GetNatName pn = show_nat (pn_port pn) @ ''-'' @ show_nat (pn_targetPort pn) @ ''-'' @ pn_protocol pn"

definition PortNatDiff :: "PortNat list \<Rightarrow> PortNat list \<Rightarrow> PortNat list" where
  "PortNatDiff set1 set2 =
     (let set2Map = foldl (\<lambda>m pn. m(GetNatName pn \<mapsto> pn)) Map.empty set2 in
      filter (\<lambda>pn. set2Map (GetNatName pn) = None) set1)"

section \<open>Lemmas\<close>

lemma foldl_update_dom:
  "foldl (\<lambda>m x. m(f x \<mapsto> g x)) m xs k = None \<longleftrightarrow> m k = None \<and> k \<notin> f ` set xs"
  by (induction xs arbitrary: m) auto

lemma compare_mark_Some:
  "compare_mark a m = (if set a \<subseteq> dom m then Some (m ++ (\<lambda>k. if k \<in> set a then Some False else None)) else None)"
proof (induction a arbitrary: m)
  case Nil
  have "m ++ (\<lambda>k. None) = m" by (auto simp: map_add_def)
  then show ?case by simp
next
  case (Cons x a)
  let ?f = "\<lambda>a k. if k \<in> set a then Some False else None"
  have eq: "m(x \<mapsto> False) ++ ?f a = m ++ ?f (x # a)"
    by (auto simp: map_add_def fun_eq_iff)
  show ?case
  proof (cases "m x")
    case None
    then show ?thesis by auto
  next
    case (Some v)
    then have d: "dom (m(x \<mapsto> False)) = dom m" "x \<in> dom m" by auto
    have "compare_mark (x # a) m = compare_mark a (m(x \<mapsto> False))" using Some by simp
    also have "\<dots> = (if set a \<subseteq> dom m then Some (m ++ ?f (x # a)) else None)"
      unfolding Cons d(1) eq ..
    finally show ?thesis using d(2) by simp
  qed
qed

lemma foldl_True: "foldl (\<lambda>m item. m(item \<mapsto> True)) Map.empty b = (\<lambda>k. if k \<in> set b then Some True else None)"
  by (induction b rule: rev_induct) (auto simp: fun_eq_iff)

lemma compareSlice_iff: "compareSlice a b \<longleftrightarrow> length a = length b \<and> set a = set b"
proof (cases "length a \<noteq> length b \<or> a = []")
  case False
  have "dom (\<lambda>k. if k \<in> set b then Some True else None) = set b" by (auto simp: dom_def split: if_splits)
  with False show ?thesis
    by (auto simp: compareSlice_def foldl_True compare_mark_Some map_add_def)
qed (auto simp: compareSlice_def)

lemma show_nat_dash_eq:
  assumes "show_nat a @ CHR ''-'' # x = show_nat b @ CHR ''-'' # y"
  shows "a = b \<and> x = y"
proof -
  have "takeWhile (\<lambda>c. c \<noteq> CHR ''-'') (show_nat n @ CHR ''-'' # z) = show_nat n" for n z
    using show_nat_chars(4) [of n] by (subst takeWhile_append2) auto
  then have "show_nat a = show_nat b" by (metis assms)
  with assms show ?thesis using show_nat_inj by simp
qed


lemma GetNatName_inj:
  "GetNatName p = GetNatName q \<longleftrightarrow>
     pn_port p = pn_port q \<and> pn_targetPort p = pn_targetPort q \<and> pn_protocol p = pn_protocol q"
proof
  assume "GetNatName p = GetNatName q"
  then have "pn_port p = pn_port q"
      "show_nat (pn_targetPort p) @ CHR ''-'' # pn_protocol p = show_nat (pn_targetPort q) @ CHR ''-'' # pn_protocol q"
    using show_nat_dash_eq [of "pn_port p" "show_nat (pn_targetPort p) @ CHR ''-'' # pn_protocol p" "pn_port q"]
    by (simp_all add: GetNatName_def)
  with show_nat_dash_eq show "pn_port p = pn_port q \<and> pn_targetPort p = pn_targetPort q \<and> pn_protocol p = pn_protocol q"
    by blast
qed (simp add: GetNatName_def)

text \<open>A stream message that names its conduit and its trench, and the names it holds.\<close>

definition stream_path :: "Stream \<Rightarrow> (string \<times> string \<times> string) option" where
  "stream_path s =
     (case stream_conduit s of None \<Rightarrow> None
      | Some c \<Rightarrow> (case conduit_trench c of None \<Rightarrow> None
                  | Some t \<Rightarrow> if stream_name s = [] \<or> conduit_name c = [] \<or> trench_name t = [] then None
                              else Some (stream_name s, conduit_name c, trench_name t)))"

lemma stream_filter_path:
  assumes "stream_path f = Some p" "stream_path s = Some q"
  shows "StreamFilter (Some f) (Some s) \<longleftrightarrow> p = q" "stream_Equals (Some f) (Some s) \<longleftrightarrow> p = q"
  using assms by (auto simp: stream_path_def Let_def split: option.splits if_splits)

section \<open>Properties\<close>

text \<open>
  A filter that names a stream completely selects exactly the targets of
  that stream with the filter's type and, unless the filter says ANY, the filter's status.
\<close>

theorem target_filter_exact:
  assumes "target_stream f = Some sf" "stream_path sf = Some p"
    and "target_stream t = Some s" "stream_path s = Some q"
  shows "TargetFilter (Some f) (Some t) \<longleftrightarrow>
    p = q \<and> target_type f = target_type t \<and> (target_status f = ANY \<or> target_status f = target_status t)"
  using assms stream_filter_path(1) by auto

theorem target_filter_exact_witness:
  "let s = \<lparr>stream_name = ''s'', stream_conduit = Some \<lparr>conduit_name = ''c'',
             conduit_trench = Some \<lparr>trench_name = ''t''\<rparr>, conduit_portNats = []\<rparr>, stream_maxTargets = 0\<rparr>;
       t = \<lparr>target_ips = [], target_context = Map.empty, target_status = DISABLED, target_type = DEFAULT,
            target_stream = Some s\<rparr>
   in TargetFilter (Some (t\<lparr>target_status := ANY\<rparr>)) (Some t) \<and> \<not> TargetFilter (Some (t\<lparr>target_status := ENABLED\<rparr>)) (Some t)"
proof -
  define s :: Stream where "s = \<lparr>stream_name = ''s'', stream_conduit = Some \<lparr>conduit_name = ''c'',
      conduit_trench = Some \<lparr>trench_name = ''t''\<rparr>, conduit_portNats = []\<rparr>, stream_maxTargets = 0\<rparr>"
  define t :: Target where "t = \<lparr>target_ips = [], target_context = Map.empty, target_status = DISABLED,
      target_type = DEFAULT, target_stream = Some s\<rparr>"
  have p: "stream_path s = Some (''s'', ''c'', ''t'')" by (simp add: s_def stream_path_def)
  have t: "target_stream t = Some s" "target_stream (t\<lparr>target_status := x\<rparr>) = Some s" for x by (simp_all add: t_def)
  show ?thesis
    using target_filter_exact [OF t(2) p t(1) p, of ANY] target_filter_exact [OF t(2) p t(1) p, of ENABLED]
    by (simp add: Let_def t_def s_def)
qed

text \<open>
  \<open>compareSlice\<close>, with which \<open>Flow.DeepEquals\<close> decides whether a flow has changed,
  is true exactly when the slices have the same length and the same set of items, as its comment
  says.
\<close>

theorem deep_equals_sets: "compareSlice a b \<longleftrightarrow> length a = length b \<and> set a = set b"
  by (rule compareSlice_iff)

text \<open>
  \<open>PortNatDiff\<close> returns exactly the entries of the first list for which the second
  one has no entry with the same port, target port and protocol: the printed key keeps the three
  fields apart.
\<close>

theorem port_nat_diff:
  "set (PortNatDiff set1 set2) = {p \<in> set set1. \<not> (\<exists>q \<in> set set2.
     pn_port p = pn_port q \<and> pn_targetPort p = pn_targetPort q \<and> pn_protocol p = pn_protocol q)}"
  by (auto simp: PortNatDiff_def foldl_update_dom GetNatName_inj image_iff)

end
