(* ===== verification/LbIdentifier.thy ===== *)
theory LbIdentifier
  imports NspApi
begin

text \<open>
  The generator of identifier offsets of the stateless load balancer
  (\<open>cmd/stateless-lb/identifier.go\<close>). A stream with offset \<open>o\<close> owns the numbers from \<open>o\<close> to
  \<open>o + MaxTargets - 1\<close>. The map of the generator is a list of its entries; every \<open>range\<close> over it
  visits the entries in the order that the argument \<open>ord\<close> chooses for that loop. The type \<open>int\<close>
  of Go has 64 bits: \<open>wrap_int\<close> is applied after every operation.
\<close>

section \<open>Definitions\<close>

definition max_int :: int where
  "max_int = 2 ^ 63 - 1"

definition wrap_int :: "int \<Rightarrow> int" where
  "wrap_int i = (i + 2 ^ 63) mod 2 ^ 64 - 2 ^ 63"

record IdentifierOffsetGenerator =
  iog_Start :: int
  iog_Streams :: "(Stream \<times> int) list"

type_synonym iog_order = "nat \<Rightarrow> (Stream \<times> int) list \<Rightarrow> (Stream \<times> int) list"

definition NewIdentifierOffsetGenerator :: "int \<Rightarrow> IdentifierOffsetGenerator" where
  "NewIdentifierOffsetGenerator start = \<lparr>iog_Start = start, iog_Streams = []\<rparr>"

definition iog_get :: "iog_order \<Rightarrow> Stream \<Rightarrow> IdentifierOffsetGenerator \<Rightarrow> int option" where
  "iog_get ord stream iog =
     map_option snd (find (\<lambda>(s, os). stream_name stream = stream_name s) (ord 0 (iog_Streams iog)))"

text \<open>The test of the inner loop, with the ends of both ranges computed as in the code.\<close>

definition ranges_overlap :: "nat \<Rightarrow> int \<Rightarrow> Stream \<times> int \<Rightarrow> bool" where
  "ranges_overlap maxTargets offset e =
     (let sStart = snd e;
          sEnd = wrap_int (wrap_int (snd e + int (stream_maxTargets (fst e))) - 1);
          streamStart = offset;
          streamEnd = wrap_int (wrap_int (offset + int maxTargets) - 1)
      in streamStart \<le> sEnd \<and> streamEnd \<ge> sStart)"

text \<open>The loop labelled \<open>search\<close>: the result \<open>Some None\<close> is the error return, \<open>None\<close> a loop that
  does not end.\<close>

partial_function (option) iog_search ::
  "iog_order \<Rightarrow> nat \<Rightarrow> (Stream \<times> int) list \<Rightarrow> nat \<Rightarrow> int \<Rightarrow> int option option" where
  "iog_search ord n streams maxTargets offset =
     (if offset \<ge> wrap_int (wrap_int (max_int - int maxTargets) + 1) then Some None
      else (case find (ranges_overlap maxTargets offset) (ord n streams) of
              None \<Rightarrow> Some (Some offset)
            | Some e \<Rightarrow> iog_search ord (Suc n) streams maxTargets
                          (wrap_int (snd e + int (stream_maxTargets (fst e))))))"

definition Generate ::
  "iog_order \<Rightarrow> Stream \<Rightarrow> IdentifierOffsetGenerator \<Rightarrow> (int option \<times> IdentifierOffsetGenerator) option" where
  "Generate ord stream iog =
     (case iog_get ord stream iog of
        Some offset \<Rightarrow> Some (Some offset, iog)
      | None \<Rightarrow>
          (case iog_search ord 1 (iog_Streams iog) (stream_maxTargets stream) (iog_Start iog) of
             None \<Rightarrow> None
           | Some None \<Rightarrow> Some (None, iog)
           | Some (Some offset) \<Rightarrow>
               Some (Some offset, iog\<lparr>iog_Streams := iog_Streams iog @ [(stream, offset)]\<rparr>)))"

definition iog_Release :: "iog_order \<Rightarrow> string \<Rightarrow> IdentifierOffsetGenerator \<Rightarrow> IdentifierOffsetGenerator" where
  "iog_Release ord streamName iog =
     (case find (\<lambda>(s, os). streamName = stream_name s) (ord 0 (iog_Streams iog)) of
        None \<Rightarrow> iog
      | Some e \<Rightarrow> iog\<lparr>iog_Streams := remove1 e (iog_Streams iog)\<rparr>)"

text \<open>What the proofs are about: every loop visits all entries, in any order; the ranges of the
  entries are disjoint and end below the largest integer.\<close>

definition visits_all :: "iog_order \<Rightarrow> bool" where
  "visits_all ord \<longleftrightarrow> (\<forall>n xs. set (ord n xs) = set xs)"

definition owned :: "Stream \<times> int \<Rightarrow> int set" where
  "owned e = {snd e ..< snd e + int (stream_maxTargets (fst e))}"

definition iog_inv :: "IdentifierOffsetGenerator \<Rightarrow> bool" where
  "iog_inv iog \<longleftrightarrow> - (2 ^ 63) \<le> iog_Start iog \<and> iog_Start iog \<le> max_int \<and>
     (\<forall>e \<in> set (iog_Streams iog). 0 < stream_maxTargets (fst e) \<and> iog_Start iog \<le> snd e \<and>
        snd e + int (stream_maxTargets (fst e)) \<le> max_int) \<and>
     distinct (map (stream_name \<circ> fst) (iog_Streams iog)) \<and>
     (\<forall>e \<in> set (iog_Streams iog). \<forall>f \<in> set (iog_Streams iog). e = f \<or> owned e \<inter> owned f = {})"

definition iog_names :: "IdentifierOffsetGenerator \<Rightarrow> string set" where
  "iog_names iog = (stream_name \<circ> fst) ` set (iog_Streams iog)"

definition free_at :: "IdentifierOffsetGenerator \<Rightarrow> nat \<Rightarrow> int \<Rightarrow> bool" where
  "free_at iog m p \<longleftrightarrow> iog_Start iog \<le> p \<and> p + int m \<le> max_int \<and>
     (\<forall>e \<in> set (iog_Streams iog). owned e \<inter> {p ..< p + int m} = {})"

inductive iog_reach :: "int \<Rightarrow> IdentifierOffsetGenerator \<Rightarrow> bool" for start where
  new: "iog_reach start (NewIdentifierOffsetGenerator start)"
| generate: "iog_reach start iog \<Longrightarrow> visits_all ord \<Longrightarrow> stream_maxTargets stream < 2 ^ 32 \<Longrightarrow>
    Generate ord stream iog = Some (r, iog') \<Longrightarrow> iog_reach start iog'"
| release: "iog_reach start iog \<Longrightarrow> visits_all ord \<Longrightarrow> iog_reach start (iog_Release ord name iog)"

section \<open>Lemmas\<close>

lemma wrap_int_id: "- (2 ^ 63) \<le> i \<Longrightarrow> i \<le> max_int \<Longrightarrow> wrap_int i = i"
  by (simp add: wrap_int_def max_int_def)

lemma guard_value:
  "m < 2 ^ 32 \<Longrightarrow> wrap_int (wrap_int (max_int - int m) + 1) = (if m = 0 then - (2 ^ 63) else max_int - int m + 1)"
  by (cases "m = 0") (simp add: wrap_int_def max_int_def, simp add: wrap_int_id max_int_def)

lemma ranges_overlap_iff:
  assumes "0 < m" "- (2 ^ 63) \<le> offset" "offset + int m \<le> max_int" "- (2 ^ 63) \<le> snd e"
    "0 < stream_maxTargets (fst e)" "snd e + int (stream_maxTargets (fst e)) \<le> max_int"
  shows "ranges_overlap m offset e \<longleftrightarrow> owned e \<inter> {offset ..< offset + int m} \<noteq> {}"
proof -
  have "wrap_int (wrap_int (snd e + int (stream_maxTargets (fst e))) - 1) = snd e + int (stream_maxTargets (fst e)) - 1"
    "wrap_int (wrap_int (offset + int m) - 1) = offset + int m - 1"
    using assms by (simp_all add: wrap_int_id)
  then show ?thesis
    using assms by (auto simp: ranges_overlap_def owned_def Let_def Int_atLeastLessThan)
qed

lemma find_SomeD: "find P xs = Some x \<Longrightarrow> x \<in> set xs \<and> P x"
  by (auto simp: find_Some_iff in_set_conv_nth)

lemma find_NoneD: "find P xs = None \<Longrightarrow> x \<in> set xs \<Longrightarrow> \<not> P x"
  by (auto simp: find_None_iff)

text \<open>The search returns: an error only when no free range remains, else the least free offset.\<close>

lemma search_spec:
  assumes "iog_inv iog" "visits_all ord" "0 < m" "m < 2 ^ 32" "iog_Start iog \<le> offset" "offset \<le> max_int"
    "\<And>p. free_at iog m p \<Longrightarrow> offset \<le> p"
  shows "(\<exists>p. iog_search ord n (iog_Streams iog) m offset = Some (Some p) \<and> free_at iog m p \<and>
            (\<forall>q. free_at iog m q \<longrightarrow> p \<le> q)) \<or>
         (iog_search ord n (iog_Streams iog) m offset = Some None \<and> (\<forall>q. \<not> free_at iog m q))"
  using assms(5-7)
proof (induction "nat (max_int - offset)" arbitrary: offset n rule: less_induct)
  case less
  have s0: "- (2 ^ 63) \<le> iog_Start iog" using assms(1) by (simp add: iog_inv_def)
  show ?case
  proof (cases "offset \<ge> max_int - int m + 1")
    case True
    then have "\<not> free_at iog m q" for q
      using less.prems(3)[of q] by (auto simp: free_at_def)
    then show ?thesis
      using True assms(3,4) by (subst (1 2) iog_search.simps) (simp add: guard_value)
  next
    case False
    note room = this
    show ?thesis
    proof (cases "find (ranges_overlap m offset) (ord n (iog_Streams iog))")
      case None
      have "owned e \<inter> {offset ..< offset + int m} = {}" if "e \<in> set (iog_Streams iog)" for e
      proof -
        have "\<not> ranges_overlap m offset e"
          using find_NoneD [OF None] that assms(2) by (auto simp: visits_all_def)
        with that show ?thesis
          using assms(1,3) s0 less.prems(1) room
          by (subst (asm) ranges_overlap_iff) (auto simp: iog_inv_def)
      qed
      then have "free_at iog m offset"
        using less.prems(1) room by (auto simp: free_at_def)
      then show ?thesis
        using None room assms(3,4) less.prems(3)
        by (subst (1 2) iog_search.simps) (auto simp: guard_value)
    next
      case (Some e)
      let ?next = "snd e + int (stream_maxTargets (fst e))"
      have e: "e \<in> set (iog_Streams iog)" "ranges_overlap m offset e"
        using find_SomeD [OF Some] assms(2) by (auto simp: visits_all_def)
      then have b: "0 < stream_maxTargets (fst e)" "iog_Start iog \<le> snd e" "?next \<le> max_int"
        using assms(1) by (auto simp: iog_inv_def)
      then have ov: "owned e \<inter> {offset ..< offset + int m} \<noteq> {}"
        using e(2) assms(3) s0 less.prems(1) room by (subst (asm) ranges_overlap_iff) auto
      then have inc: "offset < ?next" by (auto simp: owned_def)
      have wr: "wrap_int ?next = ?next" using b s0 by (simp add: wrap_int_id)
      have least: "?next \<le> p" if p: "free_at iog m p" for p
      proof (rule ccontr)
        assume "\<not> ?next \<le> p"
        moreover have "offset \<le> p" using less.prems(3)[OF p] .
        moreover have "owned e \<inter> {p ..< p + int m} = {}" using p e(1) by (simp add: free_at_def)
        ultimately show False
          using ov assms(3) b(1) by (auto simp: owned_def Int_atLeastLessThan)
      qed
      have "nat (max_int - ?next) < nat (max_int - offset)" using inc b(3) by simp
      moreover have "iog_Start iog \<le> ?next" using b by simp
      ultimately have "(\<exists>p. iog_search ord (Suc n) (iog_Streams iog) m ?next = Some (Some p) \<and> free_at iog m p \<and>
              (\<forall>q. free_at iog m q \<longrightarrow> p \<le> q)) \<or>
           (iog_search ord (Suc n) (iog_Streams iog) m ?next = Some None \<and> (\<forall>q. \<not> free_at iog m q))"
        using less.hyps [OF _ _ b(3) least] by blast
      then show ?thesis
        using Some room assms(3,4) wr by (subst (1 2) iog_search.simps) (simp add: guard_value)
    qed
  qed
qed


lemma search_zero: "iog_inv iog \<Longrightarrow> iog_search ord n (iog_Streams iog) 0 (iog_Start iog) = Some None"
  by (subst iog_search.simps) (simp add: guard_value [of 0, simplified] iog_inv_def)

lemma get_None:
  "visits_all ord \<Longrightarrow> iog_get ord stream iog = None \<longleftrightarrow> stream_name stream \<notin> iog_names iog"
  by (force simp: iog_get_def find_None_iff visits_all_def image_iff iog_names_def)

lemma get_Some:
  "visits_all ord \<Longrightarrow> iog_get ord stream iog = Some offset \<Longrightarrow>
     \<exists>s. (s, offset) \<in> set (iog_Streams iog) \<and> stream_name s = stream_name stream"
  by (auto simp: iog_get_def visits_all_def dest!: find_SomeD)

lemma generate_new:
  assumes "iog_inv iog" "visits_all ord" "stream_maxTargets stream < 2 ^ 32"
    "stream_name stream \<notin> iog_names iog"
  obtains p where "Generate ord stream iog = Some (Some p, iog\<lparr>iog_Streams := iog_Streams iog @ [(stream, p)]\<rparr>)"
      "0 < stream_maxTargets stream" "free_at iog (stream_maxTargets stream) p"
      "\<forall>q. free_at iog (stream_maxTargets stream) q \<longrightarrow> p \<le> q"
    | "Generate ord stream iog = Some (None, iog)"
      "stream_maxTargets stream = 0 \<or> (\<forall>q. \<not> free_at iog (stream_maxTargets stream) q)"
proof (cases "stream_maxTargets stream = 0")
  case True
  then show ?thesis
    using that(2) assms(1,2,4) by (simp add: Generate_def get_None [THEN iffD2] search_zero)
next
  case False
  have "iog_Start iog \<le> max_int" using assms(1) by (simp add: iog_inv_def)
  then consider p where "iog_search ord 1 (iog_Streams iog) (stream_maxTargets stream) (iog_Start iog) = Some (Some p)"
      "free_at iog (stream_maxTargets stream) p" "\<forall>q. free_at iog (stream_maxTargets stream) q \<longrightarrow> p \<le> q"
    | "iog_search ord 1 (iog_Streams iog) (stream_maxTargets stream) (iog_Start iog) = Some None"
      "\<forall>q. \<not> free_at iog (stream_maxTargets stream) q"
    using search_spec [OF assms(1,2) _ assms(3) order_refl, of 1] False by (auto simp: free_at_def)
  moreover have "iog_get ord stream iog = None" using assms by (simp add: get_None)
  ultimately show ?thesis
    using that False by cases (simp_all add: Generate_def)
qed

lemma generate_known:
  assumes "visits_all ord" "stream_name stream \<in> iog_names iog"
  obtains offset where "Generate ord stream iog = Some (Some offset, iog)"
proof (cases "iog_get ord stream iog")
  case None
  then show ?thesis using assms get_None by blast
next
  case (Some a)
  then show ?thesis using that by (simp add: Generate_def)
qed

lemma free_inv:
  assumes "iog_inv iog" "free_at iog (stream_maxTargets stream) p" "0 < stream_maxTargets stream"
    "stream_name stream \<notin> iog_names iog"
  shows "iog_inv (iog\<lparr>iog_Streams := iog_Streams iog @ [(stream, p)]\<rparr>)"
proof -
  have "owned (stream, p) = {p ..< p + int (stream_maxTargets stream)}" by (simp add: owned_def)
  then have "owned e \<inter> owned (stream, p) = {}" "owned (stream, p) \<inter> owned e = {}"
    if "e \<in> set (iog_Streams iog)" for e
    using assms(2) that by (auto simp: free_at_def)
  with assms show ?thesis by (auto simp: iog_inv_def free_at_def iog_names_def)
qed

lemma generate_inv:
  assumes "iog_inv iog" "visits_all ord" "stream_maxTargets stream < 2 ^ 32" "Generate ord stream iog = Some (r, iog')"
  shows "iog_inv iog'"
proof (cases "stream_name stream \<in> iog_names iog")
  case True
  show ?thesis
    by (rule generate_known [OF assms(2) True]) (use assms(1,4) in simp)
next
  case False
  show ?thesis
  proof (rule generate_new [OF assms(1-3) False])
    fix p
    assume "Generate ord stream iog = Some (Some p, iog\<lparr>iog_Streams := iog_Streams iog @ [(stream, p)]\<rparr>)"
      "0 < stream_maxTargets stream" "free_at iog (stream_maxTargets stream) p"
    then show ?thesis using free_inv [OF assms(1) _ _ False] assms(4) by simp
  next
    assume "Generate ord stream iog = Some (None, iog)"
    then show ?thesis using assms(1,4) by simp
  qed
qed

lemma distinct_map_remove1: "distinct (map f xs) \<Longrightarrow> distinct (map f (remove1 x xs))"
proof (induction xs)
  case (Cons a xs)
  have "f a \<notin> f ` set (remove1 x xs)" using Cons.prems set_remove1_subset [of x xs] by auto
  with Cons show ?case by simp
qed simp

lemma release_inv:
  assumes "iog_inv iog"
  shows "iog_inv (iog_Release ord name iog)"
proof (cases "find (\<lambda>(s, os). name = stream_name s) (ord 0 (iog_Streams iog))")
  case None
  then show ?thesis using assms by (simp add: iog_Release_def)
next
  case (Some e)
  have d: "distinct (map (stream_name \<circ> fst) (remove1 e (iog_Streams iog)))"
    using assms by (intro distinct_map_remove1) (simp add: iog_inv_def)
  have sub: "x \<in> set (iog_Streams iog)" if "x \<in> set (remove1 e (iog_Streams iog))" for x
    using that set_remove1_subset by (rule subsetD [rotated])
  show ?thesis
    unfolding iog_Release_def Some iog_inv_def using d assms sub by (simp add: iog_inv_def)
qed

lemma iog_reach_inv:
  assumes "iog_reach start iog" "- (2 ^ 63) \<le> start" "start \<le> max_int"
  shows "iog_inv iog \<and> iog_Start iog = start"
  using assms
proof (induction rule: iog_reach.induct)
  case new
  then show ?case by (simp add: iog_inv_def NewIdentifierOffsetGenerator_def)
next
  case (generate iog ord stream r iog')
  then have "iog_Start iog' = iog_Start iog"
    by (auto simp: Generate_def split: option.splits)
  with generate show ?case using generate_inv by blast
next
  case (release iog ord name)
  then show ?case using release_inv by (auto simp: iog_Release_def split: option.splits)
qed


section \<open>Properties\<close>



text \<open>
  C14: in every reachable state \<open>Generate\<close> of a stream that is not registered returns. It
  gives the least offset at or after the start whose range is free of all registered ranges and
  fits below the largest integer, and records it; it reports an error, and records nothing,
  exactly when there is no such offset or \<open>MaxTargets\<close> is 0 (for which the bound of the test
  overflows).
\<close>

theorem generate_least:
  assumes "iog_reach start iog" "- (2 ^ 63) \<le> start" "start \<le> max_int" "visits_all ord"
    "stream_maxTargets stream < 2 ^ 32" "stream_name stream \<notin> iog_names iog"
  shows "(\<exists>p. Generate ord stream iog = Some (Some p, iog\<lparr>iog_Streams := iog_Streams iog @ [(stream, p)]\<rparr>) \<and>
            0 < stream_maxTargets stream \<and> free_at iog (stream_maxTargets stream) p \<and>
            (\<forall>q. free_at iog (stream_maxTargets stream) q \<longrightarrow> p \<le> q)) \<or>
         (Generate ord stream iog = Some (None, iog) \<and>
            (stream_maxTargets stream = 0 \<or> (\<forall>q. \<not> free_at iog (stream_maxTargets stream) q)))"
  using generate_new [OF conjunct1 [OF iog_reach_inv [OF assms(1-3)]] assms(4-6)] by metis

theorem generate_least_witness:
  "Generate (\<lambda>_ xs. xs) \<lparr>stream_name = ''a'', stream_conduit = None, stream_maxTargets = 0\<rparr>
     (NewIdentifierOffsetGenerator 5000) = Some (None, NewIdentifierOffsetGenerator 5000)"
  using generate_least [OF iog_reach.new [of 5000], of "\<lambda>_ xs. xs"
      "\<lparr>stream_name = ''a'', stream_conduit = None, stream_maxTargets = 0\<rparr>"]
  by (simp add: max_int_def visits_all_def NewIdentifierOffsetGenerator_def iog_names_def)

end
