(* ===== verification/LbAvailability.thy ===== *)
theory LbAvailability
  imports NspApi
begin

text \<open>
  The forwarding availability service of the load balancer
  (\<open>pkg/loadbalancer/stream/availability.go\<close>): streams register a forwarding path while they have
  targets, and \<open>Watch\<close> tells its client whether there is any path. \<open>Register\<close>, \<open>Unregister\<close> and the
  locked part of \<open>Stop\<close> run under the mutex and are one step each. A call of \<open>Watch\<close> is a small
  state machine: its position in the code is the program counter of the watcher, and its channel
  holds at most one event. The stop goroutines are threads of their own.
\<close>

section \<open>Definitions\<close>

record LbTarget =
  lbt_context :: "string \<rightharpoonup> string"
  lbt_stream :: "Stream option"

text \<open>An event is a fresh feedback channel: one that nobody reads (\<open>update\<close>) or the one that a
  stop goroutine waits on.\<close>

datatype fas_event = UpdateEvent | StopEvent

datatype watch_pc = Starting | SendInitial LbTarget | Listening | GotEvent fas_event | SendUpdate fas_event LbTarget

datatype stop_pc = StopSending | StopWaiting | StopTimedOut

record fas_watcher =
  updateCh :: "fas_event list"
  watch_at :: watch_pc
  lastSentTarget :: "LbTarget option"
  watch_sent :: "LbTarget list"

record ForwardingAvailabilityService =
  fas_done :: bool
  forwardingPlane :: "string set option"
  fas_target :: LbTarget
  unavailableTarget :: LbTarget
  watchStream :: "nat \<rightharpoonup> fas_watcher"
  stop_threads :: "nat \<rightharpoonup> stop_pc"

definition NewForwardingAvailabilityService :: "LbTarget \<Rightarrow> ForwardingAvailabilityService" where
  "NewForwardingAvailabilityService target =
     \<lparr>fas_done = False, forwardingPlane = Some {}, fas_target = target,
      unavailableTarget = \<lparr>lbt_context = Map.empty, lbt_stream = None\<rparr>,
      watchStream = Map.empty, stop_threads = Map.empty\<rparr>"

text \<open>\<open>update\<close>: each goroutine puts an event into the channel unless it is full; once the context
  is done the select may choose that case instead, for the watchers in \<open>skip\<close>.\<close>

definition fas_update :: "nat set \<Rightarrow> ForwardingAvailabilityService \<Rightarrow> ForwardingAvailabilityService" where
  "fas_update skip fas = fas\<lparr>watchStream := (\<lambda>w. map_option
     (\<lambda>x. if fas_done fas \<and> w \<in> skip then x
          else if updateCh x = [] then x\<lparr>updateCh := [UpdateEvent]\<rparr> else x) (watchStream fas w))\<rparr>"

definition fas_Register :: "nat set \<Rightarrow> string \<Rightarrow> ForwardingAvailabilityService \<Rightarrow> ForwardingAvailabilityService" where
  "fas_Register skip name fas =
     (case forwardingPlane fas of
        None \<Rightarrow> fas
      | Some plane \<Rightarrow>
          if name \<in> plane then fas
          else (if plane = {} then fas_update skip fas else fas)\<lparr>forwardingPlane := Some (insert name plane)\<rparr>)"

definition fas_Unregister :: "nat set \<Rightarrow> string \<Rightarrow> ForwardingAvailabilityService \<Rightarrow> ForwardingAvailabilityService" where
  "fas_Unregister skip name fas =
     (case forwardingPlane fas of
        None \<Rightarrow> fas
      | Some plane \<Rightarrow>
          (let fas' = fas\<lparr>forwardingPlane := Some (plane - {name})\<rparr>
           in if plane - {name} = {} then fas_update skip fas' else fas'))"

text \<open>\<open>Stop\<close> up to the release of the locks: no path any more, one goroutine for each watcher.\<close>

definition fas_Stop :: "ForwardingAvailabilityService \<Rightarrow> ForwardingAvailabilityService" where
  "fas_Stop fas =
     (case forwardingPlane fas of
        None \<Rightarrow> fas
      | Some _ \<Rightarrow> fas\<lparr>forwardingPlane := None, stop_threads := (\<lambda>w. map_option (\<lambda>_. StopSending) (watchStream fas w))\<rparr>)"

definition coreGetTarget :: "ForwardingAvailabilityService \<Rightarrow> LbTarget" where
  "coreGetTarget fas = (if forwardingPlane fas \<in> {None, Some {}} then unavailableTarget fas else fas_target fas)"

text \<open>The goroutine of \<open>Stop\<close> for watcher \<open>w\<close>: it sends when the channel has room, or gives up after
  two seconds.\<close>

definition stop_send :: "nat \<Rightarrow> ForwardingAvailabilityService \<Rightarrow> ForwardingAvailabilityService option" where
  "stop_send w fas =
     (case (stop_threads fas w, watchStream fas w) of
        (Some StopSending, Some x) \<Rightarrow>
          if updateCh x = [] then
            Some (fas\<lparr>watchStream := (watchStream fas)(w \<mapsto> x\<lparr>updateCh := [StopEvent]\<rparr>),
                      stop_threads := (stop_threads fas)(w \<mapsto> StopWaiting)\<rparr>)
          else None
      | _ \<Rightarrow> None)"

definition stop_timeout :: "nat \<Rightarrow> ForwardingAvailabilityService \<Rightarrow> ForwardingAvailabilityService option" where
  "stop_timeout w fas =
     (if stop_threads fas w = None then None
      else Some (fas\<lparr>stop_threads := (stop_threads fas)(w \<mapsto> StopTimedOut)\<rparr>))"

text \<open>\<open>Watch\<close>, from one blocking point to the next. \<open>ok\<close> says whether \<open>Send\<close> succeeds.\<close>

definition Watch_start :: "nat \<Rightarrow> ForwardingAvailabilityService \<Rightarrow> ForwardingAvailabilityService" where
  "Watch_start w fas = fas\<lparr>watchStream := (watchStream fas)
     (w \<mapsto> \<lparr>updateCh = [], watch_at = Starting, lastSentTarget = None, watch_sent = []\<rparr>)\<rparr>"

definition close_feedback :: "fas_event \<Rightarrow> nat \<Rightarrow> ForwardingAvailabilityService \<Rightarrow> ForwardingAvailabilityService" where
  "close_feedback e w fas = (case e of UpdateEvent \<Rightarrow> fas
     | StopEvent \<Rightarrow> if stop_threads fas w = Some StopWaiting
                   then fas\<lparr>stop_threads := (stop_threads fas)(w := None)\<rparr> else fas)"

definition Watch_next :: "bool \<Rightarrow> nat \<Rightarrow> ForwardingAvailabilityService \<Rightarrow> ForwardingAvailabilityService option" where
  "Watch_next ok w fas =
     (case watchStream fas w of
        None \<Rightarrow> None
      | Some x \<Rightarrow>
          (let put = (\<lambda>y. fas\<lparr>watchStream := (watchStream fas)(w \<mapsto> y)\<rparr>);
               quit = fas\<lparr>watchStream := (watchStream fas)(w := None)\<rparr>
           in case watch_at x of
                Starting \<Rightarrow> Some (put (x\<lparr>watch_at := SendInitial (coreGetTarget fas)\<rparr>))
              | SendInitial t \<Rightarrow>
                  Some (if ok then put (x\<lparr>watch_at := Listening, lastSentTarget := Some t, watch_sent := watch_sent x @ [t]\<rparr>)
                        else quit)
              | Listening \<Rightarrow>
                  (case updateCh x of
                     [] \<Rightarrow> None
                   | e # r \<Rightarrow> Some (put (x\<lparr>watch_at := GotEvent e, updateCh := r\<rparr>)))
              | GotEvent e \<Rightarrow> Some (put (x\<lparr>watch_at := SendUpdate e (coreGetTarget fas)\<rparr>))
              | SendUpdate e t \<Rightarrow>
                  Some (close_feedback e w
                    (if lastSentTarget x = Some t then put (x\<lparr>watch_at := Listening\<rparr>)
                     else if ok then put (x\<lparr>watch_at := Listening, lastSentTarget := Some t, watch_sent := watch_sent x @ [t]\<rparr>)
                     else quit))))"

definition Watch_close :: "nat \<Rightarrow> ForwardingAvailabilityService \<Rightarrow> ForwardingAvailabilityService option" where
  "Watch_close w fas =
     (case watchStream fas w of
        None \<Rightarrow> None
      | Some x \<Rightarrow> if watch_at x = Listening then Some (fas\<lparr>watchStream := (watchStream fas)(w := None)\<rparr>) else None)"

inductive fas_step :: "ForwardingAvailabilityService \<Rightarrow> ForwardingAvailabilityService \<Rightarrow> bool" where
  register: "fas_step fas (fas_Register skip name fas)"
| unregister: "fas_step fas (fas_Unregister skip name fas)"
| stop: "fas_step fas (fas_Stop fas)"
| stop_sent: "stop_send w fas = Some fas' \<Longrightarrow> fas_step fas fas'"
| stop_timed_out: "stop_timeout w fas = Some fas' \<Longrightarrow> fas_step fas fas'"
| start: "watchStream fas w = None \<Longrightarrow> stop_threads fas w = None \<Longrightarrow> fas_step fas (Watch_start w fas)"
| watch: "Watch_next ok w fas = Some fas' \<Longrightarrow> fas_step fas fas'"
| closed: "Watch_close w fas = Some fas' \<Longrightarrow> fas_step fas fas'"
| ctx_done: "fas_step fas (fas\<lparr>fas_done := True\<rparr>)"

inductive fas_reach :: "LbTarget \<Rightarrow> ForwardingAvailabilityService \<Rightarrow> bool" for target where
  init: "fas_reach target (NewForwardingAvailabilityService target)"
| step: "fas_reach target fas \<Longrightarrow> fas_step fas fas' \<Longrightarrow> fas_reach target fas'"

text \<open>The invariant: unless an event is on its way, what the watcher holds is the current target.\<close>

definition on_its_way :: "nat \<Rightarrow> ForwardingAvailabilityService \<Rightarrow> fas_watcher \<Rightarrow> bool" where
  "on_its_way w fas x \<longleftrightarrow> fas_done fas \<or> updateCh x \<noteq> [] \<or> stop_threads fas w \<in> {Some StopSending, Some StopTimedOut}"

definition holds_current :: "ForwardingAvailabilityService \<Rightarrow> fas_watcher \<Rightarrow> bool" where
  "holds_current fas x = (case watch_at x of
     Starting \<Rightarrow> True
   | SendInitial t \<Rightarrow> t = coreGetTarget fas
   | Listening \<Rightarrow> lastSentTarget x = Some (coreGetTarget fas)
   | GotEvent e \<Rightarrow> True
   | SendUpdate e t \<Rightarrow> t = coreGetTarget fas)"

definition watcher_inv :: "nat \<Rightarrow> ForwardingAvailabilityService \<Rightarrow> fas_watcher \<Rightarrow> bool" where
  "watcher_inv w fas x \<longleftrightarrow>
     (on_its_way w fas x \<or> holds_current fas x) \<and>
     lastSentTarget x = (if watch_sent x = [] then None else Some (last (watch_sent x))) \<and>
     ((watch_at x = Starting \<or> (\<exists>t. watch_at x = SendInitial t)) \<longleftrightarrow> watch_sent x = []) \<and>
     distinct_adj (watch_sent x)"

definition fas_inv :: "ForwardingAvailabilityService \<Rightarrow> bool" where
  "fas_inv fas \<longleftrightarrow> (\<forall>w x. watchStream fas w = Some x \<longrightarrow> watcher_inv w fas x)"

text \<open>A concrete state for the examples: one watcher, no stop.\<close>

definition ex_lb_target :: LbTarget where
  "ex_lb_target = \<lparr>lbt_context = [''id'' \<mapsto> ''lb''], lbt_stream = None\<rparr>"

definition ex_no_target :: LbTarget where
  "ex_no_target = \<lparr>lbt_context = Map.empty, lbt_stream = None\<rparr>"

definition ex_fas ::
  "string set \<Rightarrow> fas_event list \<Rightarrow> watch_pc \<Rightarrow> LbTarget option \<Rightarrow> LbTarget list \<Rightarrow> ForwardingAvailabilityService" where
  "ex_fas plane ch at l sent = \<lparr>fas_done = False, forwardingPlane = Some plane, fas_target = ex_lb_target,
     unavailableTarget = ex_no_target,
     watchStream = [0 \<mapsto> \<lparr>updateCh = ch, watch_at = at, lastSentTarget = l, watch_sent = sent\<rparr>],
     stop_threads = Map.empty\<rparr>"

section \<open>Lemmas\<close>

text \<open>A step of somebody else: only the channel of the watcher may change, and a new current target
  comes with an event.\<close>

lemma watcher_inv_other:
  assumes "watcher_inv w fas x" "x' = x\<lparr>updateCh := c\<rparr>"
    "on_its_way w fas x \<Longrightarrow> on_its_way w fas' x'"
    "coreGetTarget fas' = coreGetTarget fas \<or> on_its_way w fas' x'"
  shows "watcher_inv w fas' x'"
proof -
  have "holds_current fas' x'" if "coreGetTarget fas' = coreGetTarget fas" "holds_current fas x"
    using that assms(2) by (simp add: holds_current_def split: watch_pc.splits)
  then show ?thesis
    using assms(1,3,4) by (auto simp: watcher_inv_def assms(2))
qed

lemma fas_invI: "(\<And>w x. watchStream fas w = Some x \<Longrightarrow> watcher_inv w fas x) \<Longrightarrow> fas_inv fas"
  by (simp add: fas_inv_def)

lemma fas_invD: "fas_inv fas \<Longrightarrow> watchStream fas w = Some x \<Longrightarrow> watcher_inv w fas x"
  by (simp add: fas_inv_def)

lemma update_watcher:
  assumes "watchStream (fas_update skip fas) w = Some x'"
  obtains x c where "watchStream fas w = Some x" "x' = x\<lparr>updateCh := c\<rparr>" "fas_done fas \<or> c \<noteq> []"
proof -
  from assms obtain x where "watchStream fas w = Some x" "x' = (if fas_done fas \<and> w \<in> skip then x
      else if updateCh x = [] then x\<lparr>updateCh := [UpdateEvent]\<rparr> else x)"
    by (auto simp: fas_update_def)
  then show ?thesis
    using that [of x "updateCh x'"] by (auto split: if_splits)
qed

lemma update_same [simp]:
  "fas_done (fas_update skip fas) = fas_done fas" "forwardingPlane (fas_update skip fas) = forwardingPlane fas"
  "stop_threads (fas_update skip fas) = stop_threads fas"
  "watchStream (fas_update skip (fas\<lparr>forwardingPlane := p\<rparr>)) = watchStream (fas_update skip fas)"
  by (simp_all add: fas_update_def)

lemma updated_inv:
  assumes "fas_inv fas" "watchStream fas' = watchStream (fas_update skip fas)" "fas_done fas' = fas_done fas"
  shows "fas_inv fas'"
proof (rule fas_invI)
  fix w x' assume "watchStream fas' w = Some x'"
  then obtain x c where x: "watchStream fas w = Some x" "x' = x\<lparr>updateCh := c\<rparr>" "fas_done fas \<or> c \<noteq> []"
    using assms(2) update_watcher by metis
  then have "on_its_way w fas' x'" using assms(3) by (auto simp: on_its_way_def)
  then show "watcher_inv w fas' x'"
    using watcher_inv_other [OF fas_invD [OF assms(1) x(1)] x(2)] by blast
qed

lemma same_target_inv:
  assumes "fas_inv fas" "watchStream fas' = watchStream fas" "coreGetTarget fas' = coreGetTarget fas"
    "fas_done fas \<Longrightarrow> fas_done fas'" "\<And>w. stop_threads fas w \<in> {Some StopSending, Some StopTimedOut} \<Longrightarrow>
       stop_threads fas' w \<in> {Some StopSending, Some StopTimedOut}"
  shows "fas_inv fas'"
proof (rule fas_invI)
  fix w x assume x: "watchStream fas' w = Some x"
  show "watcher_inv w fas' x"
    using watcher_inv_other [OF fas_invD [OF assms(1), of w x], of x "updateCh x" fas'] x assms(2-5)
    by (auto simp: on_its_way_def)
qed

lemma register_inv:
  assumes "fas_inv fas"
  shows "fas_inv (fas_Register skip name fas)"
proof (cases "forwardingPlane fas = Some {}")
  case True
  then show ?thesis using updated_inv [OF assms, of _ skip] by (simp add: fas_Register_def)
next
  case False
  then show ?thesis
    by (intro same_target_inv [OF assms]) (auto simp: fas_Register_def coreGetTarget_def split: option.splits)
qed

lemma unregister_inv:
  assumes "fas_inv fas"
  shows "fas_inv (fas_Unregister skip name fas)"
proof (cases "\<exists>plane. forwardingPlane fas = Some plane \<and> plane - {name} = {}")
  case True
  then show ?thesis using updated_inv [OF assms, of _ skip] by (auto simp: fas_Unregister_def Let_def)
next
  case False
  then show ?thesis
    by (intro same_target_inv [OF assms])
      (auto simp: fas_Unregister_def Let_def coreGetTarget_def split: option.splits)
qed

lemma stop_inv:
  assumes "fas_inv fas"
  shows "fas_inv (fas_Stop fas)"
proof (cases "forwardingPlane fas")
  case None
  then show ?thesis using assms by (simp add: fas_Stop_def)
next
  case (Some plane)
  show ?thesis
  proof (rule fas_invI)
    fix w x assume x: "watchStream (fas_Stop fas) w = Some x"
    then have "watchStream fas w = Some x" "on_its_way w (fas_Stop fas) x"
      using Some by (simp_all add: fas_Stop_def on_its_way_def)
    then show "watcher_inv w (fas_Stop fas) x"
      using watcher_inv_other [OF fas_invD [OF assms, of w x], of x "updateCh x"] by simp
  qed
qed

lemma stop_send_inv:
  assumes "fas_inv fas" "stop_send w fas = Some fas'"
  shows "fas_inv fas'"
proof (rule fas_invI)
  fix v y assume y: "watchStream fas' v = Some y"
  from assms(2) obtain x where x: "watchStream fas w = Some x"
      "fas' = fas\<lparr>watchStream := (watchStream fas)(w \<mapsto> x\<lparr>updateCh := [StopEvent]\<rparr>),
                  stop_threads := (stop_threads fas)(w \<mapsto> StopWaiting)\<rparr>"
    by (auto simp: stop_send_def split: option.splits stop_pc.splits if_splits)
  have c: "coreGetTarget fas' = coreGetTarget fas" by (simp add: x(2) coreGetTarget_def)
  show "watcher_inv v fas' y"
  proof (cases "v = w")
    case True
    then show ?thesis
      using watcher_inv_other [OF fas_invD [OF assms(1) x(1)], of y "[StopEvent]" fas'] x y by (simp add: on_its_way_def)
  next
    case False
    then show ?thesis
      using watcher_inv_other [OF fas_invD [OF assms(1), of v y], of y "updateCh y" fas'] x y c by (simp add: on_its_way_def)
  qed
qed

lemma stop_timeout_inv:
  assumes "fas_inv fas" "stop_timeout w fas = Some fas'"
  shows "fas_inv fas'"
  using assms(2) by (intro same_target_inv [OF assms(1)]) (auto simp: stop_timeout_def coreGetTarget_def split: if_splits)


lemma own_inv:
  assumes "fas_inv fas" "\<And>v. v \<noteq> w \<Longrightarrow> watchStream fas' v = watchStream fas v"
    "\<And>v. v \<noteq> w \<Longrightarrow> stop_threads fas' v = stop_threads fas v"
    "fas_done fas' = fas_done fas" "coreGetTarget fas' = coreGetTarget fas"
    "\<And>y. watchStream fas' w = Some y \<Longrightarrow> watcher_inv w fas' y"
  shows "fas_inv fas'"
proof (rule fas_invI)
  fix v y assume y: "watchStream fas' v = Some y"
  show "watcher_inv v fas' y"
  proof (cases "v = w")
    case True
    then show ?thesis using assms(6) y by simp
  next
    case False
    then show ?thesis
      using watcher_inv_other [OF fas_invD [OF assms(1), of v y], of y "updateCh y" fas'] assms(2-5) y
      by (simp add: on_its_way_def)
  qed
qed

lemma close_feedback_same [simp]:
  "watchStream (close_feedback e w fas) = watchStream fas" "fas_done (close_feedback e w fas) = fas_done fas"
  "coreGetTarget (close_feedback e w fas) = coreGetTarget fas"
  "stop_threads (close_feedback e w fas) w \<in> {Some StopSending, Some StopTimedOut} \<longleftrightarrow>
     stop_threads fas w \<in> {Some StopSending, Some StopTimedOut}"
  "v \<noteq> w \<Longrightarrow> stop_threads (close_feedback e w fas) v = stop_threads fas v"
  by (auto simp: close_feedback_def coreGetTarget_def split: fas_event.splits)

lemma core_put [simp]: "coreGetTarget (fas\<lparr>watchStream := ws\<rparr>) = coreGetTarget fas"
  by (simp add: coreGetTarget_def)

lemma on_its_way_put [simp]:
  "on_its_way w (fas\<lparr>watchStream := ws\<rparr>) x = on_its_way w fas x"
  "on_its_way w (close_feedback e w fas) x = on_its_way w fas x"
  by (auto simp: on_its_way_def simp del: close_feedback_same(4)) (auto simp: close_feedback_def split: fas_event.splits if_splits)

lemma on_its_way_upd [simp]:
  "on_its_way w fas (x\<lparr>watch_at := a\<rparr>) = on_its_way w fas x"
  "on_its_way w fas (x\<lparr>lastSentTarget := l\<rparr>) = on_its_way w fas x"
  "on_its_way w fas (x\<lparr>watch_sent := ts\<rparr>) = on_its_way w fas x"
  by (simp_all add: on_its_way_def)

lemma watch_quit_inv:
  assumes "fas_inv fas"
  shows "fas_inv (fas\<lparr>watchStream := (watchStream fas)(w := None)\<rparr>)"
  by (rule own_inv [OF assms, of w]) auto

lemma watch_next_frame:
  assumes "Watch_next ok w fas = Some fas'"
  shows "(\<forall>v. v \<noteq> w \<longrightarrow> watchStream fas' v = watchStream fas v \<and> stop_threads fas' v = stop_threads fas v) \<and>
    fas_done fas' = fas_done fas \<and> coreGetTarget fas' = coreGetTarget fas"
proof -
  from assms obtain x where x: "watchStream fas w = Some x"
    by (auto simp: Watch_next_def split: option.splits)
  show ?thesis
  proof (cases "watch_at x")
    case Listening
    with assms x show ?thesis by (cases "updateCh x") (auto simp: Watch_next_def)
  qed (use assms x in \<open>auto simp: Watch_next_def split: if_splits\<close>)
qed

lemma watch_next_inv:
  assumes "fas_inv fas" "Watch_next ok w fas = Some fas'"
  shows "fas_inv fas'"
proof -
  from assms(2) obtain x where x: "watchStream fas w = Some x"
    by (auto simp: Watch_next_def split: option.splits)
  note inv = fas_invD [OF assms(1) x]
  show ?thesis
  proof (rule own_inv [OF assms(1), of w])
    fix y assume y: "watchStream fas' w = Some y"
    show "watcher_inv w fas' y"
    proof (cases "watch_at x")
      case Starting
      then show ?thesis using assms(2) x y inv
        by (auto simp: Watch_next_def watcher_inv_def holds_current_def)
    next
      case (SendInitial t)
      then show ?thesis using assms(2) x y inv
        by (cases ok) (auto simp: Watch_next_def watcher_inv_def holds_current_def)
    next
      case Listening
      then show ?thesis using assms(2) x y inv
        by (auto simp: Watch_next_def watcher_inv_def holds_current_def split: list.splits)
    next
      case (GotEvent e)
      then show ?thesis using assms(2) x y inv
        by (auto simp: Watch_next_def watcher_inv_def holds_current_def)
    next
      case (SendUpdate e t)
      show ?thesis
      proof (cases "lastSentTarget x = Some t")
        case True
        with SendUpdate show ?thesis using assms(2) x y inv
          by (auto simp: Watch_next_def watcher_inv_def holds_current_def split: if_splits)
      next
        case False
        with SendUpdate show ?thesis using assms(2) x y inv
          by (cases ok) (auto simp: Watch_next_def watcher_inv_def holds_current_def
              distinct_adj_append_iff split: if_splits)
      qed
    qed
  qed (use watch_next_frame [OF assms(2)] in auto)
qed

lemma fas_step_inv: "fas_step fas fas' \<Longrightarrow> fas_inv fas \<Longrightarrow> fas_inv fas'"
proof (induction rule: fas_step.induct)
  case (start fas w)
  then show ?case
    by - (rule own_inv [of fas w], auto simp: Watch_start_def watcher_inv_def holds_current_def coreGetTarget_def)
next
  case (closed w fas fas')
  then show ?case using watch_quit_inv by (auto simp: Watch_close_def split: option.splits if_splits)
next
  case (ctx_done fas)
  then show ?case by - (rule same_target_inv [of fas], auto simp: coreGetTarget_def)
qed (rule register_inv unregister_inv stop_inv stop_send_inv stop_timeout_inv watch_next_inv, assumption+)+

lemma fas_reach_inv: "fas_reach target fas \<Longrightarrow> fas_inv fas"
proof (induction rule: fas_reach.induct)
  case init
  then show ?case by (simp add: NewForwardingAvailabilityService_def fas_inv_def)
next
  case (step fas fas')
  then show ?case using fas_step_inv by blast
qed


subsection \<open>An example run\<close>

lemma ex_distinct: "ex_lb_target \<noteq> ex_no_target"
proof
  assume "ex_lb_target = ex_no_target"
  then have "lbt_context ex_lb_target ''id'' = lbt_context ex_no_target ''id''" by simp
  then show False by (simp add: ex_lb_target_def ex_no_target_def)
qed

lemma ex_watch_step:
  assumes "fas_reach ex_lb_target fas" "Watch_next True 0 fas = Some fas'"
  shows "fas_reach ex_lb_target fas'"
  using fas_reach.step [OF assms(1) fas_step.watch [OF assms(2)]] .

lemma ex_run_listening: "fas_reach ex_lb_target (ex_fas {''s''} [] Listening (Some ex_lb_target) [ex_lb_target])"
proof -
  let ?start = "Watch_start 0 (NewForwardingAvailabilityService ex_lb_target)"
  have "fas_reach ex_lb_target ?start"
    by (rule fas_reach.step [OF fas_reach.init fas_step.start])
      (simp_all add: NewForwardingAvailabilityService_def)
  moreover have "fas_Register {} ''s'' ?start = ex_fas {''s''} [UpdateEvent] Starting None []"
    by (auto simp: ex_fas_def Watch_start_def NewForwardingAvailabilityService_def fas_Register_def fas_update_def
        ex_no_target_def)
  ultimately have "fas_reach ex_lb_target (ex_fas {''s''} [UpdateEvent] Starting None [])"
    using fas_reach.step [OF _ fas_step.register] by metis
  from ex_watch_step [OF this, of "ex_fas {''s''} [UpdateEvent] (SendInitial ex_lb_target) None []"]
  have "fas_reach ex_lb_target (ex_fas {''s''} [UpdateEvent] (SendInitial ex_lb_target) None [])"
    by (simp add: ex_fas_def Watch_next_def coreGetTarget_def)
  from ex_watch_step [OF this, of "ex_fas {''s''} [UpdateEvent] Listening (Some ex_lb_target) [ex_lb_target]"]
  have "fas_reach ex_lb_target (ex_fas {''s''} [UpdateEvent] Listening (Some ex_lb_target) [ex_lb_target])"
    by (simp add: ex_fas_def Watch_next_def)
  from ex_watch_step [OF this, of "ex_fas {''s''} [] (GotEvent UpdateEvent) (Some ex_lb_target) [ex_lb_target]"]
  have "fas_reach ex_lb_target (ex_fas {''s''} [] (GotEvent UpdateEvent) (Some ex_lb_target) [ex_lb_target])"
    by (simp add: ex_fas_def Watch_next_def)
  from ex_watch_step [OF this, of "ex_fas {''s''} [] (SendUpdate UpdateEvent ex_lb_target) (Some ex_lb_target) [ex_lb_target]"]
  have "fas_reach ex_lb_target (ex_fas {''s''} [] (SendUpdate UpdateEvent ex_lb_target) (Some ex_lb_target) [ex_lb_target])"
    by (simp add: ex_fas_def Watch_next_def coreGetTarget_def)
  from ex_watch_step [OF this] show ?thesis
    by (simp add: ex_fas_def Watch_next_def close_feedback_def)
qed

lemma ex_run_lost:
  "fas_reach ex_lb_target (ex_fas {} [] Listening (Some ex_no_target) [ex_lb_target, ex_no_target])"
proof -
  have "fas_Unregister {} ''s'' (ex_fas {''s''} [] Listening (Some ex_lb_target) [ex_lb_target]) =
      ex_fas {} [UpdateEvent] Listening (Some ex_lb_target) [ex_lb_target]"
    by (auto simp: ex_fas_def fas_Unregister_def fas_update_def)
  then have "fas_reach ex_lb_target (ex_fas {} [UpdateEvent] Listening (Some ex_lb_target) [ex_lb_target])"
    using fas_reach.step [OF ex_run_listening fas_step.unregister] by metis
  from ex_watch_step [OF this, of "ex_fas {} [] (GotEvent UpdateEvent) (Some ex_lb_target) [ex_lb_target]"]
  have "fas_reach ex_lb_target (ex_fas {} [] (GotEvent UpdateEvent) (Some ex_lb_target) [ex_lb_target])"
    by (simp add: ex_fas_def Watch_next_def)
  from ex_watch_step [OF this, of "ex_fas {} [] (SendUpdate UpdateEvent ex_no_target) (Some ex_lb_target) [ex_lb_target]"]
  have "fas_reach ex_lb_target (ex_fas {} [] (SendUpdate UpdateEvent ex_no_target) (Some ex_lb_target) [ex_lb_target])"
    by (simp add: ex_fas_def Watch_next_def coreGetTarget_def)
  from ex_watch_step [OF this] show ?thesis
    using ex_distinct by (simp add: ex_fas_def Watch_next_def close_feedback_def)
qed

section \<open>Properties\<close>

text \<open>
  C12: whatever the interleaving of registrations, \<open>Stop\<close> and watchers, a watcher that waits
  for events with an empty channel has last sent the current availability to its client, unless the
  context of the service is done or the stop goroutine of the watcher has still to send or has
  given up after its two seconds. So no change of availability is lost although an event that finds
  the channel full is dropped.
\<close>

theorem fas_no_lost_update:
  assumes "fas_reach target fas" "watchStream fas w = Some x" "watch_at x = Listening" "updateCh x = []"
    "\<not> fas_done fas" "stop_threads fas w \<in> {None, Some StopWaiting}"
  shows "watch_sent x \<noteq> [] \<and> last (watch_sent x) =
    (if forwardingPlane fas \<in> {None, Some {}} then unavailableTarget fas else fas_target fas)"
  using fas_invD [OF fas_reach_inv [OF assms(1)] assms(2)] assms(3-6)
  by (auto simp: watcher_inv_def on_its_way_def holds_current_def coreGetTarget_def split: if_splits)

theorem fas_no_lost_update_witness:
  "fas_reach ex_lb_target (ex_fas {''s''} [] Listening (Some ex_lb_target) [ex_lb_target]) \<and>
   last [ex_lb_target] = ex_lb_target"
  using fas_no_lost_update [OF ex_run_listening, of 0] ex_run_listening
  by (simp add: ex_fas_def)

text \<open>
  A watcher never sends the same availability twice in a row to its client.
\<close>

theorem fas_no_duplicates:
  assumes "fas_reach target fas" "watchStream fas w = Some x" "Suc i < length (watch_sent x)"
  shows "watch_sent x ! i \<noteq> watch_sent x ! Suc i"
  using fas_invD [OF fas_reach_inv [OF assms(1)] assms(2)] assms(3)
  by (auto simp: watcher_inv_def distinct_adj_conv_nth)

theorem fas_no_duplicates_witness:
  "fas_reach ex_lb_target (ex_fas {} [] Listening (Some ex_no_target) [ex_lb_target, ex_no_target]) \<and>
   [ex_lb_target, ex_no_target] ! 0 \<noteq> [ex_lb_target, ex_no_target] ! 1"
  using fas_no_duplicates [OF ex_run_lost, of 0 _ 0] ex_run_lost
  by (simp add: ex_fas_def)

end
