(* ===== verification/LbStream.thy ===== *)
theory LbStream
  imports LbIdentifier LbAvailability GoNet
begin

text \<open>
  One stream of the load balancer: targets (\<open>pkg/loadbalancer/stream/target.go\<close>), the stream itself
  (\<open>pkg/loadbalancer/stream/loadbalancer.go\<close>), flows (\<open>pkg/loadbalancer/flow/flow.go\<close>), the
  registration of the hit counters (\<open>pkg/loadbalancer/target/metrics.go\<close>) and of the neighbour cache
  (\<open>pkg/kernel/neighbor/reachability.go\<close>). Target objects are shared between the maps of the
  stream, so they live in a heap and the maps hold references. The network utilities and the
  queue load balancer are the interfaces of the code, records of operations on a world; every
  method runs under the mutex of the stream and is one step. A \<open>range\<close> over a Go map visits the keys in
  the order that the argument \<open>it\<close> chooses for that loop.
\<close>

section \<open>Definitions\<close>

subsection \<open>Interfaces\<close>

record ('fw, 'w) lb_env =
  nu_NewFWMarkRoute :: "string \<Rightarrow> int \<Rightarrow> int \<Rightarrow> 'w \<Rightarrow> (go_error + 'fw) \<times> 'w"
  nu_Verify :: "'fw \<Rightarrow> 'w \<Rightarrow> bool"
  nu_Delete :: "'fw \<Rightarrow> 'w \<Rightarrow> go_error option \<times> 'w"
  nfq_Activate :: "int \<Rightarrow> int \<Rightarrow> 'w \<Rightarrow> go_error option \<times> 'w"
  nfq_Deactivate :: "int \<Rightarrow> 'w \<Rightarrow> go_error option \<times> 'w"
  nfq_Delete :: "'w \<Rightarrow> go_error option \<times> 'w"
  nfq_SetFlow :: "Flow \<Rightarrow> 'w \<Rightarrow> go_error option \<times> 'w"
  nfq_DeleteFlow :: "Flow \<Rightarrow> 'w \<Rightarrow> go_error option \<times> 'w"
  nft_AddCounter :: "int \<Rightarrow> 'w \<Rightarrow> 'w"
  nft_DelCounter :: "int \<Rightarrow> 'w \<Rightarrow> 'w"
  fas_skip :: "nat set"

subsection \<open>State\<close>

record 'fw lb_target =
  lt_fwMarks :: "'fw list"
  lt_nspTarget :: Target
  lt_identifier :: int
  lt_identifierOffset :: int

record HitsMetrics =
  hm_targets :: "int \<rightharpoonup> Target"
  hm_fwmarkChains :: "int \<rightharpoonup> string"

datatype lb_ctx = CtxNil | CtxRunning | CtxCancelled

record ('fw, 'w) LoadBalancer =
  lb_Stream :: Stream
  lb_IdentifierOffset :: int
  lb_flows :: "string \<rightharpoonup> Flow"
  lb_targets :: "int \<rightharpoonup> nat"
  lb_pendingTargets :: "int \<rightharpoonup> nat"
  lb_pendingCh :: bool
  lb_context :: lb_ctx
  lb_heap :: "nat \<Rightarrow> 'fw lb_target"
  lb_next :: nat
  lb_world :: 'w
  lb_hits :: HitsMetrics
  lb_neighbors :: "string \<rightharpoonup> ip"
  lb_fas :: ForwardingAvailabilityService
  lb_flowSvc :: bool

type_synonym int_order = "nat \<Rightarrow> int set \<Rightarrow> int list"

subsection \<open>Hit counters and neighbours\<close>

definition hm_Register :: "('fw, 'w) lb_env \<Rightarrow> int \<Rightarrow> Target \<Rightarrow> ('fw, 'w) LoadBalancer \<Rightarrow> ('fw, 'w) LoadBalancer" where
  "hm_Register env fwmark target lb =
     (if hm_fwmarkChains (lb_hits lb) fwmark \<noteq> None then lb
      else lb\<lparr>lb_hits := \<lparr>hm_targets = (hm_targets (lb_hits lb))(fwmark \<mapsto> target),
                          hm_fwmarkChains = (hm_fwmarkChains (lb_hits lb))(fwmark \<mapsto> ''fwmark-'' @ itoa fwmark)\<rparr>,
              lb_world := nft_AddCounter env fwmark (lb_world lb)\<rparr>)"

definition hm_Unregister :: "('fw, 'w) lb_env \<Rightarrow> int \<Rightarrow> ('fw, 'w) LoadBalancer \<Rightarrow> ('fw, 'w) LoadBalancer" where
  "hm_Unregister env fwmark lb =
     (if hm_fwmarkChains (lb_hits lb) fwmark = None then lb
      else lb\<lparr>lb_hits := \<lparr>hm_targets = (hm_targets (lb_hits lb))(fwmark := None),
                          hm_fwmarkChains = (hm_fwmarkChains (lb_hits lb))(fwmark := None)\<rparr>,
              lb_world := nft_DelCounter env fwmark (lb_world lb)\<rparr>)"

fun nrd_Register :: "string list \<Rightarrow> (string \<rightharpoonup> ip) \<Rightarrow> (string \<rightharpoonup> ip)" where
  "nrd_Register [] cache = cache"
| "nrd_Register (ip # ips) cache =
     (let key = hd (split_on (CHR ''/'') ip)
      in case parse_ip key of
           None \<Rightarrow> nrd_Register ips cache
         | Some netIP \<Rightarrow> nrd_Register ips (if cache key = None then cache(key \<mapsto> netIP) else cache))"

fun nrd_Unregister :: "string list \<Rightarrow> (string \<rightharpoonup> ip) \<Rightarrow> (string \<rightharpoonup> ip)" where
  "nrd_Unregister [] cache = cache"
| "nrd_Unregister (ip # ips) cache = nrd_Unregister ips (cache(hd (split_on (CHR ''/'') ip) := None))"

subsection \<open>Targets\<close>

definition IdentifierKey :: string where
  "IdentifierKey = ''identifier''"

definition NewTarget :: "int \<Rightarrow> Target \<Rightarrow> 'fw lb_target option" where
  "NewTarget identifierOffset nspTarget =
     (if target_status nspTarget \<noteq> ENABLED then None
      else case target_context nspTarget IdentifierKey of
             None \<Rightarrow> None
           | Some idStr \<Rightarrow>
               (case atoi idStr of
                  None \<Rightarrow> None
                | Some i \<Rightarrow> Some \<lparr>lt_fwMarks = [], lt_nspTarget = nspTarget, lt_identifier = i,
                               lt_identifierOffset = identifierOffset\<rparr>))"

definition lt_GetIps :: "'fw lb_target \<Rightarrow> string list" where
  "lt_GetIps t = target_ips (lt_nspTarget t)"

definition lt_offsetId :: "'fw lb_target \<Rightarrow> int" where
  "lt_offsetId t = wrap_int (lt_identifier t + lt_identifierOffset t)"

definition lt_Verify :: "('fw, 'w) lb_env \<Rightarrow> 'fw lb_target \<Rightarrow> 'w \<Rightarrow> bool" where
  "lt_Verify env t w = list_all (\<lambda>fw. nu_Verify env fw w) (lt_fwMarks t)"

text \<open>The loop of \<open>Configure\<close>: the routes made before an error stay in the object.\<close>

fun configure_routes ::
  "('fw, 'w) lb_env \<Rightarrow> int \<Rightarrow> string list \<Rightarrow> 'fw list \<Rightarrow> 'w \<Rightarrow> go_error option \<times> 'fw list \<times> 'w" where
  "configure_routes env offsetId [] fwMarks w = (None, fwMarks, w)"
| "configure_routes env offsetId (ip # ips) fwMarks w =
     (case nu_NewFWMarkRoute env ip offsetId offsetId w of
        (Inl err, w') \<Rightarrow> (Some (ErrMsg ''failed to configure fwmark route'' # err), fwMarks, w')
      | (Inr fw, w') \<Rightarrow> configure_routes env offsetId ips (fwMarks @ [fw]) w')"

fun delete_routes :: "('fw, 'w) lb_env \<Rightarrow> 'fw list \<Rightarrow> go_error option \<Rightarrow> 'w \<Rightarrow> go_error option \<times> 'w" where
  "delete_routes env [] errFinal w = (errFinal, w)"
| "delete_routes env (fw # fws) errFinal w =
     (case nu_Delete env fw w of
        (None, w') \<Rightarrow> delete_routes env fws errFinal w'
      | (Some err, w') \<Rightarrow> delete_routes env fws (AppendErr errFinal (ErrMsg ''fwMark delete'' # err)) w')"

definition set_fwMarks :: "nat \<Rightarrow> 'fw list \<Rightarrow> ('fw, 'w) LoadBalancer \<Rightarrow> ('fw, 'w) LoadBalancer" where
  "set_fwMarks r fws lb = lb\<lparr>lb_heap := (lb_heap lb)(r := (lb_heap lb r)\<lparr>lt_fwMarks := fws\<rparr>)\<rparr>"

definition lt_Configure ::
  "('fw, 'w) lb_env \<Rightarrow> nat \<Rightarrow> ('fw, 'w) LoadBalancer \<Rightarrow> go_error option \<times> ('fw, 'w) LoadBalancer" where
  "lt_Configure env r lb =
     (let t = lb_heap lb r
      in case configure_routes env (lt_offsetId t) (lt_GetIps t) (lt_fwMarks t) (lb_world lb) of
           (err, fws, w) \<Rightarrow>
             (let lb' = set_fwMarks r fws (lb\<lparr>lb_world := w\<rparr>)
              in case err of
                   Some e \<Rightarrow> (Some e, lb')
                 | None \<Rightarrow> (None, hm_Register env (lt_offsetId t) (lt_nspTarget t) lb')))"

definition lt_Delete ::
  "('fw, 'w) lb_env \<Rightarrow> nat \<Rightarrow> ('fw, 'w) LoadBalancer \<Rightarrow> go_error option \<times> ('fw, 'w) LoadBalancer" where
  "lt_Delete env r lb =
     (let t = lb_heap lb r
      in case delete_routes env (lt_fwMarks t) None (lb_world lb) of
           (err, w) \<Rightarrow> (err, hm_Unregister env (lt_offsetId t) (set_fwMarks r [] (lb\<lparr>lb_world := w\<rparr>))))"

subsection \<open>Adding and removing targets\<close>

definition getTarget :: "int \<Rightarrow> ('fw, 'w) LoadBalancer \<Rightarrow> nat option" where
  "getTarget identifier lb = lb_targets lb identifier"

definition targetExists :: "int \<Rightarrow> ('fw, 'w) LoadBalancer \<Rightarrow> bool" where
  "targetExists identifier lb \<longleftrightarrow> getTarget identifier lb \<noteq> None"

definition addPendingTarget :: "nat \<Rightarrow> ('fw, 'w) LoadBalancer \<Rightarrow> ('fw, 'w) LoadBalancer" where
  "addPendingTarget r lb =
     (let i = lt_identifier (lb_heap lb r)
      in if lb_pendingTargets lb i \<noteq> None then lb
         else lb\<lparr>lb_pendingTargets := (lb_pendingTargets lb)(i \<mapsto> r)\<rparr>)"

definition removeFromPendingTargetByIdentifier :: "int \<Rightarrow> ('fw, 'w) LoadBalancer \<Rightarrow> ('fw, 'w) LoadBalancer" where
  "removeFromPendingTargetByIdentifier identifier lb =
     (if lb_pendingTargets lb identifier = None then lb
      else lb\<lparr>lb_pendingTargets := (lb_pendingTargets lb)(identifier := None)\<rparr>)"

definition removeFromPendingTarget :: "nat \<Rightarrow> ('fw, 'w) LoadBalancer \<Rightarrow> ('fw, 'w) LoadBalancer" where
  "removeFromPendingTarget r lb =
     (if lb_pendingTargets lb (lt_identifier (lb_heap lb r)) = None then lb
      else lb\<lparr>lb_pendingTargets := (lb_pendingTargets lb)(lt_identifier (lb_heap lb r) := None)\<rparr>)"

text \<open>What \<open>AddTarget\<close> does after a failed step: keep the target pending and undo its routes.\<close>

definition add_failed ::
  "('fw, 'w) lb_env \<Rightarrow> string \<Rightarrow> go_error \<Rightarrow> nat \<Rightarrow> ('fw, 'w) LoadBalancer \<Rightarrow> go_error option \<times> ('fw, 'w) LoadBalancer" where
  "add_failed env msg err r lb =
     (case lt_Delete env r (addPendingTarget r lb) of
        (None, lb') \<Rightarrow> (Some (ErrMsg msg # err), lb')
      | (Some e, lb') \<Rightarrow> (Some (ErrMsg msg # err @ ErrMsg ''target delete error'' # e), lb'))"

definition AddTarget ::
  "('fw, 'w) lb_env \<Rightarrow> nat \<Rightarrow> ('fw, 'w) LoadBalancer \<Rightarrow> go_error option \<times> ('fw, 'w) LoadBalancer" where
  "AddTarget env r lb =
     (let i = lt_identifier (lb_heap lb r)
      in if targetExists i lb then (Some [ErrMsg ''the target is already registered''], lb)
         else case lt_Configure env r lb of
                (Some err, lb1) \<Rightarrow> add_failed env ''target configure error'' err r lb1
              | (None, lb1) \<Rightarrow>
                  (case nfq_Activate env i (wrap_int (i + lb_IdentifierOffset lb1)) (lb_world lb1) of
                     (Some err, w) \<Rightarrow> add_failed env ''target activate error'' err r (lb1\<lparr>lb_world := w\<rparr>)
                   | (None, w) \<Rightarrow>
                       (let lb2 = lb1\<lparr>lb_world := w, lb_targets := (lb_targets lb1)(i \<mapsto> r)\<rparr>;
                            lb3 = lb2\<lparr>lb_neighbors := nrd_Register (lt_GetIps (lb_heap lb2 r)) (lb_neighbors lb2)\<rparr>;
                            lb4 = removeFromPendingTarget r lb3
                        in (None, lb4\<lparr>lb_fas := fas_Register (fas_skip env) (stream_name (lb_Stream lb4)) (lb_fas lb4)\<rparr>))))"

definition removeTarget ::
  "('fw, 'w) lb_env \<Rightarrow> int \<Rightarrow> bool \<Rightarrow> ('fw, 'w) LoadBalancer \<Rightarrow> go_error option \<times> ('fw, 'w) LoadBalancer" where
  "removeTarget env identifier doForwardingAvailabilityUpdate lb0 =
     (let lb = removeFromPendingTargetByIdentifier identifier lb0
      in case getTarget identifier lb of
           None \<Rightarrow> (Some [ErrNoTarget], lb)
         | Some r \<Rightarrow>
             (let t = lb_heap lb r;
                  lb1 = lb\<lparr>lb_neighbors := nrd_Unregister (lt_GetIps t) (lb_neighbors lb)\<rparr>;
                  (derr, w) = nfq_Deactivate env (lt_identifier t) (lb_world lb1);
                  err1 = (case derr of None \<Rightarrow> None
                          | Some e \<Rightarrow> AppendErr None (ErrMsg ''target deactivate error'' # e));
                  (terr, lb2) = lt_Delete env r (lb1\<lparr>lb_world := w\<rparr>);
                  err2 = (case terr of None \<Rightarrow> err1
                          | Some e \<Rightarrow> AppendErr err1 (ErrMsg ''target delete error'' # e));
                  lb3 = lb2\<lparr>lb_targets := (lb_targets lb2)(lt_identifier t := None)\<rparr>;
                  lb4 = (if doForwardingAvailabilityUpdate \<and> dom (lb_targets lb3) = {}
                         then lb3\<lparr>lb_fas := fas_Unregister (fas_skip env) (stream_name (lb_Stream lb3)) (lb_fas lb3)\<rparr>
                         else lb3)
              in (err2, lb4)))"

definition RemoveTarget ::
  "('fw, 'w) lb_env \<Rightarrow> int \<Rightarrow> ('fw, 'w) LoadBalancer \<Rightarrow> go_error option \<times> ('fw, 'w) LoadBalancer" where
  "RemoveTarget env identifier lb = removeTarget env identifier True lb"

definition isStreamRunning :: "('fw, 'w) LoadBalancer \<Rightarrow> bool" where
  "isStreamRunning lb \<longleftrightarrow> lb_context lb = CtxRunning"


subsection \<open>Configuration of the targets\<close>

text \<open>The map \<open>newTargetsMap\<close>: the objects are allocated in the order of the response.\<close>

fun make_targets ::
  "Target list \<Rightarrow> (int \<rightharpoonup> nat) \<Rightarrow> ('fw, 'w) LoadBalancer \<Rightarrow> (int \<rightharpoonup> nat) \<times> ('fw, 'w) LoadBalancer" where
  "make_targets [] new lb = (new, lb)"
| "make_targets (target # targets) new lb =
     (case NewTarget (lb_IdentifierOffset lb) target of
        None \<Rightarrow> make_targets targets new lb
      | Some t \<Rightarrow> make_targets targets (new(lt_identifier t \<mapsto> lb_next lb))
                    (lb\<lparr>lb_heap := (lb_heap lb)(lb_next lb := t), lb_next := Suc (lb_next lb)\<rparr>))"

definition same_ips :: "('fw, 'w) LoadBalancer \<Rightarrow> nat \<Rightarrow> nat \<Rightarrow> bool" where
  "same_ips lb r r' \<longleftrightarrow> set (lt_GetIps (lb_heap lb r)) = set (lt_GetIps (lb_heap lb r'))"

text \<open>The body of the first loop for one key of \<open>pendingTargets\<close>, then of the loop over \<open>targets\<close>.\<close>

fun check_pending ::
  "('fw, 'w) lb_env \<Rightarrow> int list \<Rightarrow> go_error option \<Rightarrow> (int \<rightharpoonup> nat) \<Rightarrow> ('fw, 'w) LoadBalancer \<Rightarrow>
   go_error option \<times> (int \<rightharpoonup> nat) \<times> ('fw, 'w) LoadBalancer" where
  "check_pending env [] errFinal new lb = (errFinal, new, lb)"
| "check_pending env (identifier # ids) errFinal new lb =
     (case lb_pendingTargets lb identifier of
        None \<Rightarrow> check_pending env ids errFinal new lb
      | Some p \<Rightarrow>
          if (case new identifier of None \<Rightarrow> True | Some n \<Rightarrow> \<not> same_ips lb p n) then
            (case RemoveTarget env identifier lb of
               (err, lb') \<Rightarrow>
                 check_pending env ids
                   (case err of None \<Rightarrow> errFinal
                    | Some e \<Rightarrow> if ErrNoTarget \<in> set e then errFinal else AppendErr errFinal e) new lb')
          else check_pending env ids errFinal (new(identifier := None)) lb)"

fun check_targets ::
  "('fw, 'w) lb_env \<Rightarrow> int list \<Rightarrow> go_error option \<Rightarrow> (int \<rightharpoonup> nat) \<Rightarrow> ('fw, 'w) LoadBalancer \<Rightarrow>
   go_error option \<times> (int \<rightharpoonup> nat) \<times> ('fw, 'w) LoadBalancer" where
  "check_targets env [] errFinal new lb = (errFinal, new, lb)"
| "check_targets env (identifier # ids) errFinal new lb =
     (case lb_targets lb identifier of
        None \<Rightarrow> check_targets env ids errFinal new lb
      | Some p \<Rightarrow>
          if (case new identifier of None \<Rightarrow> True | Some n \<Rightarrow> \<not> same_ips lb p n) then
            (case RemoveTarget env identifier lb of
               (err, lb') \<Rightarrow>
                 check_targets env ids (case err of None \<Rightarrow> errFinal | Some e \<Rightarrow> AppendErr errFinal e) new lb')
          else check_targets env ids errFinal (new(identifier := None)) lb)"

fun add_targets ::
  "('fw, 'w) lb_env \<Rightarrow> int list \<Rightarrow> go_error option \<Rightarrow> (int \<rightharpoonup> nat) \<Rightarrow> ('fw, 'w) LoadBalancer \<Rightarrow>
   go_error option \<times> ('fw, 'w) LoadBalancer" where
  "add_targets env [] errFinal new lb = (errFinal, lb)"
| "add_targets env (identifier # ids) errFinal new lb =
     (case new identifier of
        None \<Rightarrow> add_targets env ids errFinal new lb
      | Some r \<Rightarrow>
          (case AddTarget env r lb of
             (err, lb') \<Rightarrow> add_targets env ids (case err of None \<Rightarrow> errFinal | Some e \<Rightarrow> AppendErr errFinal e) new lb'))"

definition setTargets ::
  "('fw, 'w) lb_env \<Rightarrow> int_order \<Rightarrow> Target list \<Rightarrow> ('fw, 'w) LoadBalancer \<Rightarrow> go_error option \<times> ('fw, 'w) LoadBalancer" where
  "setTargets env it targets lb =
     (if \<not> isStreamRunning lb then (None, lb)
      else case make_targets targets Map.empty lb of
             (new, lb1) \<Rightarrow>
               (case check_pending env (it 0 (dom (lb_pendingTargets lb1))) None new lb1 of
                  (err1, new1, lb2) \<Rightarrow>
                    (case check_targets env (it 1 (dom (lb_targets lb2))) err1 new1 lb2 of
                       (err2, new2, lb3) \<Rightarrow> add_targets env (it 2 (dom new2)) err2 new2 lb3)))"

subsection \<open>Pending targets\<close>

fun verifyTargets :: "('fw, 'w) lb_env \<Rightarrow> int list \<Rightarrow> ('fw, 'w) LoadBalancer \<Rightarrow> ('fw, 'w) LoadBalancer" where
  "verifyTargets env [] lb = lb"
| "verifyTargets env (identifier # ids) lb =
     (case lb_targets lb identifier of
        None \<Rightarrow> verifyTargets env ids lb
      | Some r \<Rightarrow>
          if lt_Verify env (lb_heap lb r) (lb_world lb) then verifyTargets env ids lb
          else verifyTargets env ids
                 (addPendingTarget r (snd (removeTarget env (lt_identifier (lb_heap lb r)) False lb))))"

fun retryPendingTargets :: "('fw, 'w) lb_env \<Rightarrow> int list \<Rightarrow> ('fw, 'w) LoadBalancer \<Rightarrow> ('fw, 'w) LoadBalancer" where
  "retryPendingTargets env [] lb = lb"
| "retryPendingTargets env (identifier # ids) lb =
     (case lb_pendingTargets lb identifier of
        None \<Rightarrow> retryPendingTargets env ids lb
      | Some r \<Rightarrow> retryPendingTargets env ids (snd (AddTarget env r lb)))"

text \<open>\<open>checkf\<close> of \<open>processPendingTargets\<close>, run every ten seconds and after a trigger.\<close>

definition checkf :: "('fw, 'w) lb_env \<Rightarrow> int_order \<Rightarrow> ('fw, 'w) LoadBalancer \<Rightarrow> ('fw, 'w) LoadBalancer" where
  "checkf env it lb =
     (let initialTargetsPresent = dom (lb_targets lb) \<noteq> {};
          lb1 = verifyTargets env (it 0 (dom (lb_targets lb))) lb;
          allTargetsRemovedByVerification = (initialTargetsPresent \<and> dom (lb_targets lb1) = {});
          lb2 = retryPendingTargets env (it 1 (dom (lb_pendingTargets lb1))) lb1
      in if allTargetsRemovedByVerification \<and> dom (lb_targets lb2) = {}
         then lb2\<lparr>lb_fas := fas_Unregister (fas_skip env) (stream_name (lb_Stream lb2)) (lb_fas lb2)\<rparr>
         else lb2)"

definition triggerPendingTargets :: "('fw, 'w) LoadBalancer \<Rightarrow> ('fw, 'w) LoadBalancer" where
  "triggerPendingTargets lb = (if isStreamRunning lb then lb\<lparr>lb_pendingCh := True\<rparr> else lb)"

text \<open>\<open>InterfaceCreated\<close> and \<open>InterfaceDeleted\<close> for an interface name.\<close>

definition InterfaceEvent :: "string \<Rightarrow> string \<Rightarrow> ('fw, 'w) LoadBalancer \<Rightarrow> ('fw, 'w) LoadBalancer" where
  "InterfaceEvent interfaceNamePrefix name lb =
     (if take (length interfaceNamePrefix) name = interfaceNamePrefix then triggerPendingTargets lb else lb)"

text \<open>The longest interface name of the kernel is a constant of the NSM API, hence an argument.\<close>

definition SetInterfaceNamePrefix :: "nat \<Rightarrow> string \<Rightarrow> string" where
  "SetInterfaceNamePrefix LinuxIfMaxLength ns =
     (let nsMaxLength = LinuxIfMaxLength - 5 in if length ns > nsMaxLength then take nsMaxLength ns else ns)"

subsection \<open>Flows\<close>

definition flow_New :: "('fw, 'w) lb_env \<Rightarrow> Flow \<Rightarrow> 'w \<Rightarrow> Flow option \<times> 'w" where
  "flow_New env f w = (case nfq_SetFlow env f w of (None, w') \<Rightarrow> (Some f, w') | (Some _, w') \<Rightarrow> (None, w'))"

text \<open>\<open>Update\<close> stores the new flow before it is set; the first component is False for an error.\<close>

definition flow_Update :: "('fw, 'w) lb_env \<Rightarrow> Flow \<Rightarrow> Flow \<Rightarrow> 'w \<Rightarrow> bool \<times> Flow \<times> 'w" where
  "flow_Update env old f w =
     (if DeepEquals (Some old) (Some f) then (True, old, w)
      else if flow_name old \<noteq> flow_name f then (False, old, w)
      else case nfq_SetFlow env f w of (None, w') \<Rightarrow> (True, f, w') | (Some _, w') \<Rightarrow> (False, f, w'))"

fun set_flow_list ::
  "('fw, 'w) lb_env \<Rightarrow> Flow list \<Rightarrow> string set \<Rightarrow> (string \<rightharpoonup> Flow) \<times> 'w \<Rightarrow> string set \<times> (string \<rightharpoonup> Flow) \<times> 'w" where
  "set_flow_list env [] remaining (fls, w) = (remaining, fls, w)"
| "set_flow_list env (f # fs) remaining (fls, w) =
     (case fls (flow_name f) of
        None \<Rightarrow>
          (case flow_New env f w of
             (None, w') \<Rightarrow> set_flow_list env fs remaining (fls, w')
           | (Some new, w') \<Rightarrow> set_flow_list env fs (remaining - {flow_name f}) (fls(flow_name f \<mapsto> new), w'))
      | Some old \<Rightarrow>
          (case flow_Update env old f w of
             (False, new, w') \<Rightarrow> set_flow_list env fs remaining (fls(flow_name f \<mapsto> new), w')
           | (True, new, w') \<Rightarrow> set_flow_list env fs (remaining - {flow_name f}) (fls(flow_name f \<mapsto> new), w')))"

fun delete_flows :: "('fw, 'w) lb_env \<Rightarrow> string list \<Rightarrow> (string \<rightharpoonup> Flow) \<times> 'w \<Rightarrow> (string \<rightharpoonup> Flow) \<times> 'w" where
  "delete_flows env [] (fls, w) = (fls, w)"
| "delete_flows env (name # names) (fls, w) =
     (case fls name of
        None \<Rightarrow> delete_flows env names (fls, w)
      | Some f \<Rightarrow> delete_flows env names (fls(name := None), snd (nfq_DeleteFlow env f w)))"

definition setFlows ::
  "('fw, 'w) lb_env \<Rightarrow> (string set \<Rightarrow> string list) \<Rightarrow> Flow list \<Rightarrow> ('fw, 'w) LoadBalancer \<Rightarrow> ('fw, 'w) LoadBalancer" where
  "setFlows env it flows lb =
     (if \<not> isStreamRunning lb then lb
      else case set_flow_list env flows (dom (lb_flows lb)) (lb_flows lb, lb_world lb) of
             (remaining, fls1, w1) \<Rightarrow>
               (case delete_flows env (it remaining) (fls1, w1) of
                  (fls2, w2) \<Rightarrow>
                    lb\<lparr>lb_flows := fls2, lb_world := w2, lb_flowSvc := lb_flowSvc lb \<or> dom fls2 \<noteq> {}\<rparr>))"

subsection \<open>Start and deletion of the stream\<close>

definition lb_New :: "Stream \<Rightarrow> int \<Rightarrow> ForwardingAvailabilityService \<Rightarrow> HitsMetrics \<Rightarrow> (nat \<Rightarrow> 'fw lb_target) \<Rightarrow> 'w \<Rightarrow> ('fw, 'w) LoadBalancer" where
  "lb_New stream offset fas hits heap w =
     \<lparr>lb_Stream = stream, lb_IdentifierOffset = offset, lb_flows = Map.empty, lb_targets = Map.empty,
      lb_pendingTargets = Map.empty, lb_pendingCh = False, lb_context = CtxNil, lb_heap = heap, lb_next = 0,
      lb_world = w, lb_hits = hits, lb_neighbors = Map.empty, lb_fas = fas, lb_flowSvc = False\<rparr>"

definition lb_Start :: "('fw, 'w) LoadBalancer \<Rightarrow> ('fw, 'w) LoadBalancer" where
  "lb_Start lb = lb\<lparr>lb_context := CtxRunning\<rparr>"

fun remove_all ::
  "('fw, 'w) lb_env \<Rightarrow> int list \<Rightarrow> go_error option \<Rightarrow> ('fw, 'w) LoadBalancer \<Rightarrow> go_error option \<times> ('fw, 'w) LoadBalancer" where
  "remove_all env [] errFinal lb = (errFinal, lb)"
| "remove_all env (identifier # ids) errFinal lb =
     (case RemoveTarget env identifier lb of
        (None, lb') \<Rightarrow> remove_all env ids errFinal lb'
      | (Some e, lb') \<Rightarrow> remove_all env ids (AppendErr errFinal (ErrMsg ''target'' # e)) lb')"

fun delete_all_flows ::
  "('fw, 'w) lb_env \<Rightarrow> Flow list \<Rightarrow> go_error option \<Rightarrow> 'w \<Rightarrow> go_error option \<times> 'w" where
  "delete_all_flows env [] errFinal w = (errFinal, w)"
| "delete_all_flows env (f # fs) errFinal w =
     (case nfq_DeleteFlow env f w of
        (None, w') \<Rightarrow> delete_all_flows env fs errFinal w'
      | (Some e, w') \<Rightarrow> delete_all_flows env fs (AppendErr errFinal (ErrMsg ''flow'' # e)) w')"

definition lb_Delete ::
  "('fw, 'w) lb_env \<Rightarrow> int_order \<Rightarrow> (string set \<Rightarrow> string list) \<Rightarrow> ('fw, 'w) LoadBalancer \<Rightarrow> go_error option \<times> ('fw, 'w) LoadBalancer" where
  "lb_Delete env it itf lb =
     (let lb0 = (if lb_context lb = CtxNil then lb else lb\<lparr>lb_context := CtxCancelled\<rparr>)
      in case remove_all env (it 0 (dom (lb_targets lb0))) None lb0 of
           (err1, lb1) \<Rightarrow>
             (case delete_all_flows env (map (\<lambda>n. the (lb_flows lb1 n)) (itf (dom (lb_flows lb1)))) err1 (lb_world lb1) of
                (err2, w2) \<Rightarrow>
                  (case nfq_Delete env w2 of
                     (None, w3) \<Rightarrow> (err2, lb1\<lparr>lb_world := w3\<rparr>)
                   | (Some e, w3) \<Rightarrow> (AppendErr err2 (ErrMsg ''nfqlb'' # e), lb1\<lparr>lb_world := w3\<rparr>))))"


subsection \<open>Vocabulary of the properties\<close>

definition keeps_set :: "int_order \<Rightarrow> bool" where
  "keeps_set it \<longleftrightarrow> (\<forall>n S. finite S \<longrightarrow> set (it n S) = S \<and> distinct (it n S))"

text \<open>Only the object \<open>r\<close> changes, and only its routes; the rest of the static state is the same.\<close>

definition touches :: "nat \<Rightarrow> ('fw, 'w) LoadBalancer \<Rightarrow> ('fw, 'w) LoadBalancer \<Rightarrow> bool" where
  "touches r lb lb' \<longleftrightarrow>
     lb_Stream lb' = lb_Stream lb \<and> lb_IdentifierOffset lb' = lb_IdentifierOffset lb \<and>
     lb_context lb' = lb_context lb \<and> lb_next lb' = lb_next lb \<and> lb_flows lb' = lb_flows lb \<and>
     (\<forall>q. q \<noteq> r \<longrightarrow> lb_heap lb' q = lb_heap lb q) \<and>
     lt_nspTarget (lb_heap lb' r) = lt_nspTarget (lb_heap lb r) \<and>
     lt_identifier (lb_heap lb' r) = lt_identifier (lb_heap lb r) \<and>
     lt_identifierOffset (lb_heap lb' r) = lt_identifierOffset (lb_heap lb r)"

definition lb_inv :: "('fw, 'w) LoadBalancer \<Rightarrow> bool" where
  "lb_inv lb \<longleftrightarrow>
     finite (dom (lb_targets lb)) \<and> finite (dom (lb_pendingTargets lb)) \<and>
     dom (lb_targets lb) \<inter> dom (lb_pendingTargets lb) = {} \<and>
     (\<forall>i r. lb_targets lb i = Some r \<longrightarrow> r < lb_next lb \<and> lt_identifier (lb_heap lb r) = i \<and>
        length (lt_fwMarks (lb_heap lb r)) = length (lt_GetIps (lb_heap lb r))) \<and>
     (\<forall>i r. lb_pendingTargets lb i = Some r \<longrightarrow> r < lb_next lb \<and> lt_identifier (lb_heap lb r) = i \<and>
        lt_fwMarks (lb_heap lb r) = [])"

definition lb_announced :: "('fw, 'w) LoadBalancer \<Rightarrow> bool" where
  "lb_announced lb \<longleftrightarrow> (\<forall>P. forwardingPlane (lb_fas lb) = Some P \<longrightarrow>
     (stream_name (lb_Stream lb) \<in> P \<longleftrightarrow> dom (lb_targets lb) \<noteq> {}))"

text \<open>What a response asks for: the last enabled target with each identifier.\<close>

fun configured :: "Target list \<Rightarrow> (int \<rightharpoonup> Target) \<Rightarrow> (int \<rightharpoonup> Target)" where
  "configured [] m = m"
| "configured (t # ts) m =
     configured ts (if target_status t \<noteq> ENABLED then m
       else case target_context t IdentifierKey of None \<Rightarrow> m
            | Some s \<Rightarrow> (case atoi s of None \<Rightarrow> m | Some i \<Rightarrow> m(i \<mapsto> t)))"

definition new_ok :: "('fw, 'w) LoadBalancer \<Rightarrow> (int \<rightharpoonup> nat) \<Rightarrow> bool" where
  "new_ok lb new \<longleftrightarrow> finite (dom new) \<and> (\<forall>i r. new i = Some r \<longrightarrow> r < lb_next lb \<and> lt_identifier (lb_heap lb r) = i \<and>
     lt_fwMarks (lb_heap lb r) = [] \<and> r \<notin> ran (lb_targets lb) \<and> r \<notin> ran (lb_pendingTargets lb))"

definition kept :: "('fw, 'w) LoadBalancer \<Rightarrow> (int \<rightharpoonup> nat) \<Rightarrow> (int \<rightharpoonup> nat) \<Rightarrow> int \<Rightarrow> bool" where
  "kept lb old new i \<longleftrightarrow> (\<exists>p n. old i = Some p \<and> new i = Some n \<and> same_ips lb p n)"

definition lb_like :: "('fw, 'w) LoadBalancer \<Rightarrow> ('fw, 'w) LoadBalancer \<Rightarrow> bool" where
  "lb_like lb lb' \<longleftrightarrow> lb_Stream lb' = lb_Stream lb \<and> lb_IdentifierOffset lb' = lb_IdentifierOffset lb \<and>
     lb_context lb' = lb_context lb \<and> lb_next lb' = lb_next lb \<and>
     (\<forall>q. lt_identifier (lb_heap lb' q) = lt_identifier (lb_heap lb q) \<and> lt_GetIps (lb_heap lb' q) = lt_GetIps (lb_heap lb q))"

section \<open>Lemmas\<close>

subsection \<open>Single operations\<close>

lemma touches_refl [simp]: "touches r lb lb"
  by (simp add: touches_def)

lemma touches_trans: "touches r lb lb' \<Longrightarrow> touches r lb' lb'' \<Longrightarrow> touches r lb lb''"
  unfolding touches_def by simp

lemma configure_routes_length:
  "configure_routes env o1 ips fws w = (None, fws', w') \<Longrightarrow> length fws' = length fws + length ips"
  by (induction ips arbitrary: fws w) (auto split: prod.splits sum.splits)

lemma touches_world [simp]:
  "touches r lb (lb\<lparr>lb_world := w\<rparr>)" "touches r lb (lb\<lparr>lb_targets := ts\<rparr>)" "touches r lb (lb\<lparr>lb_pendingTargets := ts\<rparr>)"
  "touches r lb (lb\<lparr>lb_neighbors := ns\<rparr>)" "touches r lb (lb\<lparr>lb_fas := f\<rparr>)" "touches r lb (lb\<lparr>lb_hits := h\<rparr>)"
  by (simp_all add: touches_def)

lemma hm_same [simp]:
  "touches r lb (hm_Register env i t lb)" "touches r lb (hm_Unregister env i lb)"
  "lb_targets (hm_Register env i t lb) = lb_targets lb" "lb_targets (hm_Unregister env i lb) = lb_targets lb"
  "lb_pendingTargets (hm_Register env i t lb) = lb_pendingTargets lb"
  "lb_pendingTargets (hm_Unregister env i lb) = lb_pendingTargets lb"
  "lb_fas (hm_Register env i t lb) = lb_fas lb" "lb_fas (hm_Unregister env i lb) = lb_fas lb"
  "lb_heap (hm_Register env i t lb) = lb_heap lb" "lb_heap (hm_Unregister env i lb) = lb_heap lb"
  by (simp_all add: hm_Register_def hm_Unregister_def touches_def)

lemma set_fwMarks_same [simp]:
  "touches r lb (set_fwMarks r fws lb)" "lb_targets (set_fwMarks r fws lb) = lb_targets lb"
  "lb_pendingTargets (set_fwMarks r fws lb) = lb_pendingTargets lb" "lb_fas (set_fwMarks r fws lb) = lb_fas lb"
  "lt_fwMarks (lb_heap (set_fwMarks r fws lb) r) = fws"
  by (simp_all add: set_fwMarks_def touches_def)

lemma touches_via [simp]:
  "touches r lb (hm_Register env i t (set_fwMarks r fws (lb\<lparr>lb_world := w\<rparr>)))"
  "touches r lb (hm_Unregister env i (set_fwMarks r fws (lb\<lparr>lb_world := w\<rparr>)))"
  "touches r lb (set_fwMarks r fws (lb\<lparr>lb_world := w\<rparr>))"
  by (rule touches_trans [OF touches_trans [OF touches_world(1) set_fwMarks_same(1)] hm_same(1)]
      touches_trans [OF touches_trans [OF touches_world(1) set_fwMarks_same(1)] hm_same(2)]
      touches_trans [OF touches_world(1) set_fwMarks_same(1)])+

lemma lt_Configure_spec:
  assumes "lt_Configure env r lb = (err, lb')"
  shows "touches r lb lb' \<and> lb_targets lb' = lb_targets lb \<and> lb_pendingTargets lb' = lb_pendingTargets lb \<and>
    lb_fas lb' = lb_fas lb \<and>
    (err = None \<longrightarrow> length (lt_fwMarks (lb_heap lb' r)) = length (lt_fwMarks (lb_heap lb r)) + length (lt_GetIps (lb_heap lb r)))"
  using assms by (auto simp: lt_Configure_def Let_def split: prod.splits option.splits dest!: configure_routes_length)

lemma lt_Delete_spec:
  assumes "lt_Delete env r lb = (err, lb')"
  shows "touches r lb lb' \<and> lb_targets lb' = lb_targets lb \<and> lb_pendingTargets lb' = lb_pendingTargets lb \<and>
    lb_fas lb' = lb_fas lb \<and> lt_fwMarks (lb_heap lb' r) = []"
  using assms by (auto simp: lt_Delete_def Let_def split: prod.splits)

lemma touches_identifier:
  "touches r lb lb' \<Longrightarrow> lt_identifier (lb_heap lb' q) = lt_identifier (lb_heap lb q)"
  "touches r lb lb' \<Longrightarrow> lt_GetIps (lb_heap lb' q) = lt_GetIps (lb_heap lb q)"
  by (cases "q = r"; simp add: touches_def lt_GetIps_def)+

lemma add_failed_spec:
  assumes "add_failed env msg err r lb = (e, lb')"
    "lb_pendingTargets lb (lt_identifier (lb_heap lb r)) \<in> {None, Some r}"
  shows "e \<noteq> None \<and> touches r lb lb' \<and> lb_targets lb' = lb_targets lb \<and>
    lb_pendingTargets lb' = (lb_pendingTargets lb)(lt_identifier (lb_heap lb r) \<mapsto> r) \<and>
    lb_fas lb' = lb_fas lb \<and> lt_fwMarks (lb_heap lb' r) = []"
proof -
  obtain derr where d: "lt_Delete env r (addPendingTarget r lb) = (derr, lb')" "e \<noteq> None"
    using assms(1) by (auto simp: add_failed_def split: prod.splits option.splits)
  have t: "touches r lb (addPendingTarget r lb)" and "lb_targets (addPendingTarget r lb) = lb_targets lb"
    "lb_fas (addPendingTarget r lb) = lb_fas lb"
    by (simp_all add: addPendingTarget_def Let_def)
  moreover have "lb_pendingTargets (addPendingTarget r lb) = (lb_pendingTargets lb)(lt_identifier (lb_heap lb r) \<mapsto> r)"
    using assms(2) by (auto simp: addPendingTarget_def Let_def)
  ultimately show ?thesis
    using lt_Delete_spec [OF d(1)] d(2) touches_trans [OF t] by simp
qed


lemma AddTarget_spec:
  assumes "AddTarget env r lb = (e, lb')" "lb_targets lb (lt_identifier (lb_heap lb r)) = None"
    "lb_pendingTargets lb (lt_identifier (lb_heap lb r)) \<in> {None, Some r}" "lt_fwMarks (lb_heap lb r) = []"
  defines "i \<equiv> lt_identifier (lb_heap lb r)"
  shows "touches r lb lb' \<and>
    (if e = None
     then lb_targets lb' = (lb_targets lb)(i \<mapsto> r) \<and> lb_pendingTargets lb' = (lb_pendingTargets lb)(i := None) \<and>
          lb_fas lb' = fas_Register (fas_skip env) (stream_name (lb_Stream lb)) (lb_fas lb) \<and>
          length (lt_fwMarks (lb_heap lb' r)) = length (lt_GetIps (lb_heap lb r))
     else lb_targets lb' = lb_targets lb \<and> lb_pendingTargets lb' = (lb_pendingTargets lb)(i \<mapsto> r) \<and>
          lb_fas lb' = lb_fas lb \<and> lt_fwMarks (lb_heap lb' r) = [])"
proof -
  obtain cerr lb1 where c: "lt_Configure env r lb = (cerr, lb1)" by fastforce
  note cs = lt_Configure_spec [OF c]
  have id1: "lt_identifier (lb_heap lb1 r) = i" using touches_identifier(1) [OF conjunct1 [OF cs]] by (simp add: i_def)
  show ?thesis
  proof (cases cerr)
    case (Some ce)
    then have f: "add_failed env ''target configure error'' ce r lb1 = (e, lb')"
      using assms(1,2) c by (simp add: AddTarget_def targetExists_def getTarget_def Let_def)
    show ?thesis
      using add_failed_spec [OF f] cs id1 assms(3) touches_trans [of r lb lb1 lb'] by (auto simp: i_def)
  next
    case None
    obtain aerr w where a: "nfq_Activate env i (wrap_int (i + lb_IdentifierOffset lb1)) (lb_world lb1) = (aerr, w)"
      by fastforce
    show ?thesis
    proof (cases aerr)
      case (Some ae)
      then have f: "add_failed env ''target activate error'' ae r (lb1\<lparr>lb_world := w\<rparr>) = (e, lb')"
        using assms(1,2) c None a by (simp add: AddTarget_def targetExists_def getTarget_def Let_def i_def)
      show ?thesis
        using add_failed_spec [OF f] cs id1 assms(3)
          touches_trans [OF touches_trans [OF conjunct1 [OF cs] touches_world(1) [of r lb1 w]], of lb']
        by (auto simp: i_def)
    next
      case None': None
      let ?lb3 = "lb1\<lparr>lb_world := w, lb_targets := (lb_targets lb1)(i \<mapsto> r),
          lb_neighbors := nrd_Register (lt_GetIps (lb_heap lb1 r)) (lb_neighbors lb1)\<rparr>"
      have lb': "e = None" "lb' = (removeFromPendingTarget r ?lb3)\<lparr>lb_fas :=
          fas_Register (fas_skip env) (stream_name (lb_Stream lb1)) (lb_fas lb1)\<rparr>"
        using assms(1,2) c None a None'
        by (auto simp: AddTarget_def targetExists_def getTarget_def Let_def i_def removeFromPendingTarget_def)
      have "touches r lb1 lb'" "lb_heap lb' = lb_heap lb1" "lb_targets lb' = (lb_targets lb1)(i \<mapsto> r)"
        "lb_pendingTargets lb' = (lb_pendingTargets lb1)(i := None)"
        using id1 by (auto simp: lb'(2) removeFromPendingTarget_def touches_def)
      then show ?thesis
        using cs lb' None assms(4) touches_trans [of r lb lb1 lb'] by (simp add: touches_def)
    qed
  qed
qed

lemma removeTarget_none:
  "lb_targets lb i = None \<Longrightarrow>
     removeTarget env i b lb = (Some [ErrNoTarget], lb\<lparr>lb_pendingTargets := (lb_pendingTargets lb)(i := None)\<rparr>)"
  by (auto simp: removeTarget_def removeFromPendingTargetByIdentifier_def getTarget_def Let_def fun_upd_idem)

lemma removeTarget_spec:
  assumes "removeTarget env i b lb = (e, lb')" "lb_targets lb i = Some r" "lt_identifier (lb_heap lb r) = i"
  shows "touches r lb lb' \<and> lb_targets lb' = (lb_targets lb)(i := None) \<and>
    lb_pendingTargets lb' = (lb_pendingTargets lb)(i := None) \<and> lt_fwMarks (lb_heap lb' r) = [] \<and>
    lb_fas lb' = (if b \<and> dom ((lb_targets lb)(i := None)) = {}
                  then fas_Unregister (fas_skip env) (stream_name (lb_Stream lb)) (lb_fas lb) else lb_fas lb)"
proof -
  define lb0 where "lb0 = removeFromPendingTargetByIdentifier i lb"
  have lb0: "touches r lb lb0" "lb_targets lb0 = lb_targets lb" "lb_pendingTargets lb0 = (lb_pendingTargets lb)(i := None)"
    "lb_fas lb0 = lb_fas lb" "lb_heap lb0 = lb_heap lb"
    by (auto simp: lb0_def removeFromPendingTargetByIdentifier_def fun_upd_idem)
  let ?lb1 = "\<lambda>w. lb0\<lparr>lb_neighbors := nrd_Unregister (lt_GetIps (lb_heap lb0 r)) (lb_neighbors lb0), lb_world := w\<rparr>"
  obtain derr w where d: "nfq_Deactivate env i (lb_world lb0) = (derr, w)" by fastforce
  obtain terr lb2 where t: "lt_Delete env r (?lb1 w) = (terr, lb2)" by fastforce
  note ts = lt_Delete_spec [OF t]
  have t1: "touches r lb lb2"
    using touches_trans [OF lb0(1) touches_trans [OF touches_trans [OF touches_world(4) touches_world(1)] conjunct1 [OF ts]]]
    by simp
  have "snd (removeTarget env i b lb) = (if b \<and> dom ((lb_targets lb)(i := None)) = {}
      then lb2\<lparr>lb_targets := (lb_targets lb)(i := None), lb_fas := fas_Unregister (fas_skip env) (stream_name (lb_Stream lb2)) (lb_fas lb2)\<rparr>
      else lb2\<lparr>lb_targets := (lb_targets lb)(i := None)\<rparr>)"
    by (simp add: removeTarget_def lb0_def [symmetric] getTarget_def Let_def assms lb0 d t [unfolded lb0] ts
        del: dom_eq_empty_conv dom_fun_upd)
  then have "lb' = (if b \<and> dom ((lb_targets lb)(i := None)) = {}
      then lb2\<lparr>lb_targets := (lb_targets lb)(i := None), lb_fas := fas_Unregister (fas_skip env) (stream_name (lb_Stream lb2)) (lb_fas lb2)\<rparr>
      else lb2\<lparr>lb_targets := (lb_targets lb)(i := None)\<rparr>)"
    using assms(1) by simp
  then show ?thesis
    using ts lb0 t1 by (simp add: touches_def del: dom_eq_empty_conv dom_fun_upd)
qed


subsection \<open>The invariant\<close>

lemma lb_invD:
  assumes "lb_inv lb"
  shows "lb_targets lb i = Some r \<Longrightarrow> r < lb_next lb" "lb_targets lb i = Some r \<Longrightarrow> lt_identifier (lb_heap lb r) = i"
    "lb_targets lb i = Some r \<Longrightarrow> length (lt_fwMarks (lb_heap lb r)) = length (lt_GetIps (lb_heap lb r))"
    "lb_pendingTargets lb i = Some r \<Longrightarrow> r < lb_next lb"
    "lb_pendingTargets lb i = Some r \<Longrightarrow> lt_identifier (lb_heap lb r) = i"
    "lb_pendingTargets lb i = Some r \<Longrightarrow> lt_fwMarks (lb_heap lb r) = []"
    "lb_pendingTargets lb i = Some r \<Longrightarrow> lb_targets lb i = None"
    "lb_targets lb i = Some r' \<Longrightarrow> lb_pendingTargets lb i = None"
    "finite (dom (lb_targets lb))" "finite (dom (lb_pendingTargets lb))"
  using assms by (auto simp: lb_inv_def)

lemma lb_invI:
  assumes "finite (dom (lb_targets lb))" "finite (dom (lb_pendingTargets lb))"
    "\<And>i r. lb_targets lb i = Some r \<Longrightarrow> lb_pendingTargets lb i = None \<and> r < lb_next lb \<and> lt_identifier (lb_heap lb r) = i \<and>
        length (lt_fwMarks (lb_heap lb r)) = length (lt_GetIps (lb_heap lb r))"
    "\<And>i r. lb_pendingTargets lb i = Some r \<Longrightarrow> r < lb_next lb \<and> lt_identifier (lb_heap lb r) = i \<and> lt_fwMarks (lb_heap lb r) = []"
  shows "lb_inv lb"
  unfolding lb_inv_def using assms by auto

lemma lb_inv_drop_pending:
  assumes "lb_inv lb"
  shows "lb_inv (lb\<lparr>lb_pendingTargets := (lb_pendingTargets lb)(i := None)\<rparr>)"
  by (rule lb_invI) (use lb_invD [OF assms] in \<open>auto split: if_splits\<close>)

lemma touches_heap:
  "touches r lb lb' \<Longrightarrow> q \<noteq> r \<Longrightarrow> lb_heap lb' q = lb_heap lb q"
  "touches r lb lb' \<Longrightarrow> lb_next lb' = lb_next lb" "touches r lb lb' \<Longrightarrow> lb_Stream lb' = lb_Stream lb"
  "touches r lb lb' \<Longrightarrow> lb_context lb' = lb_context lb" "touches r lb lb' \<Longrightarrow> lb_IdentifierOffset lb' = lb_IdentifierOffset lb"
  by (simp_all add: touches_def)

lemma lb_inv_touched:
  assumes "lb_inv lb" "touches r lb lb'" "lt_identifier (lb_heap lb r) = i" "r < lb_next lb"
    "lb_targets lb' = (lb_targets lb)(i := t)" "lb_pendingTargets lb' = (lb_pendingTargets lb)(i := p)"
    "(t = Some r \<and> p = None \<and> length (lt_fwMarks (lb_heap lb' r)) = length (lt_GetIps (lb_heap lb r))) \<or>
     (t = None \<and> p = Some r \<and> lt_fwMarks (lb_heap lb' r) = []) \<or> (t = None \<and> p = None)"
  shows "lb_inv lb'"
proof -
  have other: "lb_heap lb' q = lb_heap lb q" if "lb_targets lb j = Some q \<or> lb_pendingTargets lb j = Some q" "j \<noteq> i" for j q
  proof -
    have "lt_identifier (lb_heap lb q) = j" using that lb_invD [OF assms(1)] by blast
    then have "q \<noteq> r" using that(2) assms(3) by auto
    then show ?thesis by (rule touches_heap(1) [OF assms(2)])
  qed
  show ?thesis
  proof (rule lb_invI)
    show "finite (dom (lb_targets lb'))" "finite (dom (lb_pendingTargets lb'))"
      using lb_invD(9,10) [OF assms(1)] assms(5,6) by (auto simp: dom_if split: if_splits)
  next
    fix j q assume q: "lb_targets lb' j = Some q"
    show "lb_pendingTargets lb' j = None \<and> q < lb_next lb' \<and> lt_identifier (lb_heap lb' q) = j \<and>
        length (lt_fwMarks (lb_heap lb' q)) = length (lt_GetIps (lb_heap lb' q))"
    proof (cases "j = i")
      case True
      then show ?thesis using q assms(3-7) touches_identifier [OF assms(2), of r] touches_heap(2) [OF assms(2)] by auto
    next
      case False
      then have "lb_targets lb j = Some q" using q assms(5) by simp
      then show ?thesis using False other [of j q] lb_invD [OF assms(1)] assms(6) touches_heap(2) [OF assms(2)] by simp
    qed
  next
    fix j q assume q: "lb_pendingTargets lb' j = Some q"
    show "q < lb_next lb' \<and> lt_identifier (lb_heap lb' q) = j \<and> lt_fwMarks (lb_heap lb' q) = []"
    proof (cases "j = i")
      case True
      then show ?thesis using q assms(3-7) touches_identifier [OF assms(2), of r] touches_heap(2) [OF assms(2)] by auto
    next
      case False
      then have "lb_pendingTargets lb j = Some q" using q assms(6) by simp
      then show ?thesis using False other [of j q] lb_invD [OF assms(1)] touches_heap(2) [OF assms(2)] by simp
    qed
  qed
qed

lemma AddTarget_inv:
  assumes "lb_inv lb" "AddTarget env r lb = (e, lb')" "lb_targets lb (lt_identifier (lb_heap lb r)) = None"
    "lb_pendingTargets lb (lt_identifier (lb_heap lb r)) \<in> {None, Some r}" "lt_fwMarks (lb_heap lb r) = []" "r < lb_next lb"
  shows "lb_inv lb'"
  using AddTarget_spec [OF assms(2-5)] assms(1,3,6)
  by (cases e) (auto intro: lb_inv_touched [OF assms(1) _ refl assms(6), of lb' "Some r" None]
      lb_inv_touched [OF assms(1) _ refl assms(6), of lb' None "Some r"] simp: fun_upd_idem)

lemma removeTarget_inv:
  assumes "lb_inv lb" "removeTarget env i b lb = (e, lb')"
  shows "lb_inv lb'"
proof (cases "lb_targets lb i")
  case None
  then show ?thesis using assms(2) lb_inv_drop_pending [OF assms(1), of i] by (auto simp: removeTarget_none)
next
  case (Some r)
  show ?thesis
    using removeTarget_spec [OF assms(2) Some lb_invD(2) [OF assms(1) Some]]
    by (intro lb_inv_touched [OF assms(1), of r lb' i None None]) (use lb_invD [OF assms(1)] Some in auto)
qed


end
