(* ===== verification/LbTargets.thy ===== *)
theory LbTargets
  imports LbStream
begin

text \<open>
  What the methods of a stream achieve together: \<open>setTargets\<close> makes the registered and pending targets
  exactly those of the configuration, the invariant of the maps holds after any sequence of
  events, and the forwarding path of the stream is announced exactly while it has targets.
\<close>

section \<open>Definitions\<close>

text \<open>\<open>known\<close> are the identifiers a stream has, registered or pending.\<close>

definition known :: "('fw, 'w) LoadBalancer \<Rightarrow> int set" where
  "known lb = dom (lb_targets lb) \<union> dom (lb_pendingTargets lb)"

definition half_announced :: "('fw, 'w) LoadBalancer \<Rightarrow> bool" where
  "half_announced lb \<longleftrightarrow> (\<forall>P. forwardingPlane (lb_fas lb) = Some P \<longrightarrow> dom (lb_targets lb) \<noteq> {} \<longrightarrow>
     stream_name (lb_Stream lb) \<in> P)"

definition flows_keyed :: "(string \<rightharpoonup> Flow) \<Rightarrow> bool" where
  "flows_keyed fls \<longleftrightarrow> (\<forall>n f. fls n = Some f \<longrightarrow> flow_name f = n)"

text \<open>What the loop over a response did for flow \<open>f\<close>: it is set (or was equal before), or setting it
  failed and it stays among those to delete.\<close>

definition flow_outcome ::
  "('fw, 'w) lb_env \<Rightarrow> Flow \<Rightarrow> string set \<Rightarrow> (string \<rightharpoonup> Flow) \<Rightarrow> string set \<Rightarrow> (string \<rightharpoonup> Flow) \<Rightarrow> bool" where
  "flow_outcome env f rem fls rem' fls' \<longleftrightarrow>
     (\<exists>g. fls' (flow_name f) = Some g \<and> flow_name f \<notin> rem' \<and>
        (g = f \<or> fls (flow_name f) = Some g \<and> DeepEquals (Some g) (Some f))) \<or>
     ((\<exists>w. fst (nfq_SetFlow env f w) \<noteq> None) \<and>
        (fls (flow_name f) = None \<and> fls' (flow_name f) = None \<or>
         fls (flow_name f) \<noteq> None \<and> (flow_name f \<in> rem' \<longleftrightarrow> flow_name f \<in> rem)))"

text \<open>The events of a running stream. The environment may change the world at any time, and the other
  users of the availability service change it for their own names or stop it.\<close>

inductive lb_step :: "('fw, 'w) lb_env \<Rightarrow> ('fw, 'w) LoadBalancer \<Rightarrow> ('fw, 'w) LoadBalancer \<Rightarrow> bool" for env where
  start: "lb_context lb = CtxNil \<Longrightarrow> lb_step env lb (lb_Start lb)"
| targets: "keeps_set it \<Longrightarrow> lb_step env lb (snd (setTargets env it ts lb))"
| flows: "lb_step env lb (setFlows env itf fs lb)"
| check: "keeps_set it \<Longrightarrow> lb_step env lb (checkf env it lb)"
| interface: "lb_step env lb (InterfaceEvent prefix name lb)"
| delete: "keeps_set it \<Longrightarrow> lb_step env lb (snd (lb_Delete env it itf lb))"
| world: "lb_step env lb (lb\<lparr>lb_world := w, lb_hits := hits\<rparr>)"
| availability: "forwardingPlane fas = None \<or> (\<exists>P Q. forwardingPlane (lb_fas lb) = Some P \<and> forwardingPlane fas = Some Q \<and>
    (stream_name (lb_Stream lb) \<in> Q \<longleftrightarrow> stream_name (lb_Stream lb) \<in> P)) \<Longrightarrow> lb_step env lb (lb\<lparr>lb_fas := fas\<rparr>)"

inductive lb_reach :: "('fw, 'w) lb_env \<Rightarrow> ('fw, 'w) LoadBalancer \<Rightarrow> bool" for env where
  new: "forwardingPlane fas = None \<or> (\<exists>P. forwardingPlane fas = Some P \<and> stream_name stream \<notin> P) \<Longrightarrow>
    lb_reach env (lb_New stream offset fas hits heap w)"
| step: "lb_reach env lb \<Longrightarrow> lb_step env lb lb' \<Longrightarrow> lb_reach env lb'"

section \<open>Lemmas\<close>

subsection \<open>The loops of \<open>setTargets\<close>\<close>

lemma lb_like_refl [simp]: "lb_like lb lb"
  by (simp add: lb_like_def)

lemma lb_like_trans: "lb_like lb lb' \<Longrightarrow> lb_like lb' lb'' \<Longrightarrow> lb_like lb lb''"
  by (simp add: lb_like_def)

lemma touches_like: "touches r lb lb' \<Longrightarrow> lb_like lb lb'"
  unfolding lb_like_def using touches_identifier [of r lb lb'] touches_heap [of r lb lb'] by blast

lemma like_same_ips: "lb_like lb lb' \<Longrightarrow> same_ips lb' p n = same_ips lb p n"
  by (simp add: lb_like_def same_ips_def)

lemma check_pending_spec:
  assumes "lb_inv lb" "distinct ids"
  shows "check_pending env ids e new lb =
    (e, \<lambda>i. if i \<in> set ids \<and> kept lb (lb_pendingTargets lb) new i then None else new i,
     lb\<lparr>lb_pendingTargets := (\<lambda>i. if i \<in> set ids \<and> \<not> kept lb (lb_pendingTargets lb) new i then None else lb_pendingTargets lb i)\<rparr>)"
  using assms
proof (induction ids arbitrary: new lb)
  case Nil
  then show ?case by simp
next
  case (Cons j ids)
  have j: "j \<notin> set ids" "distinct ids" using Cons.prems(2) by auto
  show ?case
  proof (cases "lb_pendingTargets lb j")
    case None
    then have "\<not> kept lb (lb_pendingTargets lb) new j" by (simp add: kept_def)
    with None show ?thesis using Cons.IH [OF Cons.prems(1) j(2)] by (auto intro!: arg_cong [where f = "\<lambda>p. lb\<lparr>lb_pendingTargets := p\<rparr>"])
  next
    case (Some p)
    show ?thesis
    proof (cases "kept lb (lb_pendingTargets lb) new j")
      case True
      then obtain n where n: "new j = Some n" "same_ips lb p n" using Some by (auto simp: kept_def)
      have k: "kept lb (lb_pendingTargets lb) (new(j := None)) i = kept lb (lb_pendingTargets lb) new i" if "i \<in> set ids" for i
        using that j(1) by (auto simp: kept_def)
      have "check_pending env (j # ids) e new lb = check_pending env ids e (new(j := None)) lb"
        using Some n by simp
      moreover have "(\<lambda>i. if i \<in> set ids \<and> kept lb (lb_pendingTargets lb) (new(j := None)) i then None else (new(j := None)) i) =
          (\<lambda>i. if i \<in> set (j # ids) \<and> kept lb (lb_pendingTargets lb) new i then None else new i)"
        by (rule ext) (use k True in auto)
      moreover have "(\<lambda>i. if i \<in> set ids \<and> \<not> kept lb (lb_pendingTargets lb) (new(j := None)) i then None else lb_pendingTargets lb i) =
          (\<lambda>i. if i \<in> set (j # ids) \<and> \<not> kept lb (lb_pendingTargets lb) new i then None else lb_pendingTargets lb i)"
        by (rule ext) (use k True in auto)
      ultimately show ?thesis by (simp only: Cons.IH [OF Cons.prems(1) j(2)])
    next
      case False
      let ?lb = "lb\<lparr>lb_pendingTargets := (lb_pendingTargets lb)(j := None)\<rparr>"
      have rm: "RemoveTarget env j lb = (Some [ErrNoTarget], ?lb)"
        using lb_invD(7) [OF Cons.prems(1) Some] by (simp add: RemoveTarget_def removeTarget_none)
      have c: "case new j of None \<Rightarrow> True | Some n \<Rightarrow> \<not> same_ips lb p n"
        using False Some by (auto simp: kept_def split: option.splits)
      have k: "kept ?lb ((lb_pendingTargets lb)(j := None)) new i = kept lb (lb_pendingTargets lb) new i" if "i \<in> set ids" for i
        using that j(1) by (auto simp: kept_def same_ips_def)
      have "check_pending env (j # ids) e new lb = check_pending env ids e new ?lb"
        using Some rm c by simp
      moreover have "(\<lambda>i. if i \<in> set ids \<and> kept ?lb (lb_pendingTargets ?lb) new i then None else new i) =
          (\<lambda>i. if i \<in> set (j # ids) \<and> kept lb (lb_pendingTargets lb) new i then None else new i)"
        by (rule ext) (use k False in auto)
      moreover have "(\<lambda>i. if i \<in> set ids \<and> \<not> kept ?lb (lb_pendingTargets ?lb) new i then None else lb_pendingTargets ?lb i) =
          (\<lambda>i. if i \<in> set (j # ids) \<and> \<not> kept lb (lb_pendingTargets lb) new i then None else lb_pendingTargets lb i)"
        by (rule ext) (use k False in auto)
      moreover have "?lb\<lparr>lb_pendingTargets := x\<rparr> = lb\<lparr>lb_pendingTargets := x\<rparr>" for x by simp
      ultimately show ?thesis by (simp only: Cons.IH [OF lb_inv_drop_pending [OF Cons.prems(1)] j(2)])
    qed
  qed
qed


lemma Register_plane [simp]:
  "forwardingPlane (fas_Register skip name fas) = map_option (insert name) (forwardingPlane fas)"
  by (auto simp: fas_Register_def split: option.splits)

lemma Unregister_plane [simp]:
  "forwardingPlane (fas_Unregister skip name fas) = map_option (\<lambda>P. P - {name}) (forwardingPlane fas)"
  by (auto simp: fas_Unregister_def Let_def split: option.splits)

lemma removeTarget_announced:
  assumes "lb_announced lb" "removeTarget env i True lb = (e, lb')" "lb_targets lb i = Some r" "lt_identifier (lb_heap lb r) = i"
  shows "lb_announced lb'"
proof -
  note rs = removeTarget_spec [OF assms(2-4)]
  have "lb_Stream lb' = lb_Stream lb" using rs touches_heap(3) by blast
  moreover have "dom (lb_targets lb) \<noteq> {}" using assms(3) by auto
  ultimately show ?thesis
    using assms(1) rs by (auto simp: lb_announced_def simp del: dom_eq_empty_conv dom_fun_upd split: if_splits)
qed

lemma AddTarget_announced:
  assumes "lb_announced lb" "AddTarget env r lb = (e, lb')" "lb_targets lb (lt_identifier (lb_heap lb r)) = None"
    "lb_pendingTargets lb (lt_identifier (lb_heap lb r)) \<in> {None, Some r}" "lt_fwMarks (lb_heap lb r) = []"
  shows "lb_announced lb'"
proof -
  note as = AddTarget_spec [OF assms(2-5)]
  have "lb_Stream lb' = lb_Stream lb" using as touches_heap(3) by blast
  then show ?thesis
    using assms(1) as by (cases e) (auto simp: lb_announced_def)
qed

lemma check_targets_spec:
  assumes "lb_inv lb" "new_ok lb new" "distinct ids" "check_targets env ids e new lb = (e', new', lb')"
    "\<And>i. i \<in> set ids \<Longrightarrow> K i = kept lb (lb_targets lb) new i"
  shows "(lb_inv lb' \<and> new_ok lb' new' \<and> lb_like lb lb' \<and> lb_pendingTargets lb' = lb_pendingTargets lb \<and>
      (lb_announced lb \<longrightarrow> lb_announced lb')) \<and>
    (\<forall>i. new' i = (if i \<in> set ids \<and> K i then None else new i)) \<and>
    (\<forall>i. lb_targets lb' i = (if i \<in> set ids \<and> \<not> K i then None else lb_targets lb i)) \<and>
    (\<forall>i r. lb_targets lb i = Some r \<longrightarrow> i \<notin> set ids \<or> K i \<longrightarrow> lb_heap lb' r = lb_heap lb r)"
  using assms
proof (induction ids arbitrary: e new lb)
  case Nil
  then show ?case by simp
next
  case (Cons j ids)
  have j: "j \<notin> set ids" "distinct ids" using Cons.prems(3) by auto
  have Kj: "K j = kept lb (lb_targets lb) new j" using Cons.prems(5) by simp
  show ?case
  proof (cases "lb_targets lb j")
    case None
    have "\<not> K j" "check_targets env ids e new lb = (e', new', lb')"
      using None Kj Cons.prems(4) by (simp_all add: kept_def)
    note ih = Cons.IH [OF Cons.prems(1,2) j(2) this(2) Cons.prems(5)]
    show ?thesis by (rule conjI, rule conjunct1 [OF ih]) (use conjunct2 [OF ih] None \<open>\<not> K j\<close> in auto)
  next
    case (Some p)
    show ?thesis
    proof (cases "K j")
      case True
      then obtain n where n: "new j = Some n" "same_ips lb p n" using Some Kj by (auto simp: kept_def)
      have k: "K i = kept lb (lb_targets lb) (new(j := None)) i" if "i \<in> set ids" for i
        using that j(1) Cons.prems(5) by (auto simp: kept_def)
      have nok: "new_ok lb (new(j := None))" using Cons.prems(2) by (auto simp: new_ok_def)
      have "check_targets env ids e (new(j := None)) lb = (e', new', lb')" using Cons.prems(4) Some n by simp
      note ih = Cons.IH [OF Cons.prems(1) nok j(2) this k]
      show ?thesis by (rule conjI, rule conjunct1 [OF ih]) (use conjunct2 [OF ih] True in auto)
    next
      case False
      obtain err lb1 where rm: "removeTarget env j True lb = (err, lb1)" by fastforce
      note rs = removeTarget_spec [OF rm Some lb_invD(2) [OF Cons.prems(1) Some]]
      have c: "case new j of None \<Rightarrow> True | Some n \<Rightarrow> \<not> same_ips lb p n"
        using False Kj Some by (auto simp: kept_def split: option.splits)
      have like: "lb_like lb lb1" using rs touches_like by blast
      have pend: "lb_pendingTargets lb1 = lb_pendingTargets lb"
        using rs lb_invD(8) [OF Cons.prems(1) Some] by (simp add: fun_upd_idem)
      have t1: "lb_targets lb1 = (lb_targets lb)(j := None)" using rs by blast
      have "lb_heap lb1 r = lb_heap lb r" if "new i = Some r" for i r
      proof -
        have "r \<notin> ran (lb_targets lb)" using that Cons.prems(2) by (auto simp: new_ok_def)
        then have "r \<noteq> p" using Some by (auto simp: ran_def)
        then show ?thesis using touches_heap(1) [OF conjunct1 [OF rs]] by simp
      qed
      then have nok: "new_ok lb1 new"
        using Cons.prems(2) t1 pend touches_heap(2) [OF conjunct1 [OF rs]]
        by (auto simp: new_ok_def ran_def split: if_splits)
      have k: "K i = kept lb1 (lb_targets lb1) new i" if "i \<in> set ids" for i
        using that j(1) t1 like_same_ips [OF like] Cons.prems(5) by (auto simp: kept_def)
      have hp: "lb_heap lb1 r = lb_heap lb r" if "lb_targets lb1 i = Some r" for i r
      proof -
        have "r \<noteq> p" using that t1 lb_invD(2) [OF Cons.prems(1)] Some by (auto split: if_splits)
        then show ?thesis using touches_heap(1) [OF conjunct1 [OF rs]] by simp
      qed
      have "check_targets env ids (case err of None \<Rightarrow> e | Some x \<Rightarrow> AppendErr e x) new lb1 = (e', new', lb')"
        using Cons.prems(4) Some rm c by (simp add: RemoveTarget_def)
      note ih = Cons.IH [OF removeTarget_inv [OF Cons.prems(1) rm] nok j(2) this k]
      have "lb_inv lb' \<and> new_ok lb' new' \<and> lb_like lb lb' \<and> lb_pendingTargets lb' = lb_pendingTargets lb \<and>
          (lb_announced lb \<longrightarrow> lb_announced lb')"
        using conjunct1 [OF ih] lb_like_trans [OF like] pend
          removeTarget_announced [OF _ rm Some lb_invD(2) [OF Cons.prems(1) Some]] by metis
      moreover have "lb_heap lb' r = lb_heap lb r"
        if "lb_targets lb i = Some r" "i \<notin> set (j # ids) \<or> K i" for i r
      proof -
        have i: "lb_targets lb1 i = Some r" "i \<notin> set ids \<or> K i" using that t1 False by auto
        then show ?thesis using conjunct2 [OF ih] hp [OF i(1)] by metis
      qed
      moreover have "(\<forall>i. new' i = (if i \<in> set (j # ids) \<and> K i then None else new i)) \<and>
          (\<forall>i. lb_targets lb' i = (if i \<in> set (j # ids) \<and> \<not> K i then None else lb_targets lb i))"
        using conjunct2 [OF ih] False t1 by auto
      ultimately show ?thesis by blast
    qed
  qed
qed


lemma add_targets_spec:
  assumes "lb_inv lb" "new_ok lb new" "distinct ids" "add_targets env ids e new lb = (e', lb')"
    "\<And>i. i \<in> set ids \<Longrightarrow> lb_targets lb i = None \<and> lb_pendingTargets lb i = None"
  shows "(lb_inv lb' \<and> lb_like lb lb' \<and> (lb_announced lb \<longrightarrow> lb_announced lb')) \<and>
    (\<forall>i. if i \<in> set ids \<and> new i \<noteq> None
         then (lb_targets lb' i = new i \<and> lb_pendingTargets lb' i = None) \<or> (lb_targets lb' i = None \<and> lb_pendingTargets lb' i = new i)
         else lb_targets lb' i = lb_targets lb i \<and> lb_pendingTargets lb' i = lb_pendingTargets lb i) \<and>
    (\<forall>i r. lb_targets lb i = Some r \<longrightarrow> lb_heap lb' r = lb_heap lb r)"
  using assms
proof (induction ids arbitrary: e new lb)
  case Nil
  then show ?case by simp
next
  case (Cons j ids)
  have j: "j \<notin> set ids" "distinct ids" using Cons.prems(3) by auto
  have jn: "lb_targets lb j = None" "lb_pendingTargets lb j = None" using Cons.prems(5) by auto
  show ?case
  proof (cases "new j")
    case None
    have "add_targets env ids e new lb = (e', lb')" using None Cons.prems(4) by simp
    have "lb_targets lb i = None \<and> lb_pendingTargets lb i = None" if "i \<in> set ids" for i using Cons.prems(5) that by simp
    note ih = Cons.IH [OF Cons.prems(1,2) j(2) \<open>add_targets env ids e new lb = (e', lb')\<close> this]
    have same: "(i \<in> set (j # ids) \<and> new i \<noteq> None) = (i \<in> set ids \<and> new i \<noteq> None)" for i using None by auto
    show ?thesis unfolding same by (rule ih)
  next
    case (Some r)
    obtain err lb1 where ad: "AddTarget env r lb = (err, lb1)" by fastforce
    have r: "lt_identifier (lb_heap lb r) = j" "r < lb_next lb" "lt_fwMarks (lb_heap lb r) = []"
      "r \<notin> ran (lb_targets lb)" "r \<notin> ran (lb_pendingTargets lb)"
      using Cons.prems(2) Some by (auto simp: new_ok_def)
    have pre: "lb_targets lb (lt_identifier (lb_heap lb r)) = None" "lb_pendingTargets lb (lt_identifier (lb_heap lb r)) \<in> {None, Some r}"
      using r(1) jn by auto
    have as: "touches r lb lb1"
      "(lb_targets lb1 = (lb_targets lb)(j \<mapsto> r) \<and> lb_pendingTargets lb1 = (lb_pendingTargets lb)(j := None)) \<or>
       (lb_targets lb1 = lb_targets lb \<and> lb_pendingTargets lb1 = (lb_pendingTargets lb)(j \<mapsto> r))"
      using AddTarget_spec [OF ad pre r(3)] r(1) by (auto split: if_splits)
    have inv1: "lb_inv lb1" by (rule AddTarget_inv [OF Cons.prems(1) ad pre r(3,2)])
    have hp: "lb_heap lb1 q = lb_heap lb q" if "q \<noteq> r" for q using touches_heap(1) [OF as(1) that] .
    have nq: "q \<noteq> r" if "new i = Some q" "i \<in> set ids" for i q
      using that Cons.prems(2) r(1) j(1) by (auto simp: new_ok_def)
    have nok: "new_ok lb1 (new |` set ids)"
    proof -
      have "q \<notin> ran (lb_targets lb1)" "q \<notin> ran (lb_pendingTargets lb1)" if "new i = Some q" "i \<in> set ids" for i q
        using that nq [OF that] as(2) Cons.prems(2) by (auto simp: new_ok_def ran_def split: if_splits)
      moreover have "finite (dom (new |` set ids))" using Cons.prems(2) by (simp add: new_ok_def)
      moreover have "(new |` set ids) i = Some q \<longleftrightarrow> i \<in> set ids \<and> new i = Some q" for i q
        by (auto simp: restrict_map_def)
      ultimately show ?thesis
        using Cons.prems(2) hp nq touches_heap(2) [OF as(1)] by (auto simp: new_ok_def)
    qed
    have fr: "lb_targets lb1 i = None \<and> lb_pendingTargets lb1 i = None" if "i \<in> set ids" for i
      using as(2) that j(1) Cons.prems(5) [of i] by auto
    have same: "add_targets env is e2 (new |` S) lb2 = add_targets env is e2 new lb2" if "set is \<subseteq> S" for S "is" e2 lb2
      using that by (induction "is" arbitrary: e2 lb2) (auto split: option.splits prod.splits)
    have "add_targets env ids (case err of None \<Rightarrow> e | Some x \<Rightarrow> AppendErr e x) (new |` set ids) lb1 = (e', lb')"
      using Cons.prems(4) Some ad same by simp
    note ih = Cons.IH [OF inv1 nok j(2) this fr]
    have "lb_inv lb' \<and> lb_like lb lb' \<and> (lb_announced lb \<longrightarrow> lb_announced lb')"
      using conjunct1 [OF ih] lb_like_trans [OF touches_like [OF as(1)]] AddTarget_announced [OF _ ad pre r(3)] by blast
    moreover have "lb_heap lb' q = lb_heap lb q" if "lb_targets lb i = Some q" for i q
    proof -
      have "q \<noteq> r" "i \<noteq> j" using that r(4) jn by (auto simp: ran_def)
      moreover have "lb_targets lb1 i = Some q" using that as(2) \<open>i \<noteq> j\<close> by auto
      ultimately show ?thesis using conjunct2 [OF ih] hp by metis
    qed
    moreover have "if i \<in> set (j # ids) \<and> new i \<noteq> None
         then (lb_targets lb' i = new i \<and> lb_pendingTargets lb' i = None) \<or> (lb_targets lb' i = None \<and> lb_pendingTargets lb' i = new i)
         else lb_targets lb' i = lb_targets lb i \<and> lb_pendingTargets lb' i = lb_pendingTargets lb i" for i
    proof (cases "i \<in> set ids")
      case True
      then have ij: "i \<noteq> j" "(new |` set ids) i = new i" using j(1) by auto
      have l: "lb_targets lb1 i = lb_targets lb i" "lb_pendingTargets lb1 i = lb_pendingTargets lb i" using as(2) ij by auto
      show ?thesis using spec [OF conjunct1 [OF conjunct2 [OF ih]], of i] True ij l by (auto split: if_splits)
    next
      case False
      then have l: "lb_targets lb' i = lb_targets lb1 i" "lb_pendingTargets lb' i = lb_pendingTargets lb1 i"
        using spec [OF conjunct1 [OF conjunct2 [OF ih]], of i] by auto
      show ?thesis using l as(2) Some False jn by auto
    qed
    ultimately show ?thesis by blast
  qed
qed


lemma make_targets_spec:
  fixes lb :: "('fw, 'w) LoadBalancer"
  assumes "lb_inv lb" "new_ok lb new" "\<And>i. map_option (\<lambda>r. lt_nspTarget (lb_heap lb r)) (new i) = m i"
    "make_targets ts new lb = (new', lb')"
  shows "lb_inv lb' \<and> new_ok lb' new' \<and> lb_targets lb' = lb_targets lb \<and> lb_pendingTargets lb' = lb_pendingTargets lb \<and>
    lb_Stream lb' = lb_Stream lb \<and> lb_context lb' = lb_context lb \<and> lb_fas lb' = lb_fas lb \<and>
    (\<forall>q < lb_next lb. lb_heap lb' q = lb_heap lb q) \<and>
    (\<forall>i. map_option (\<lambda>r. lt_nspTarget (lb_heap lb' r)) (new' i) = configured ts m i)"
  using assms
proof (induction ts arbitrary: new lb m)
  case Nil
  then show ?case by simp
next
  case (Cons t ts)
  show ?case
  proof (cases "NewTarget (lb_IdentifierOffset lb) t :: 'fw lb_target option")
    case None
    then have "configured (t # ts) m = configured ts m"
      by (auto simp: NewTarget_def split: if_splits option.splits)
    moreover have "make_targets ts new lb = (new', lb')" using None Cons.prems(4) by simp
    ultimately show ?thesis using Cons.IH [OF Cons.prems(1-3)] by simp
  next
    case (Some x)
    let ?lb = "lb\<lparr>lb_heap := (lb_heap lb)(lb_next lb := x), lb_next := Suc (lb_next lb)\<rparr>"
    let ?new = "new(lt_identifier x \<mapsto> lb_next lb)"
    define m' where "m' = m(lt_identifier x \<mapsto> t)"
    have x: "lt_nspTarget x = t" "lt_fwMarks x = []" "configured (t # ts) m = configured ts m'"
      using Some by (auto simp: NewTarget_def m'_def split: if_splits option.splits)
    have lt: "r < lb_next lb" if "new i = Some r \<or> lb_targets lb i = Some r \<or> lb_pendingTargets lb i = Some r" for i r
      using that Cons.prems(2) lb_invD(1,4) [OF Cons.prems(1)] by (auto simp: new_ok_def)
    have old: "lb_heap ?lb r = lb_heap lb r" if "r < lb_next lb" for r using that by simp
    have fresh: "lb_next lb \<notin> ran (lb_targets lb)" "lb_next lb \<notin> ran (lb_pendingTargets lb)"
      using lt by (auto simp: ran_def)
    have inv: "lb_inv ?lb"
    proof (rule lb_invI)
      fix i r assume "lb_targets ?lb i = Some r"
      then have r: "lb_targets lb i = Some r" by simp
      show "lb_pendingTargets ?lb i = None \<and> r < lb_next ?lb \<and> lt_identifier (lb_heap ?lb r) = i \<and>
          length (lt_fwMarks (lb_heap ?lb r)) = length (lt_GetIps (lb_heap ?lb r))"
        using old [of r] lb_invD [OF Cons.prems(1)] r by (simp add: less_Suc_eq)
    next
      fix i r assume "lb_pendingTargets ?lb i = Some r"
      then have r: "lb_pendingTargets lb i = Some r" by simp
      show "r < lb_next ?lb \<and> lt_identifier (lb_heap ?lb r) = i \<and> lt_fwMarks (lb_heap ?lb r) = []"
        using old [of r] lb_invD [OF Cons.prems(1)] r by (simp add: less_Suc_eq)
    qed (use lb_invD(9,10) [OF Cons.prems(1)] in simp_all)
    have nok: "new_ok ?lb ?new"
      unfolding new_ok_def using Cons.prems(2) lt fresh x(2) by (auto simp: new_ok_def less_Suc_eq)
    have m: "map_option (\<lambda>r. lt_nspTarget (lb_heap ?lb r)) (?new i) = m' i" for i
      using Cons.prems(3) [of i] lt [of i] x(1) by (cases "new i") (auto simp: m'_def)
    have "make_targets ts ?new ?lb = (new', lb')" using Cons.prems(4) Some by simp
    from Cons.IH [OF inv nok m this] show ?thesis unfolding x(3) by simp
  qed
qed

lemma keeps_setD: "keeps_set it \<Longrightarrow> finite S \<Longrightarrow> set (it n S) = S" "keeps_set it \<Longrightarrow> finite S \<Longrightarrow> distinct (it n S)"
  by (simp_all add: keeps_set_def)


text \<open>The four stages of \<open>setTargets\<close>, with the maps after each of them.\<close>

lemma setTargets_stages:
  fixes lb :: "('fw, 'w) LoadBalancer"
  assumes "lb_inv lb" "keeps_set it" "isStreamRunning lb" "setTargets env it ts lb = (e, lb')"
  obtains new lb1 where
    "lb_inv lb'" "lb_like lb1 lb'" "lb_announced lb \<Longrightarrow> lb_announced lb'"
    "lb_targets lb1 = lb_targets lb" "lb_pendingTargets lb1 = lb_pendingTargets lb"
    "lb_Stream lb1 = lb_Stream lb" "lb_context lb1 = lb_context lb" "\<forall>q < lb_next lb. lb_heap lb1 q = lb_heap lb q"
    "\<And>i. map_option (\<lambda>r. lt_nspTarget (lb_heap lb1 r)) (new i) = configured ts Map.empty i"
    "\<And>i. kept lb1 (lb_pendingTargets lb) new i \<Longrightarrow> lb_targets lb' i = None \<and> lb_pendingTargets lb' i = lb_pendingTargets lb i"
    "\<And>i. kept lb1 (lb_targets lb) new i \<Longrightarrow> lb_targets lb' i = lb_targets lb i \<and> lb_pendingTargets lb' i = None"
    "\<And>i. \<not> kept lb1 (lb_pendingTargets lb) new i \<Longrightarrow> \<not> kept lb1 (lb_targets lb) new i \<Longrightarrow>
       (lb_targets lb' i = new i \<and> lb_pendingTargets lb' i = None) \<or> (lb_targets lb' i = None \<and> lb_pendingTargets lb' i = new i)"
    "\<And>i r. lb_targets lb i = Some r \<Longrightarrow> kept lb1 (lb_targets lb) new i \<Longrightarrow> lb_heap lb' r = lb_heap lb r"
proof -
  obtain new lb1 where mk: "make_targets ts Map.empty lb = (new, lb1)" by fastforce
  have "new_ok lb Map.empty" by (simp add: new_ok_def)
  from make_targets_spec [OF assms(1) this _ mk, of Map.empty]
  have m: "lb_inv lb1" "new_ok lb1 new" "lb_targets lb1 = lb_targets lb" "lb_pendingTargets lb1 = lb_pendingTargets lb"
    "lb_Stream lb1 = lb_Stream lb" "lb_context lb1 = lb_context lb"
    "\<forall>q < lb_next lb. lb_heap lb1 q = lb_heap lb q"
    "\<forall>i. map_option (\<lambda>r. lt_nspTarget (lb_heap lb1 r)) (new i) = configured ts Map.empty i"
    "lb_fas lb1 = lb_fas lb"
    by auto
  let ?KP = "kept lb1 (lb_pendingTargets lb) new" and ?KT = "kept lb1 (lb_targets lb) new"
  let ?ids0 = "it 0 (dom (lb_pendingTargets lb1))"
  have ids0: "set ?ids0 = dom (lb_pendingTargets lb)" "distinct ?ids0"
    using keeps_setD [OF assms(2) lb_invD(10) [OF m(1)]] m(4) by auto
  have KP_dom: "?KP i \<Longrightarrow> i \<in> dom (lb_pendingTargets lb)" for i by (auto simp: kept_def)
  define new1 where "new1 = (\<lambda>i. if ?KP i then None else new i)"
  define pend where "pend = (\<lambda>i. if ?KP i then lb_pendingTargets lb i else None)"
  define lb2 where "lb2 = lb1\<lparr>lb_pendingTargets := pend\<rparr>"
  have "(\<lambda>i. if i \<in> set ?ids0 \<and> kept lb1 (lb_pendingTargets lb1) new i then None else new i) = new1"
    "(\<lambda>i. if i \<in> set ?ids0 \<and> \<not> kept lb1 (lb_pendingTargets lb1) new i then None else lb_pendingTargets lb1 i) = pend"
    unfolding ids0(1) unfolding new1_def pend_def m(4) using KP_dom by (auto simp: fun_eq_iff)
  then have cp: "check_pending env ?ids0 None new lb1 = (None, new1, lb2)"
    using check_pending_spec [OF m(1) ids0(2), of env None new] by (simp only: lb2_def)
  have lb2: "lb_targets lb2 = lb_targets lb" "lb_pendingTargets lb2 = pend" "lb_heap lb2 = lb_heap lb1" "lb_like lb1 lb2"
    using m by (auto simp: lb2_def lb_like_def)
  have inv2: "lb_inv lb2"
    by (rule lb_invI) (use lb_invD [OF m(1)] m(3,4) in \<open>auto simp: lb2_def pend_def split: if_splits
      intro: finite_subset [of _ "dom (lb_pendingTargets lb)"]\<close>)
  have nok1: "new_ok lb2 new1"
    using m(2-4) unfolding new_ok_def lb2_def
    by (auto simp: new1_def pend_def ran_def split: if_splits intro: finite_subset [of _ "dom new"])
  have KT1: "kept lb2 (lb_targets lb2) new1 i = ?KT i" for i
    using lb2 like_same_ips [OF lb2(4)] lb_invD(7) [OF m(1)] m(3,4) by (auto simp: kept_def new1_def)
  let ?ids1 = "it 1 (dom (lb_targets lb2))"
  have ids1: "set ?ids1 = dom (lb_targets lb)" "distinct ?ids1"
    using keeps_setD [OF assms(2) lb_invD(9) [OF inv2]] lb2 by auto
  obtain e3 new2 lb3 where ct: "check_targets env ?ids1 None new1 lb2 = (e3, new2, lb3)"
    using prod_cases3 by blast
  note c3 = check_targets_spec [OF inv2 nok1 ids1(2) ct KT1 [symmetric]]
  have c: "lb_inv lb3" "new_ok lb3 new2" "lb_like lb2 lb3" "lb_pendingTargets lb3 = pend"
    and an3: "lb_announced lb2 \<longrightarrow> lb_announced lb3"
    using conjunct1 [OF c3] lb2(2) by auto
  have new2: "new2 i = (if ?KP i \<or> ?KT i then None else new i)" for i
    using c3 ids1(1) by (auto simp: new1_def kept_def)
  have tg3: "lb_targets lb3 i = (if ?KT i then lb_targets lb i else None)" for i
    using c3 ids1(1) lb2(1) by (auto simp: kept_def)
  have hp3: "lb_heap lb3 r = lb_heap lb1 r" if "lb_targets lb i = Some r" "?KT i" for i r
    using c3 that lb2(1,3) by auto
  let ?ids2 = "it 2 (dom new2)"
  have ids2: "set ?ids2 = dom new2" "distinct ?ids2"
    using keeps_setD [OF assms(2)] c(2) by (auto simp: new_ok_def)
  have ad: "add_targets env ?ids2 e3 new2 lb3 = (e, lb')"
    using assms(3,4) mk cp ct by (simp add: setTargets_def)
  have free: "lb_targets lb3 i = None \<and> lb_pendingTargets lb3 i = None" if "i \<in> set ?ids2" for i
    using that ids2(1) new2 [of i] tg3 [of i] c(4) by (auto simp: pend_def split: if_splits)
  note a = add_targets_spec [OF c(1,2) ids2(2) ad free]
  show ?thesis
  proof (rule that [of lb1 new])
    show "lb_inv lb'" "lb_like lb1 lb'"
      using a c(3) lb2(4) lb_like_trans by blast+
    show "lb_announced lb \<Longrightarrow> lb_announced lb'"
      using a an3 m(3,5,9) by (auto simp: lb_announced_def lb2_def)
    show "kept lb1 (lb_pendingTargets lb) new i \<Longrightarrow> lb_targets lb' i = None \<and> lb_pendingTargets lb' i = lb_pendingTargets lb i" for i
      using a ids2(1) new2 [of i] tg3 [of i] c(4) lb_invD(7) [OF assms(1)] by (auto simp: pend_def kept_def dest!: spec [of _ i])
    show "kept lb1 (lb_targets lb) new i \<Longrightarrow> lb_targets lb' i = lb_targets lb i \<and> lb_pendingTargets lb' i = None" for i
      using a ids2(1) new2 [of i] tg3 [of i] c(4) lb_invD(8) [OF assms(1)] by (auto simp: pend_def kept_def dest!: spec [of _ i])
    show "(lb_targets lb' i = new i \<and> lb_pendingTargets lb' i = None) \<or> (lb_targets lb' i = None \<and> lb_pendingTargets lb' i = new i)"
      if "\<not> ?KP i" "\<not> ?KT i" for i
      using spec [OF conjunct1 [OF conjunct2 [OF a]], of i] that ids2(1) new2 [of i] tg3 [of i] c(4)
      by (cases "new i") (auto simp: pend_def split: if_splits)
    show "lb_heap lb' r = lb_heap lb r" if "lb_targets lb i = Some r" "?KT i" for i r
    proof -
      have "lb_targets lb3 i = Some r" using tg3 that by simp
      then have "lb_heap lb' r = lb_heap lb3 r" using a by blast
      then show ?thesis using hp3 [OF that] m(7) lb_invD(1) [OF assms(1) that(1)] by simp
    qed
  qed (use m in auto)
qed

lemma setTargets_spec:
  fixes lb :: "('fw, 'w) LoadBalancer"
  assumes "lb_inv lb" "keeps_set it" "isStreamRunning lb" "setTargets env it ts lb = (e, lb')"
  shows "lb_inv lb' \<and> lb_Stream lb' = lb_Stream lb \<and> lb_context lb' = lb_context lb \<and>
    (lb_announced lb \<longrightarrow> lb_announced lb') \<and>
    (\<forall>i. case configured ts Map.empty i of
           None \<Rightarrow> lb_targets lb' i = None \<and> lb_pendingTargets lb' i = None
         | Some t \<Rightarrow> (\<exists>r. (lb_targets lb' i = Some r \<or> lb_pendingTargets lb' i = Some r) \<and>
                        set (lt_GetIps (lb_heap lb' r)) = set (target_ips t))) \<and>
    (\<forall>i r t. lb_targets lb i = Some r \<longrightarrow> configured ts Map.empty i = Some t \<longrightarrow>
       set (lt_GetIps (lb_heap lb r)) = set (target_ips t) \<longrightarrow> lb_targets lb' i = Some r \<and> lb_heap lb' r = lb_heap lb r)"
proof -
  obtain new lb1 where s: "lb_inv lb'" "lb_like lb1 lb'" "lb_announced lb \<Longrightarrow> lb_announced lb'"
    "lb_targets lb1 = lb_targets lb" "lb_pendingTargets lb1 = lb_pendingTargets lb"
    "lb_Stream lb1 = lb_Stream lb" "lb_context lb1 = lb_context lb" "\<forall>q < lb_next lb. lb_heap lb1 q = lb_heap lb q"
    and cf: "\<And>i. map_option (\<lambda>r. lt_nspTarget (lb_heap lb1 r)) (new i) = configured ts Map.empty i"
    and kp: "\<And>i. kept lb1 (lb_pendingTargets lb) new i \<Longrightarrow> lb_targets lb' i = None \<and> lb_pendingTargets lb' i = lb_pendingTargets lb i"
    and kt: "\<And>i. kept lb1 (lb_targets lb) new i \<Longrightarrow> lb_targets lb' i = lb_targets lb i \<and> lb_pendingTargets lb' i = None"
    and nk: "\<And>i. \<not> kept lb1 (lb_pendingTargets lb) new i \<Longrightarrow> \<not> kept lb1 (lb_targets lb) new i \<Longrightarrow>
       (lb_targets lb' i = new i \<and> lb_pendingTargets lb' i = None) \<or> (lb_targets lb' i = None \<and> lb_pendingTargets lb' i = new i)"
    and hp: "\<And>i r. lb_targets lb i = Some r \<Longrightarrow> kept lb1 (lb_targets lb) new i \<Longrightarrow> lb_heap lb' r = lb_heap lb r"
    by (rule setTargets_stages [OF assms]) (rule that, assumption+)
  have ips: "lt_GetIps (lb_heap lb' r) = lt_GetIps (lb_heap lb1 r)" for r using s(2) by (simp add: lb_like_def)
  have none: "lb_targets lb' i = None \<and> lb_pendingTargets lb' i = None" if "configured ts Map.empty i = None" for i
  proof -
    have "new i = None" using cf [of i] that by simp
    then show ?thesis using nk [of i] by (auto simp: kept_def)
  qed
  have some: "\<exists>r. (lb_targets lb' i = Some r \<or> lb_pendingTargets lb' i = Some r) \<and> set (lt_GetIps (lb_heap lb' r)) = set (target_ips t)"
    if c: "configured ts Map.empty i = Some t" for i t
  proof -
    obtain n where n: "new i = Some n" "lt_nspTarget (lb_heap lb1 n) = t" using cf [of i] c by auto
    then have nt: "lt_GetIps (lb_heap lb1 n) = target_ips t" by (simp add: lt_GetIps_def)
    show ?thesis
    proof (cases "kept lb1 (lb_pendingTargets lb) new i \<or> kept lb1 (lb_targets lb) new i")
      case True
      then obtain p where "lb_targets lb' i = Some p \<or> lb_pendingTargets lb' i = Some p" "same_ips lb1 p n"
        using kp [of i] kt [of i] n(1) by (auto simp: kept_def)
      then show ?thesis using nt by (auto simp: same_ips_def ips)
    next
      case False
      then show ?thesis using nk [of i] n(1) nt by (auto simp: ips)
    qed
  qed
  have keep: "lb_targets lb' i = Some r \<and> lb_heap lb' r = lb_heap lb r"
    if "lb_targets lb i = Some r" and c: "configured ts Map.empty i = Some t" and "set (lt_GetIps (lb_heap lb r)) = set (target_ips t)" for i r t
  proof -
    obtain n where n: "new i = Some n" "lt_nspTarget (lb_heap lb1 n) = t" using cf [of i] c by auto
    have "lb_heap lb1 r = lb_heap lb r" using s(8) lb_invD(1) [OF assms(1) that(1)] by simp
    then have "kept lb1 (lb_targets lb) new i" using that n by (auto simp: kept_def same_ips_def lt_GetIps_def)
    then show ?thesis using kt [of i] hp [OF that(1)] that(1) by simp
  qed
  show ?thesis
    using s none some keep by (auto simp: lb_like_def split: option.split)
qed


subsection \<open>Pending targets\<close>

lemma verify_step:
  fixes env :: "('fw, 'w) lb_env"
  assumes "lb_inv lb" "lb_targets lb j = Some r"
  defines "lb' \<equiv> addPendingTarget r (snd (removeTarget env (lt_identifier (lb_heap lb r)) False lb))"
  shows "lb_inv lb' \<and> lb_like lb lb' \<and> lb_fas lb' = lb_fas lb \<and> known lb' = known lb \<and>
    lb_targets lb' = (lb_targets lb)(j := None)"
proof -
  have j: "lt_identifier (lb_heap lb r) = j" by (rule lb_invD(2) [OF assms(1,2)])
  obtain e lb1 where rm: "removeTarget env j False lb = (e, lb1)" by fastforce
  note rs = removeTarget_spec [OF rm assms(2) j]
  have j1: "lt_identifier (lb_heap lb1 r) = j" using rs j touches_identifier(1) by metis
  have lb': "lb' = lb1\<lparr>lb_pendingTargets := (lb_pendingTargets lb)(j \<mapsto> r)\<rparr>"
    using rs rm j j1 by (simp add: lb'_def addPendingTarget_def)
  then have t: "touches r lb lb'" using rs touches_trans touches_world(3) by metis
  have "lb_inv lb'"
    by (rule lb_inv_touched [OF assms(1) t j lb_invD(1) [OF assms(1,2)], of None "Some r"]) (use rs lb' in auto)
  then show ?thesis
    using t touches_like rs lb' lb_invD(8) [OF assms(1,2)] assms(2) by (auto simp: known_def)
qed

lemma verify_spec:
  assumes "lb_inv lb"
  shows "lb_inv (verifyTargets env ids lb) \<and> lb_like lb (verifyTargets env ids lb) \<and>
    lb_fas (verifyTargets env ids lb) = lb_fas lb \<and> known (verifyTargets env ids lb) = known lb \<and>
    dom (lb_targets (verifyTargets env ids lb)) \<subseteq> dom (lb_targets lb)"
  using assms
proof (induction ids arbitrary: lb)
  case Nil
  then show ?case by simp
next
  case (Cons j ids)
  show ?case
  proof (cases "lb_targets lb j")
    case None
    then show ?thesis using Cons by simp
  next
    case (Some r)
    note v = verify_step [OF Cons.prems Some, of env]
    let ?lb = "addPendingTarget r (snd (removeTarget env (lt_identifier (lb_heap lb r)) False lb))"
    have d: "dom (lb_targets ?lb) \<subseteq> dom (lb_targets lb)" using v by auto
    show ?thesis
    proof (cases "lt_Verify env (lb_heap lb r) (lb_world lb)")
      case True
      then show ?thesis using Cons Some by simp
    next
      case False
      then have "verifyTargets env (j # ids) lb = verifyTargets env ids ?lb" using Some by simp
      then show ?thesis
        using Cons.IH [OF conjunct1 [OF v]] v d lb_like_trans [of lb ?lb] by (metis order_trans)
    qed
  qed
qed

lemma retry_step:
  fixes env :: "('fw, 'w) lb_env"
  assumes "lb_inv lb" "lb_pendingTargets lb j = Some r"
  defines "lb' \<equiv> snd (AddTarget env r lb)"
  shows "lb_inv lb' \<and> lb_like lb lb' \<and> known lb' = known lb \<and> dom (lb_targets lb) \<subseteq> dom (lb_targets lb') \<and>
    (lb_announced lb \<longrightarrow> lb_announced lb') \<and> (half_announced lb \<longrightarrow> half_announced lb')"
proof -
  note d = lb_invD [OF assms(1)]
  obtain e where ad: "AddTarget env r lb = (e, lb')" by (metis lb'_def prod.collapse)
  have pre: "lb_targets lb (lt_identifier (lb_heap lb r)) = None"
    "lb_pendingTargets lb (lt_identifier (lb_heap lb r)) \<in> {None, Some r}" "lt_fwMarks (lb_heap lb r) = []" "r < lb_next lb"
    using d(4-7) [OF assms(2)] assms(2) by auto
  note as = AddTarget_spec [OF ad pre(1-3)]
  have "lb_inv lb'" by (rule AddTarget_inv [OF assms(1) ad pre])
  moreover have "lb_announced lb \<longrightarrow> lb_announced lb'" using AddTarget_announced [OF _ ad pre(1-3)] by blast
  moreover have "lb_like lb lb'" "lb_Stream lb' = lb_Stream lb" using as touches_like touches_heap(3) by blast+
  moreover have "known lb' = known lb" "dom (lb_targets lb) \<subseteq> dom (lb_targets lb')"
    using as d(5) [OF assms(2)] assms(2) by (auto simp: known_def split: if_splits)
  moreover have "half_announced lb \<longrightarrow> half_announced lb'"
    using as \<open>lb_Stream lb' = lb_Stream lb\<close> by (auto simp: half_announced_def split: if_splits)
  ultimately show ?thesis by blast
qed

lemma retry_spec:
  fixes env :: "('fw, 'w) lb_env" and ids :: "int list"
  assumes "lb_inv lb"
  defines "lb' \<equiv> retryPendingTargets env ids lb"
  shows "lb_inv lb' \<and> lb_like lb lb' \<and> known lb' = known lb \<and> dom (lb_targets lb) \<subseteq> dom (lb_targets lb') \<and>
    (lb_announced lb \<longrightarrow> lb_announced lb') \<and> (half_announced lb \<longrightarrow> half_announced lb')"
  using assms(1) unfolding lb'_def
proof (induction ids arbitrary: lb)
  case Nil
  then show ?case by simp
next
  case (Cons j ids)
  show ?case
  proof (cases "lb_pendingTargets lb j")
    case None
    then show ?thesis using Cons by simp
  next
    case (Some r)
    note v = retry_step [OF Cons.prems Some, of env]
    let ?lb = "snd (AddTarget env r lb)"
    let ?lb' = "retryPendingTargets env ids ?lb"
    note ih = Cons.IH [OF conjunct1 [OF v]]
    have "lb_like lb ?lb'" by (rule lb_like_trans [of lb ?lb]) (use v ih in blast)+
    moreover have "dom (lb_targets lb) \<subseteq> dom (lb_targets ?lb')" using v ih by (meson order_trans)
    moreover have "known ?lb' = known lb" using v ih by (simp only: simp_thms)
    ultimately have "lb_inv ?lb' \<and> lb_like lb ?lb' \<and> known ?lb' = known lb \<and> dom (lb_targets lb) \<subseteq> dom (lb_targets ?lb') \<and>
        (lb_announced lb \<longrightarrow> lb_announced ?lb') \<and> (half_announced lb \<longrightarrow> half_announced ?lb')"
      using v ih by iprover
    then show ?thesis using Some by simp
  qed
qed

lemma checkf_spec:
  assumes "lb_inv lb" "keeps_set it"
  shows "lb_inv (checkf env it lb) \<and> lb_Stream (checkf env it lb) = lb_Stream lb \<and>
    known (checkf env it lb) = known lb \<and> (lb_announced lb \<longrightarrow> lb_announced (checkf env it lb))"
proof -
  define lb1 where "lb1 = verifyTargets env (it 0 (dom (lb_targets lb))) lb"
  define lb2 where "lb2 = retryPendingTargets env (it 1 (dom (lb_pendingTargets lb1))) lb1"
  let ?un = "lb2\<lparr>lb_fas := fas_Unregister (fas_skip env) (stream_name (lb_Stream lb2)) (lb_fas lb2)\<rparr>"
  let ?c = "dom (lb_targets lb) \<noteq> {} \<and> dom (lb_targets lb1) = {} \<and> dom (lb_targets lb2) = {}"
  have cf: "checkf env it lb = (if ?c then ?un else lb2)"
    by (simp add: checkf_def lb1_def lb2_def Let_def del: dom_eq_empty_conv)
  note v = verify_spec [OF assms(1), of env "it 0 (dom (lb_targets lb))", folded lb1_def]
  note r = retry_spec [OF conjunct1 [OF v], of env "it 1 (dom (lb_pendingTargets lb1))", folded lb2_def]
  have st: "lb_Stream lb1 = lb_Stream lb" "lb_Stream lb2 = lb_Stream lb" using v r by (auto simp: lb_like_def)
  have inv: "lb_inv ?un" using r by (simp add: lb_inv_def)
  have an: "lb_announced (if ?c then ?un else lb2)" if a: "lb_announced lb"
  proof (cases ?c)
    case True
    then show ?thesis by (auto simp: lb_announced_def)
  next
    case False
    have half: "half_announced lb1" if "dom (lb_targets lb) \<noteq> {}"
      using a v st that by (auto simp: half_announced_def lb_announced_def)
    show ?thesis
    proof (cases "dom (lb_targets lb) = {}")
      case True
      then have "lb_announced lb1" using a v st by (auto simp: lb_announced_def)
      then show ?thesis unfolding if_not_P [OF False] using r by blast
    next
      case ne: False
      then have "dom (lb_targets lb2) \<noteq> {}" using False r by blast
      moreover have "half_announced lb2" using half [OF ne] r by blast
      ultimately show ?thesis unfolding if_not_P [OF False] by (auto simp: lb_announced_def half_announced_def)
    qed
  qed
  show ?thesis
    unfolding cf using inv an r v st by (auto simp: known_def)
qed


subsection \<open>Flows\<close>

lemma set_flow_step:
  assumes "flows_keyed fls"
  obtains rem1 fls1 w1 where "set_flow_list env (f # fs) rem (fls, w) = set_flow_list env fs rem1 (fls1, w1)" "flows_keyed fls1"
    "\<And>n. n \<noteq> flow_name f \<Longrightarrow> fls1 n = fls n \<and> (n \<in> rem1 \<longleftrightarrow> n \<in> rem)" "flow_outcome env f rem fls rem1 fls1"
proof -
  obtain err w1 where sf: "nfq_SetFlow env f w = (err, w1)" by fastforce
  have keyed: "flows_keyed (fls(flow_name f \<mapsto> f))" using assms by (simp add: flows_keyed_def)
  show ?thesis
  proof (cases "fls (flow_name f)")
    case None
    show ?thesis
    proof (cases err)
      case no: None
      show ?thesis
        by (rule that [of "rem - {flow_name f}" "fls(flow_name f \<mapsto> f)" w1])
          (use None no sf keyed in \<open>simp_all add: flow_New_def flow_outcome_def\<close>)
    next
      case (Some e)
      show ?thesis
        by (rule that [of rem fls w1]) (use None Some sf assms in \<open>auto simp: flow_New_def flow_outcome_def intro!: exI [of _ w]\<close>)
    qed
  next
    case old: (Some old)
    have nm: "flow_name old = flow_name f" using assms old by (simp add: flows_keyed_def)
    consider "DeepEquals (Some old) (Some f)" | "\<not> DeepEquals (Some old) (Some f)" "err = None"
      | e where "\<not> DeepEquals (Some old) (Some f)" "err = Some e" by blast
    then show ?thesis
    proof cases
      case 1
      show ?thesis
        by (rule that [of "rem - {flow_name f}" fls w]) (use 1 old assms in \<open>auto simp: flow_Update_def flow_outcome_def fun_upd_idem\<close>)
    next
      case 2
      show ?thesis
        by (rule that [of "rem - {flow_name f}" "fls(flow_name f \<mapsto> f)" w1])
          (use 2 old nm sf keyed in \<open>simp_all add: flow_Update_def flow_outcome_def\<close>)
    next
      case 3
      show ?thesis
        by (rule that [of rem "fls(flow_name f \<mapsto> f)" w1])
          (use 3 old nm sf keyed in \<open>auto simp: flow_Update_def flow_outcome_def intro!: exI [of _ w]\<close>)
    qed
  qed
qed

lemma set_flow_list_spec:
  assumes "flows_keyed fls" "distinct (map flow_name fs)" "set_flow_list env fs rem (fls, w) = (rem', fls', w')"
  shows "flows_keyed fls' \<and> (\<forall>n. n \<notin> flow_name ` set fs \<longrightarrow> fls' n = fls n \<and> (n \<in> rem' \<longleftrightarrow> n \<in> rem)) \<and>
    (\<forall>f \<in> set fs. flow_outcome env f rem fls rem' fls')"
  using assms
proof (induction fs arbitrary: rem fls w)
  case Nil
  then show ?case by simp
next
  case (Cons f fs)
  obtain rem1 fls1 w1 where s: "set_flow_list env (f # fs) rem (fls, w) = set_flow_list env fs rem1 (fls1, w1)" "flows_keyed fls1"
    "\<And>n. n \<noteq> flow_name f \<Longrightarrow> fls1 n = fls n \<and> (n \<in> rem1 \<longleftrightarrow> n \<in> rem)" "flow_outcome env f rem fls rem1 fls1"
    by (rule set_flow_step [OF Cons.prems(1), of env f fs rem w]) (rule that, assumption+)
  have ih: "flows_keyed fls'" "\<And>n. n \<notin> flow_name ` set fs \<Longrightarrow> fls' n = fls1 n \<and> (n \<in> rem' \<longleftrightarrow> n \<in> rem1)"
    "\<And>g. g \<in> set fs \<Longrightarrow> flow_outcome env g rem1 fls1 rem' fls'"
    using Cons.IH [OF s(2), of rem1 w1] Cons.prems(2,3) s(1) by auto
  have "flow_outcome env f rem fls rem' fls'"
    using s(4) ih(2) [of "flow_name f"] Cons.prems(2) by (simp add: flow_outcome_def)
  moreover have "flow_outcome env g rem fls rem' fls'" if "g \<in> set fs" for g
  proof -
    have "flow_name g \<in> flow_name ` set fs" using that by simp
    then have "flow_name g \<noteq> flow_name f" using Cons.prems(2) by auto
    then show ?thesis using ih(3) [OF that] s(3) [of "flow_name g"] by (simp add: flow_outcome_def)
  qed
  moreover have "fls' n = fls n \<and> (n \<in> rem' \<longleftrightarrow> n \<in> rem)" if "n \<notin> flow_name ` set (f # fs)" for n
    using ih(2) [of n] s(3) [of n] that by simp
  ultimately show ?case using ih(1) by simp
qed

lemma delete_flows_spec:
  "delete_flows env ns (fls, w) = (fls', w') \<Longrightarrow> fls' n = (if n \<in> set ns then None else fls n)"
  by (induction ns arbitrary: fls w) (auto split: option.splits if_splits)

lemma setFlows_spec:
  assumes "isStreamRunning lb" "flows_keyed (lb_flows lb)" "distinct (map flow_name fs)"
    "\<And>S. finite S \<Longrightarrow> set (itf S) = S" "finite (dom (lb_flows lb))"
  shows "flows_keyed (lb_flows (setFlows env itf fs lb)) \<and>
    (\<forall>n. n \<notin> flow_name ` set fs \<longrightarrow> lb_flows (setFlows env itf fs lb) n = None) \<and>
    (\<forall>f \<in> set fs.
       (case lb_flows (setFlows env itf fs lb) (flow_name f) of
          Some g \<Rightarrow> g = f \<or> (lb_flows lb (flow_name f) = Some g \<and> DeepEquals (Some g) (Some f))
        | None \<Rightarrow> \<exists>w. fst (nfq_SetFlow env f w) \<noteq> None))"
proof -
  obtain rem fls1 w1 where s: "set_flow_list env fs (dom (lb_flows lb)) (lb_flows lb, lb_world lb) = (rem, fls1, w1)"
    by (metis prod_cases3)
  obtain fls2 w2 where d: "delete_flows env (itf rem) (fls1, w1) = (fls2, w2)" by fastforce
  have r: "lb_flows (setFlows env itf fs lb) = fls2" using assms(1) s d by (simp add: setFlows_def)
  note sp = set_flow_list_spec [OF assms(2,3) s]
  have "rem \<subseteq> dom (lb_flows lb) \<union> flow_name ` set fs" using sp by blast
  then have "finite rem" using assms(5) finite_subset by (metis finite_Un finite_imageI finite_set)
  then have f2: "fls2 n = (if n \<in> rem then None else fls1 n)" for n
    using delete_flows_spec [OF d, of n] assms(4) by simp
  have k: "flows_keyed fls2" using sp f2 by (auto simp: flows_keyed_def split: if_splits)
  have "fls2 n = None" if "n \<notin> flow_name ` set fs" for n
    using sp f2 [of n] that by (cases "lb_flows lb n") auto
  moreover have "case fls2 (flow_name f) of Some g \<Rightarrow> g = f \<or> (lb_flows lb (flow_name f) = Some g \<and> DeepEquals (Some g) (Some f))
      | None \<Rightarrow> \<exists>w. fst (nfq_SetFlow env f w) \<noteq> None" if "f \<in> set fs" for f
  proof -
    have o: "flow_outcome env f (dom (lb_flows lb)) (lb_flows lb) rem fls1" using sp that by blast
    show ?thesis using o f2 [of "flow_name f"] by (auto simp: flow_outcome_def split: option.splits if_splits)
  qed
  ultimately show ?thesis unfolding r using k by blast
qed


subsection \<open>Deletion\<close>

lemma lb_inv_frame:
  "lb_inv lb \<Longrightarrow> lb_targets lb' = lb_targets lb \<Longrightarrow> lb_pendingTargets lb' = lb_pendingTargets lb \<Longrightarrow> lb_heap lb' = lb_heap lb \<Longrightarrow>
   lb_next lb' = lb_next lb \<Longrightarrow> lb_inv lb'"
  by (simp add: lb_inv_def)

lemma announced_frame:
  "lb_announced lb \<Longrightarrow> lb_targets lb' = lb_targets lb \<Longrightarrow> lb_fas lb' = lb_fas lb \<Longrightarrow> lb_Stream lb' = lb_Stream lb \<Longrightarrow> lb_announced lb'"
  by (simp add: lb_announced_def)

lemma remove_all_spec:
  assumes "lb_inv lb" "\<And>i. i \<in> set ids \<Longrightarrow> lb_pendingTargets lb i = None" "remove_all env ids e lb = (e', lb')"
  shows "lb_inv lb' \<and> lb_like lb lb' \<and> lb_pendingTargets lb' = lb_pendingTargets lb \<and>
    (lb_announced lb \<longrightarrow> lb_announced lb') \<and> (\<forall>i. lb_targets lb' i = (if i \<in> set ids then None else lb_targets lb i))"
  using assms
proof (induction ids arbitrary: e lb)
  case Nil
  then show ?case by simp
next
  case (Cons j ids)
  obtain err lb1 where rm: "removeTarget env j True lb = (err, lb1)" by fastforce
  have pj: "lb_pendingTargets lb j = None" using Cons.prems(2) by simp
  have one: "lb_inv lb1 \<and> lb_like lb lb1 \<and> lb_pendingTargets lb1 = lb_pendingTargets lb \<and>
      (lb_announced lb \<longrightarrow> lb_announced lb1) \<and> lb_targets lb1 = (lb_targets lb)(j := None)"
  proof (cases "lb_targets lb j")
    case None
    then have "lb1 = lb" using rm pj by (simp add: removeTarget_none fun_upd_idem)
    then show ?thesis using Cons.prems(1) None by (simp add: fun_upd_idem)
  next
    case (Some r)
    note id = lb_invD(2) [OF Cons.prems(1) Some]
    note rs = removeTarget_spec [OF rm Some id]
    have "lb_inv lb1" by (rule removeTarget_inv [OF Cons.prems(1) rm])
    moreover have "lb_announced lb \<longrightarrow> lb_announced lb1" using removeTarget_announced [OF _ rm Some id] by blast
    moreover have "lb_like lb lb1" using rs touches_like by blast
    ultimately show ?thesis using rs pj by (simp add: fun_upd_idem)
  qed
  obtain e1 where ra: "remove_all env ids e1 lb1 = (e', lb')"
    using Cons.prems(3) rm by (auto simp: RemoveTarget_def split: option.splits)
  have pend: "lb_pendingTargets lb1 i = None" if "i \<in> set ids" for i using one Cons.prems(2) that by simp
  note ih = Cons.IH [OF conjunct1 [OF one] pend ra]
  have "lb_like lb lb'" by (rule lb_like_trans [of lb lb1]) (use one ih in blast)+
  then show ?case using one ih by auto
qed

lemma lb_Delete_spec:
  assumes "lb_inv lb" "keeps_set it" "lb_Delete env it itf lb = (e, lb')"
  shows "lb_inv lb' \<and> lb_targets lb' = Map.empty \<and> lb_pendingTargets lb' = lb_pendingTargets lb \<and>
    lb_Stream lb' = lb_Stream lb \<and> lb_context lb' \<noteq> CtxRunning \<and> (lb_announced lb \<longrightarrow> lb_announced lb')"
proof -
  define lb0 where "lb0 = (if lb_context lb = CtxNil then lb else lb\<lparr>lb_context := CtxCancelled\<rparr>)"
  have lb0: "lb_inv lb0" "lb_targets lb0 = lb_targets lb" "lb_pendingTargets lb0 = lb_pendingTargets lb"
    "lb_Stream lb0 = lb_Stream lb" "lb_context lb0 \<noteq> CtxRunning" "lb_announced lb \<longrightarrow> lb_announced lb0"
    using assms(1) by (auto simp: lb0_def lb_inv_def lb_announced_def)
  obtain e1 lb1 where ra: "remove_all env (it 0 (dom (lb_targets lb0))) None lb0 = (e1, lb1)" by fastforce
  have ids: "set (it 0 (dom (lb_targets lb0))) = dom (lb_targets lb0)"
    using keeps_setD(1) [OF assms(2) lb_invD(9) [OF lb0(1)]] .
  have none: "lb_pendingTargets lb0 i = None" if "i \<in> set (it 0 (dom (lb_targets lb0)))" for i
    using that ids lb_invD(8) [OF lb0(1)] by auto
  note r = remove_all_spec [OF lb0(1) none ra]
  have "lb_targets lb1 = Map.empty" using r ids by auto
  moreover obtain w where lb': "lb' = lb1\<lparr>lb_world := w\<rparr>"
    using assms(3) ra by (auto simp: lb_Delete_def lb0_def [symmetric] Let_def split: prod.splits option.splits)
  moreover have "lb_inv lb'" by (rule lb_inv_frame [of lb1]) (use r lb' in simp_all)
  moreover have "lb_announced lb \<longrightarrow> lb_announced lb'" using announced_frame [of lb1 lb'] r lb0(6) lb' by simp
  moreover have "lb_Stream lb1 = lb_Stream lb0" "lb_context lb1 = lb_context lb0" using r by (simp_all add: lb_like_def)
  ultimately show ?thesis using r lb0 by simp
qed

subsection \<open>Reachable states\<close>

lemma setFlows_same [simp]:
  "lb_targets (setFlows env itf fs lb) = lb_targets lb" "lb_pendingTargets (setFlows env itf fs lb) = lb_pendingTargets lb"
  "lb_heap (setFlows env itf fs lb) = lb_heap lb" "lb_next (setFlows env itf fs lb) = lb_next lb"
  "lb_fas (setFlows env itf fs lb) = lb_fas lb" "lb_Stream (setFlows env itf fs lb) = lb_Stream lb"
  by (auto simp: setFlows_def split: prod.splits)

lemma interface_same [simp]:
  "lb_targets (InterfaceEvent p n lb) = lb_targets lb" "lb_pendingTargets (InterfaceEvent p n lb) = lb_pendingTargets lb"
  "lb_heap (InterfaceEvent p n lb) = lb_heap lb" "lb_next (InterfaceEvent p n lb) = lb_next lb"
  "lb_fas (InterfaceEvent p n lb) = lb_fas lb" "lb_Stream (InterfaceEvent p n lb) = lb_Stream lb"
  by (auto simp: InterfaceEvent_def triggerPendingTargets_def)

lemma lb_step_inv:
  assumes "lb_step env lb lb'" "lb_inv lb" "lb_announced lb"
  shows "lb_inv lb' \<and> lb_announced lb'"
  using assms
proof (induction rule: lb_step.induct)
  case (targets it lb ts)
  obtain e lb' where st: "setTargets env it ts lb = (e, lb')" by fastforce
  show ?case
  proof (cases "isStreamRunning lb")
    case True
    then show ?thesis using setTargets_spec [OF targets(2,1) True st] st targets(3) by simp
  next
    case False
    then show ?thesis using targets by (simp add: setTargets_def)
  qed
next
  case (check it lb)
  then show ?case using checkf_spec [of lb it env] by blast
next
  case (delete it lb itf)
  obtain e lb' where st: "lb_Delete env it itf lb = (e, lb')" by fastforce
  then show ?case using lb_Delete_spec [OF delete(2,1) st] delete(3) by simp
next
  case (start lb)
  then show ?case by (auto simp: lb_Start_def lb_inv_def lb_announced_def)
next
  case (flows lb itf fs)
  then show ?case
    using lb_inv_frame [of lb "setFlows env itf fs lb"] announced_frame [of lb "setFlows env itf fs lb"] by simp
next
  case (interface lb p name)
  then show ?case
    using lb_inv_frame [of lb "InterfaceEvent p name lb"] announced_frame [of lb "InterfaceEvent p name lb"] by simp
next
  case (world lb w hits)
  then show ?case by (simp add: lb_inv_def lb_announced_def)
next
  case (availability fas lb)
  then show ?case by (auto simp: lb_inv_def lb_announced_def)
qed

lemma lb_reach_inv: "lb_reach env lb \<Longrightarrow> lb_inv lb \<and> lb_announced lb"
proof (induction rule: lb_reach.induct)
  case (new fas stream offset hits heap w)
  then show ?case by (auto simp: lb_New_def lb_inv_def lb_announced_def)
next
  case (step lb lb')
  then show ?case using lb_step_inv by blast
qed

end
