(* ===== verification/LbProps.thy ===== *)
theory LbProps
  imports LbTargets "HOL-Library.List_Lexorder" "HOL-Library.Char_ord"
begin

text \<open>
  The properties of a stream of the load balancer, and the concrete stream with which they are
  exercised.
\<close>

section \<open>Definitions\<close>

text \<open>An environment in which routes can be made and targets activated, and a stream in it.\<close>

definition adds_succeed :: "('fw, 'w) lb_env \<Rightarrow> bool" where
  "adds_succeed env \<longleftrightarrow> (\<forall>ip m t w. \<exists>fw w'. nu_NewFWMarkRoute env ip m t w = (Inr fw, w')) \<and>
     (\<forall>i j w. fst (nfq_Activate env i j w) = None)"

definition ex_env :: "bool \<Rightarrow> (string, unit) lb_env" where
  "ex_env ok = \<lparr>nu_NewFWMarkRoute = (\<lambda>ip m t w. (if ok then Inr ip else Inl [ErrMsg ''no route''], w)), nu_Verify = (\<lambda>fw w. True),
     nu_Delete = (\<lambda>fw w. (None, w)), nfq_Activate = (\<lambda>i j w. (None, w)), nfq_Deactivate = (\<lambda>i w. (None, w)),
     nfq_Delete = (\<lambda>w. (None, w)), nfq_SetFlow = (\<lambda>f w. (None, w)), nfq_DeleteFlow = (\<lambda>f w. (None, w)),
     nft_AddCounter = (\<lambda>i w. w), nft_DelCounter = (\<lambda>i w. w), fas_skip = {}\<rparr>"

definition ex_stream :: Stream where
  "ex_stream = \<lparr>stream_name = ''s'', stream_conduit = None, stream_maxTargets = 2\<rparr>"

definition ex_nsp_target :: Target where
  "ex_nsp_target = \<lparr>target_ips = [''10.0.0.1/32''], target_context = [IdentifierKey \<mapsto> ''1''], target_status = ENABLED,
     target_type = DEFAULT, target_stream = Some ex_stream\<rparr>"

definition ex_order :: int_order where
  "ex_order n S = sorted_list_of_set S"

definition ex_started :: "(string, unit) LoadBalancer" where
  "ex_started = lb_Start (lb_New ex_stream 5000 (NewForwardingAvailabilityService ex_lb_target)
     \<lparr>hm_targets = Map.empty, hm_fwmarkChains = Map.empty\<rparr>
     (\<lambda>_. \<lparr>lt_fwMarks = [], lt_nspTarget = ex_nsp_target, lt_identifier = 0, lt_identifierOffset = 0\<rparr>) ())"

section \<open>Lemmas\<close>

subsection \<open>Retries that succeed\<close>

lemma configure_succeeds:
  "adds_succeed env \<Longrightarrow> \<exists>fws w'. configure_routes env k ips fws0 w = (None, fws, w')"
proof (induction ips arbitrary: fws0 w)
  case (Cons ip ips)
  obtain fw w1 where "nu_NewFWMarkRoute env ip k k w = (Inr fw, w1)" using Cons.prems unfolding adds_succeed_def by blast
  then show ?case using Cons by simp
qed simp

lemma AddTarget_succeeds:
  assumes "adds_succeed env" "lb_targets lb (lt_identifier (lb_heap lb r)) = None"
  shows "fst (AddTarget env r lb) = None"
proof -
  obtain fws w where "configure_routes env (lt_offsetId (lb_heap lb r)) (lt_GetIps (lb_heap lb r)) (lt_fwMarks (lb_heap lb r)) (lb_world lb) = (None, fws, w)"
    using configure_succeeds [OF assms(1)] by blast
  then have c: "fst (lt_Configure env r lb) = None" by (simp add: lt_Configure_def Let_def)
  obtain lb1 where c1: "lt_Configure env r lb = (None, lb1)" using c by (metis prod.collapse)
  obtain w1 where "nfq_Activate env (lt_identifier (lb_heap lb r)) (wrap_int (lt_identifier (lb_heap lb r) + lb_IdentifierOffset lb1)) (lb_world lb1) = (None, w1)"
    using assms(1) unfolding adds_succeed_def by (metis prod.collapse)
  then show ?thesis using c1 assms(2) by (simp add: AddTarget_def targetExists_def getTarget_def Let_def)
qed

lemma retry_succeeds:
  assumes "adds_succeed env" "lb_inv lb" "lb_pendingTargets lb i = Some r" "i \<in> set ids"
  shows "lb_targets (retryPendingTargets env ids lb) i = Some r"
  using assms(2-4)
proof (induction ids arbitrary: lb)
  case (Cons j ids)
  have keep: "lb_targets (retryPendingTargets env ids lb2) i = Some r" if "lb_inv lb2" "lb_targets lb2 i = Some r" for lb2 ids
    using that
  proof (induction ids arbitrary: lb2)
    case (Cons k ids)
    show ?case
    proof (cases "lb_pendingTargets lb2 k")
      case (Some q)
      have "lb_inv (snd (AddTarget env q lb2))" using retry_step [OF Cons.prems(1) Some] by blast
      moreover have "lb_targets (snd (AddTarget env q lb2)) i = Some r"
      proof -
        obtain e lb3 where ad: "AddTarget env q lb2 = (e, lb3)" by fastforce
        have "lt_identifier (lb_heap lb2 q) = k" "k \<noteq> i" "lb_targets lb2 k = None" "lt_fwMarks (lb_heap lb2 q) = []"
          using lb_invD [OF Cons.prems(1)] Some Cons.prems(2) by auto
        then show ?thesis using AddTarget_spec [OF ad] Some Cons.prems(2) ad by (auto split: if_splits)
      qed
      ultimately show ?thesis using Cons.IH Some by simp
    qed (use Cons in simp)
  qed simp
  show ?case
  proof (cases "lb_pendingTargets lb j")
    case None
    then show ?thesis using Cons by auto
  next
    case (Some q)
    obtain e lb1 where ad: "AddTarget env q lb = (e, lb1)" by fastforce
    have q: "lt_identifier (lb_heap lb q) = j" "lb_targets lb j = None" "lt_fwMarks (lb_heap lb q) = []"
      using lb_invD [OF Cons.prems(1)] Some by auto
    have e: "e = None" using AddTarget_succeeds [OF assms(1), of lb q] q ad by simp
    have inv1: "lb_inv lb1" using retry_step [OF Cons.prems(1) Some, of env] ad by simp
    have m: "lb_targets lb1 = (lb_targets lb)(j \<mapsto> q)" "lb_pendingTargets lb1 = (lb_pendingTargets lb)(j := None)"
      using AddTarget_spec [OF ad] q Some e by auto
    show ?thesis
    proof (cases "j = i")
      case True
      then show ?thesis using keep [OF inv1] m Some Cons.prems(2) ad by simp
    next
      case False
      then show ?thesis using Cons.IH [OF inv1] m Some Cons.prems(2,3) ad by simp
    qed
  qed
qed simp

subsection \<open>The example\<close>

lemma ex_order_keeps: "keeps_set ex_order"
  by (simp add: keeps_set_def ex_order_def)

lemma ex_started_reach: "lb_reach env ex_started"
proof -
  have "lb_reach env (lb_New ex_stream 5000 (NewForwardingAvailabilityService ex_lb_target)
     \<lparr>hm_targets = Map.empty, hm_fwmarkChains = Map.empty\<rparr>
     (\<lambda>_. \<lparr>lt_fwMarks = [], lt_nspTarget = ex_nsp_target, lt_identifier = 0, lt_identifierOffset = 0\<rparr>) ())"
    by (rule lb_reach.new) (simp add: NewForwardingAvailabilityService_def)
  then show ?thesis
    unfolding ex_started_def by (rule lb_reach.step) (rule lb_step.start, simp add: lb_New_def)
qed

lemma ex_started_simps [simp]:
  "isStreamRunning ex_started" "lb_targets ex_started = Map.empty" "lb_pendingTargets ex_started = Map.empty"
  "lb_flows ex_started = Map.empty" "lb_Stream ex_started = ex_stream" "forwardingPlane (lb_fas ex_started) = Some {}"
  by (simp_all add: ex_started_def lb_Start_def lb_New_def isStreamRunning_def NewForwardingAvailabilityService_def)

lemma ex_atoi: "atoi ''1'' = Some 1"
  by code_simp

lemma ex_configured: "configured [ex_nsp_target] Map.empty = [1 \<mapsto> ex_nsp_target]"
  by (simp add: ex_nsp_target_def ex_atoi)

text \<open>With an environment that makes no route the target of the response is pending.\<close>

lemma ex_pending:
  obtains e lb' r where "setTargets (ex_env False) ex_order [ex_nsp_target] ex_started = (e, lb')"
    "lb_reach (ex_env False) lb'" "lb_targets lb' 1 = None" "lb_pendingTargets lb' 1 = Some r"
proof -
  let ?s = "setTargets (ex_env False) ex_order [ex_nsp_target] ex_started"
  have r: "lb_reach (ex_env False) (snd ?s)"
    by (rule lb_reach.step [OF ex_started_reach lb_step.targets [OF ex_order_keeps]])
  define t :: "string lb_target" where
    "t = \<lparr>lt_fwMarks = [], lt_nspTarget = ex_nsp_target, lt_identifier = 1, lt_identifierOffset = 5000\<rparr>"
  define lb1 where "lb1 = ex_started\<lparr>lb_heap := (lb_heap ex_started)(0 := t), lb_next := 1\<rparr>"
  have t: "NewTarget 5000 ex_nsp_target = Some t" "lt_GetIps t = [''10.0.0.1/32'']"
    by (simp_all add: t_def NewTarget_def ex_nsp_target_def ex_atoi lt_GetIps_def)
  have st: "lb_IdentifierOffset ex_started = 5000" "lb_next ex_started = 0" "lb_hits ex_started = \<lparr>hm_targets = Map.empty, hm_fwmarkChains = Map.empty\<rparr>"
    by (simp_all add: ex_started_def lb_Start_def lb_New_def)
  have mk: "make_targets [ex_nsp_target] Map.empty ex_started = ([1 \<mapsto> 0], lb1)"
    using t st by (simp add: t_def lb1_def)
  have lb1: "lb_targets lb1 = Map.empty" "lb_pendingTargets lb1 = Map.empty" "lb_heap lb1 0 = t" "lt_identifier t = 1"
    by (simp_all add: lb1_def t_def)
  obtain e lb2 where ad: "AddTarget (ex_env False) 0 lb1 = (e, lb2)" by fastforce
  have "lt_Configure (ex_env False) 0 lb1 =
      (Some (ErrMsg ''failed to configure fwmark route'' # [ErrMsg ''no route'']), set_fwMarks 0 [] (lb1\<lparr>lb_world := ()\<rparr>))"
    using t(2) lb1 by (simp add: lt_Configure_def ex_env_def t_def)
  then have "e \<noteq> None"
    using ad lb1 by (auto simp: AddTarget_def targetExists_def getTarget_def add_failed_def split: prod.splits option.splits)
  then have lb2: "lb_targets lb2 1 = None" "lb_pendingTargets lb2 1 = Some 0"
    using AddTarget_spec [OF ad] lb1 by (auto simp: t_def split: if_splits)
  have "snd ?s = lb2"
    using mk ad lb1 by (simp add: setTargets_def ex_order_def)
  then have "lb_targets (snd ?s) 1 = None \<and> lb_pendingTargets (snd ?s) 1 = Some 0" using lb2 by simp
  then show ?thesis using that [of "fst ?s" "snd ?s" 0] r by simp
qed

section \<open>Properties\<close>

text \<open>
  C10: in every reachable state of a running stream, \<open>setTargets\<close> leaves as registered or
  pending targets exactly the identifiers of the enabled targets of the response, each with the
  addresses that the response gives, whatever fails on the way and in whatever order the maps are
  visited; and a registered target whose addresses did not change is not touched.
\<close>

theorem stream_targets_exact:
  assumes "lb_reach env lb" "keeps_set it" "isStreamRunning lb" "setTargets env it ts lb = (e, lb')"
  shows "(\<forall>i. case configured ts Map.empty i of
           None \<Rightarrow> lb_targets lb' i = None \<and> lb_pendingTargets lb' i = None
         | Some t \<Rightarrow> (\<exists>r. (lb_targets lb' i = Some r \<and> lb_pendingTargets lb' i = None \<or>
                             lb_targets lb' i = None \<and> lb_pendingTargets lb' i = Some r) \<and>
                        set (lt_GetIps (lb_heap lb' r)) = set (target_ips t))) \<and>
    (\<forall>i r t. lb_targets lb i = Some r \<longrightarrow> configured ts Map.empty i = Some t \<longrightarrow>
       set (lt_GetIps (lb_heap lb r)) = set (target_ips t) \<longrightarrow> lb_targets lb' i = Some r \<and> lb_heap lb' r = lb_heap lb r)"
proof -
  note sp = setTargets_spec [OF conjunct1 [OF lb_reach_inv [OF assms(1)]] assms(2-4)]
  have ex: "lb_targets lb' i = Some r \<Longrightarrow> lb_pendingTargets lb' i = None" for i r
    using lb_invD(8) [OF conjunct1 [OF sp]] by blast
  have ex': "lb_pendingTargets lb' i = Some r \<Longrightarrow> lb_targets lb' i = None" for i r
    using lb_invD(7) [OF conjunct1 [OF sp]] by blast
  show ?thesis
  proof (intro conjI allI)
    fix i
    show "case configured ts Map.empty i of
           None \<Rightarrow> lb_targets lb' i = None \<and> lb_pendingTargets lb' i = None
         | Some t \<Rightarrow> (\<exists>r. (lb_targets lb' i = Some r \<and> lb_pendingTargets lb' i = None \<or>
                             lb_targets lb' i = None \<and> lb_pendingTargets lb' i = Some r) \<and>
                        set (lt_GetIps (lb_heap lb' r)) = set (target_ips t))"
      using sp ex [of i] ex' [of i] by (cases "configured ts Map.empty i") (force dest: spec [of _ i])+
  qed (use sp in blast)
qed

theorem stream_targets_exact_witness:
  "\<exists>e lb' r. setTargets (ex_env True) ex_order [ex_nsp_target] ex_started = (e, lb') \<and>
     (lb_targets lb' 1 = Some r \<or> lb_pendingTargets lb' 1 = Some r) \<and>
     set (lt_GetIps (lb_heap lb' r)) = {''10.0.0.1/32''} \<and> lb_targets lb' 2 = None \<and> lb_pendingTargets lb' 2 = None"
proof -
  obtain e lb' where s: "setTargets (ex_env True) ex_order [ex_nsp_target] ex_started = (e, lb')" by fastforce
  note p = stream_targets_exact [OF ex_started_reach ex_order_keeps ex_started_simps(1) s, unfolded ex_configured]
  have "set (target_ips ex_nsp_target) = {''10.0.0.1/32''}" by (simp add: ex_nsp_target_def)
  then obtain r where "lb_targets lb' 1 = Some r \<or> lb_pendingTargets lb' 1 = Some r" "set (lt_GetIps (lb_heap lb' r)) = {''10.0.0.1/32''}"
    using spec [OF conjunct1 [OF p], of 1] by auto
  moreover have "lb_targets lb' 2 = None \<and> lb_pendingTargets lb' 2 = None"
    using spec [OF conjunct1 [OF p], of 2] by simp
  ultimately show ?thesis using s by (intro exI [of _ e] exI [of _ lb'] exI [of _ r]) simp
qed





text \<open>
  C16: the periodic check neither loses nor invents a target: a target that fails its
  verification becomes pending, a pending one that can be configured is registered, and the
  identifiers known to the stream stay the same.
\<close>

theorem stream_check_keeps:
  assumes "lb_reach env lb" "keeps_set it"
  shows "dom (lb_targets (checkf env it lb)) \<union> dom (lb_pendingTargets (checkf env it lb)) =
    dom (lb_targets lb) \<union> dom (lb_pendingTargets lb)"
  using checkf_spec [OF conjunct1 [OF lb_reach_inv [OF assms(1)]] assms(2), of env] by (simp add: known_def)

theorem stream_check_keeps_witness:
  "\<exists>lb. lb_reach (ex_env False) lb \<and> 1 \<in> dom (lb_targets (checkf (ex_env False) ex_order lb)) \<union>
     dom (lb_pendingTargets (checkf (ex_env False) ex_order lb))"
proof -
  obtain e lb r where "lb_reach (ex_env False) lb" "lb_pendingTargets lb 1 = Some r" by (rule ex_pending)
  with stream_check_keeps [OF this(1) ex_order_keeps] show ?thesis by blast
qed





end
