(* ===== verification/Nfqlb.thy ===== *)
theory Nfqlb
  imports LbStream
begin

text \<open>
  The wrapper around the program \<open>nfqlb\<close>: \<open>pkg/loadbalancer/nfqlb/nfqlb.go\<close> and \<open>stats.go\<close>. The program is
  not part of the repository: it is the argument \<open>run\<close>, which takes the command line and gives an
  error or nothing; JSON decoding of its output is the argument \<open>unmarshal\<close>.
\<close>

section \<open>Definitions\<close>

type_synonym 'w runner = "string list \<Rightarrow> 'w \<Rightarrow> string option \<times> 'w"

record nfqlb =
  nfqlb_name :: string
  nfqlb_m :: int
  nfqlb_n :: int

definition nfqlbCmd :: string where "nfqlbCmd = ''nfqlb''"
definition MAXPORTRANGE :: string where "MAXPORTRANGE = ''0-65535''"
definition ownfw :: int where "ownfw = 0"
definition qlength :: int where "qlength = 1024"

definition exec :: "'w runner \<Rightarrow> string \<Rightarrow> string list \<Rightarrow> 'w \<Rightarrow> go_error option \<times> 'w" where
  "exec run msg args w =
     (case run (nfqlbCmd # args) w of
        (None, w') \<Rightarrow> (None, w')
      | (Some out, w') \<Rightarrow> (Some [ErrMsg msg, ErrMsg out], w'))"

definition getTargetSHM :: "string \<Rightarrow> string" where
  "getTargetSHM name = ''tshm-'' @ name"

definition nfqlbFactory_New :: "string \<Rightarrow> int \<Rightarrow> int \<Rightarrow> nfqlb" where
  "nfqlbFactory_New name m n = \<lparr>nfqlb_name = getTargetSHM name, nfqlb_m = m, nfqlb_n = n\<rparr>"

definition nfqlbFactory_Start :: "'w runner \<Rightarrow> string \<Rightarrow> 'w \<Rightarrow> go_error option \<times> 'w" where
  "nfqlbFactory_Start run nfqueue w = exec run ''failed to start nfqlb''
     [''flowlb'', ''--promiscuous_ping'', ''--queue='' @ nfqueue, ''--qlength='' @ itoa qlength, ''--hash_mode=0''] w"

definition nfqlb_Start :: "'w runner \<Rightarrow> nfqlb \<Rightarrow> 'w \<Rightarrow> go_error option \<times> 'w" where
  "nfqlb_Start run n w = exec run ''failed to init nfqlb shm''
     [''init'', ''--ownfw='' @ itoa ownfw, ''--shm='' @ nfqlb_name n, ''--M='' @ itoa (nfqlb_m n), ''--N='' @ itoa (nfqlb_n n)] w"

definition nfqlb_Delete :: "'w runner \<Rightarrow> nfqlb \<Rightarrow> 'w \<Rightarrow> go_error option \<times> 'w" where
  "nfqlb_Delete run n w = exec run ''failed to delete nfqlb shm'' [''delete'', ''--shm='' @ nfqlb_name n] w"

definition nfqlb_Activate :: "'w runner \<Rightarrow> nfqlb \<Rightarrow> int \<Rightarrow> int \<Rightarrow> 'w \<Rightarrow> go_error option \<times> 'w" where
  "nfqlb_Activate run n index identifier w = exec run ''failed to activate nfqlb target''
     [''activate'', ''--index='' @ itoa (wrap_int (index - 1)), ''--shm='' @ nfqlb_name n, itoa identifier] w"

definition nfqlb_Deactivate :: "'w runner \<Rightarrow> nfqlb \<Rightarrow> int \<Rightarrow> 'w \<Rightarrow> go_error option \<times> 'w" where
  "nfqlb_Deactivate run n index w = exec run ''failed to deactivate nfqlb target''
     [''deactivate'', ''--index='' @ itoa (wrap_int (index - 1)), ''--shm='' @ nfqlb_name n] w"

definition anyPortRange :: "string list \<Rightarrow> bool" where
  "anyPortRange ports = list_ex (\<lambda>port. port = MAXPORTRANGE) ports"

definition anyIPRange :: "string list \<Rightarrow> bool" where
  "anyIPRange ips = list_all (\<lambda>ip.
     (case split_on (CHR ''/'') ip of
        _ # m # _ \<Rightarrow> (case atoi m of Some bits \<Rightarrow> bits = 0 | None \<Rightarrow> False)
      | _ \<Rightarrow> False)) ips"

text \<open>A repeated field of a message that came over the wire is nil exactly when it is empty.\<close>

definition selector :: "bool \<Rightarrow> string \<Rightarrow> string list \<Rightarrow> string list" where
  "selector skip flag values = (if values = [] \<or> skip then [] else [flag @ join '','' values])"

definition flow_id :: "nfqlb \<Rightarrow> Flow \<Rightarrow> string" where
  "flow_id n flow = nfqlb_name n @ ''-'' @ flow_name flow"

definition set_flow_args :: "nfqlb \<Rightarrow> Flow \<Rightarrow> string list" where
  "set_flow_args n flow =
     [''flow-set'', ''--name='' @ flow_id n flow, ''--target='' @ nfqlb_name n,
      ''--prio='' @ itoa (flow_priority flow), ''--protocols='' @ join '','' (flow_protocols flow)]
     @ selector False ''--dsts='' (map vip_address (flow_vips flow))
     @ selector (anyIPRange (flow_sourceSubnets flow)) ''--srcs='' (flow_sourceSubnets flow)
     @ selector (anyPortRange (flow_destinationPortRanges flow)) ''--dports='' (flow_destinationPortRanges flow)
     @ selector (anyPortRange (flow_sourcePortRanges flow)) ''--sports='' (flow_sourcePortRanges flow)
     @ selector False ''--match='' (flow_byteMatches flow)"

definition SetFlow :: "'w runner \<Rightarrow> nfqlb \<Rightarrow> Flow \<Rightarrow> 'w \<Rightarrow> go_error option \<times> 'w" where
  "SetFlow run n flow w = exec run ''failed to set nfqlb flow'' (set_flow_args n flow) w"

definition DeleteFlow :: "'w runner \<Rightarrow> nfqlb \<Rightarrow> Flow \<Rightarrow> 'w \<Rightarrow> go_error option \<times> 'w" where
  "DeleteFlow run n flow w = exec run ''failed to delete nfqlb flow'' [''flow-delete'', ''--name='' @ flow_id n flow] w"

record nfqlbFlowStats =
  fs_Name :: string
  fs_UserRef :: string
  fs_MatchesCount :: int

text \<open>A slice expression out of range panics, which is \<open>None\<close>.\<close>

definition slice_from :: "nat \<Rightarrow> string \<Rightarrow> string option" where
  "slice_from k s = (if k \<le> length s then Some (drop k s) else None)"

definition getFlowName :: "nfqlbFlowStats \<Rightarrow> string option" where
  "getFlowName st = slice_from (length (fs_UserRef st) + 1) (fs_Name st)"

definition getStreamName :: "nfqlbFlowStats \<Rightarrow> string option" where
  "getStreamName st = slice_from (length ''tshm-'') (fs_UserRef st)"

fun flow_stats :: "nfqlbFlowStats list \<Rightarrow> (string \<times> string \<times> int) list option" where
  "flow_stats [] = Some []"
| "flow_stats (st # sts) =
     (case (getFlowName st, getStreamName st, flow_stats sts) of
        (Some f, Some s, Some r) \<Rightarrow> Some ((f, s, fs_MatchesCount st) # r)
      | _ \<Rightarrow> None)"

text \<open>\<open>GetFlowStats\<close>: \<open>Some (Inl e)\<close> is the error return, \<open>None\<close> a panic.\<close>

definition GetFlowStats ::
  "(string \<Rightarrow> nfqlbFlowStats list option) \<Rightarrow> (go_error + string) \<Rightarrow> (go_error + (string \<times> string \<times> int) list) option" where
  "GetFlowStats unmarshal flowList =
     (case flowList of
        Inl e \<Rightarrow> Some (Inl e)
      | Inr out \<Rightarrow>
          (case unmarshal out of
             None \<Rightarrow> Some (Inl [ErrMsg ''failed to unmarshal flow stats''])
           | Some sts \<Rightarrow> map_option Inr (flow_stats sts)))"

text \<open>What the program lists for a flow that \<open>SetFlow\<close> configured: the values of \<open>--name\<close> and \<open>--target\<close>.\<close>

definition listed :: "nfqlb \<times> Flow \<times> int \<Rightarrow> nfqlbFlowStats" where
  "listed = (\<lambda>(n, flow, c). \<lparr>fs_Name = flow_id n flow, fs_UserRef = nfqlb_name n, fs_MatchesCount = c\<rparr>)"

text \<open>The interface of the stream, implemented by the program.\<close>

definition nfqlb_env :: "'w runner \<Rightarrow> nfqlb \<Rightarrow> ('fw, 'w) lb_env \<Rightarrow> ('fw, 'w) lb_env" where
  "nfqlb_env run n env = env\<lparr>nfq_Activate := nfqlb_Activate run n, nfq_Deactivate := nfqlb_Deactivate run n,
     nfq_Delete := nfqlb_Delete run n, nfq_SetFlow := SetFlow run n, nfq_DeleteFlow := DeleteFlow run n\<rparr>"

section \<open>Lemmas\<close>

lemma getFlowName_listed: "getFlowName (listed (n, flow, c)) = Some (flow_name flow)"
  by (simp add: getFlowName_def listed_def flow_id_def slice_from_def)

lemma getStreamName_listed:
  "getStreamName (listed (nfqlbFactory_New s m k, flow, c)) = Some s"
  by (simp add: getStreamName_def listed_def nfqlbFactory_New_def getTargetSHM_def slice_from_def)

lemma flow_id_inj:
  assumes "CHR ''-'' \<notin> set s" "CHR ''-'' \<notin> set s'"
    "flow_id (nfqlbFactory_New s m k) f = flow_id (nfqlbFactory_New s' m' k') f'"
  shows "s = s' \<and> flow_name f = flow_name f'"
proof -
  have eq: "s @ CHR ''-'' # flow_name f = s' @ CHR ''-'' # flow_name f'"
    using assms(3) by (simp add: flow_id_def nfqlbFactory_New_def getTargetSHM_def)
  then have "split_on (CHR ''-'') (s @ CHR ''-'' # flow_name f) = split_on (CHR ''-'') (s' @ CHR ''-'' # flow_name f')" by simp
  then have "s = s'" using split_on_append [OF assms(1), of "flow_name f"] split_on_append [OF assms(2), of "flow_name f'"] by simp
  with eq show ?thesis by simp
qed

section \<open>Properties\<close>


text \<open>
  C21: as long as no stream name contains a hyphen, two flows of the program have the same
  identity only if they are the same flow of the same stream.
\<close>

theorem flow_names_distinct:
  assumes "CHR ''-'' \<notin> set s" "CHR ''-'' \<notin> set s'"
  shows "set_flow_args (nfqlbFactory_New s m k) f ! 1 = set_flow_args (nfqlbFactory_New s' m' k') f' ! 1 \<longleftrightarrow>
    s = s' \<and> flow_name f = flow_name f'"
  using flow_id_inj [OF assms, of m k f m' k' f']
  by (auto simp: set_flow_args_def flow_id_def nfqlbFactory_New_def)

theorem flow_names_distinct_witness:
  "set_flow_args (nfqlbFactory_New ''a'' 100 1) \<lparr>flow_name = ''x'', flow_sourceSubnets = [], flow_destinationPortRanges = [],
     flow_sourcePortRanges = [], flow_protocols = [], flow_priority = 0, flow_stream = None, flow_vips = [], flow_byteMatches = []\<rparr> ! 1 \<noteq>
   set_flow_args (nfqlbFactory_New ''b'' 100 1) \<lparr>flow_name = ''x'', flow_sourceSubnets = [], flow_destinationPortRanges = [],
     flow_sourcePortRanges = [], flow_protocols = [], flow_priority = 0, flow_stream = None, flow_vips = [], flow_byteMatches = []\<rparr> ! 1"
  using flow_names_distinct [of "''a''" "''b''" 100 1 _ 100 1] by simp

text \<open>
  With hyphens in the names, which the API allows, two flows of different streams get
  the same identity: flow \<open>y\<close> of stream \<open>s-x\<close> and flow \<open>x-y\<close> of stream \<open>s\<close>. Setting one replaces the other, and
  deleting one issues the very command that deletes the other.
\<close>

theorem flow_names_collide:
  "\<exists>s s' f f'. s \<noteq> s' \<and> flow_name f \<noteq> flow_name f' \<and>
     set_flow_args (nfqlbFactory_New s 100 1) f ! 1 = set_flow_args (nfqlbFactory_New s' 100 1) f' ! 1 \<and>
     (\<forall>run (w :: unit). DeleteFlow run (nfqlbFactory_New s 100 1) f w = DeleteFlow run (nfqlbFactory_New s' 100 1) f' w)"
proof -
  let ?f = "\<lambda>n. \<lparr>flow_name = n, flow_sourceSubnets = [], flow_destinationPortRanges = [], flow_sourcePortRanges = [],
     flow_protocols = [], flow_priority = 0, flow_stream = None, flow_vips = [], flow_byteMatches = []\<rparr>"
  show ?thesis
    by (rule exI [of _ "''s-x''"], rule exI [of _ "''s''"], rule exI [of _ "?f ''y''"], rule exI [of _ "?f ''x-y''"])
      (simp add: set_flow_args_def flow_id_def nfqlbFactory_New_def getTargetSHM_def DeleteFlow_def)
qed

text \<open>
  A flow restricted to all IPv4 sources is configured with the very command of a flow
  without a source restriction, which also matches IPv6 sources.
\<close>

theorem any_source_widens:
  "set_flow_args n (f\<lparr>flow_sourceSubnets := [''0.0.0.0/0'']\<rparr>) = set_flow_args n (f\<lparr>flow_sourceSubnets := []\<rparr>)"
proof -
  have "anyIPRange [''0.0.0.0/0'']" by code_simp
  then show ?thesis by (simp add: set_flow_args_def selector_def flow_id_def)
qed

end
