(* ===== verification/FwMark.thy ===== *)
theory FwMark
  imports Nfqlb
begin

text \<open>
  Routes by firewall mark: \<open>pkg/kernel/fwmark.go\<close>. The netlink library is the argument \<open>nl\<close>, a record of its
  calls on a world; what the proofs need of the kernel tables behind it is the predicate
  \<open>kernel_tables\<close>. An error is the list of the errors it wraps.
\<close>

section \<open>Definitions\<close>

datatype errno = ENOENT | ESRCH | EOTHER nat

datatype fw_err = FWMarkRouteRuleError | FWMarkRouteError | ErrParseAddr | Errno errno

datatype nl_family = FAMILY_V4 | FAMILY_V6

text \<open>A rule as \<open>NewRule\<close> gives it has no mark.\<close>

record nl_rule =
  rule_Table :: int
  rule_Mark :: "nat option"
  rule_Family :: nl_family

record nl_route =
  route_Gw :: ip
  route_Table :: int

record nl_neigh =
  neigh_IP :: ip

record 'w netlink =
  nl_ParseAddr :: "string \<Rightarrow> ip option"
  nl_RuleAdd :: "nl_rule \<Rightarrow> 'w \<Rightarrow> errno option \<times> 'w"
  nl_RuleDel :: "nl_rule \<Rightarrow> 'w \<Rightarrow> errno option \<times> 'w"
  nl_RouteAdd :: "nl_route \<Rightarrow> 'w \<Rightarrow> errno option \<times> 'w"
  nl_RouteDel :: "nl_route \<Rightarrow> 'w \<Rightarrow> errno option \<times> 'w"
  nl_RouteListFiltered :: "nl_family \<Rightarrow> nl_route option \<Rightarrow> 'w \<Rightarrow> nl_route list option"
  nl_NeighList :: "'w \<Rightarrow> nl_neigh list option"
  nl_NeighDel :: "nl_neigh \<Rightarrow> 'w \<Rightarrow> errno option \<times> 'w"

definition asErrFWMarkRule :: "fw_err list \<Rightarrow> bool" where
  "asErrFWMarkRule err \<longleftrightarrow> FWMarkRouteRuleError \<in> set err"

definition asErrFWMarkRoute :: "fw_err list \<Rightarrow> bool" where
  "asErrFWMarkRoute err \<longleftrightarrow> FWMarkRouteError \<in> set err"

definition isErrNoRule :: "fw_err list \<Rightarrow> bool" where
  "isErrNoRule err \<longleftrightarrow> asErrFWMarkRule err \<and> Errno ENOENT \<in> set err"

definition isErrNoRoute :: "fw_err list \<Rightarrow> bool" where
  "isErrNoRoute err \<longleftrightarrow> asErrFWMarkRoute err \<and> Errno ESRCH \<in> set err"

record FWMarkRoute =
  fwmr_ip :: ip
  fwmr_fwmark :: int
  fwmr_tableID :: int
  fwmr_route :: "nl_route option"

definition fwmr_family :: "FWMarkRoute \<Rightarrow> nl_family" where
  "fwmr_family f = (if to4 (fwmr_ip f) \<noteq> None then FAMILY_V4 else FAMILY_V6)"

definition fwmr_Delete :: "'w netlink \<Rightarrow> FWMarkRoute \<Rightarrow> 'w \<Rightarrow> fw_err list option \<times> 'w" where
  "fwmr_Delete nl f w =
     (case nl_RuleDel nl \<lparr>rule_Table = fwmr_tableID f, rule_Mark = None, rule_Family = fwmr_family f\<rparr> w of
        (Some e, w1) \<Rightarrow> (Some [FWMarkRouteRuleError, Errno e], w1)
      | (None, w1) \<Rightarrow>
          (case nl_RouteDel nl \<lparr>route_Gw = fwmr_ip f, route_Table = fwmr_tableID f\<rparr> w1 of
             (Some e, w2) \<Rightarrow> (Some [FWMarkRouteError, Errno e], w2)
           | (None, w2) \<Rightarrow> (None, w2)))"

definition fwmr_Verify :: "'w netlink \<Rightarrow> FWMarkRoute \<Rightarrow> 'w \<Rightarrow> bool" where
  "fwmr_Verify nl f w =
     (case nl_RouteListFiltered nl (fwmr_family f) (fwmr_route f) w of None \<Rightarrow> False | Some routes \<Rightarrow> length routes > 0)"

fun clean_list :: "'w netlink \<Rightarrow> ip \<Rightarrow> nl_neigh list \<Rightarrow> 'w \<Rightarrow> 'w" where
  "clean_list nl ip [] w = w"
| "clean_list nl ip (n # ns) w =
     clean_list nl ip ns (if ip_equal (neigh_IP n) ip then snd (nl_NeighDel nl n w) else w)"

definition cleanNeighbor :: "'w netlink \<Rightarrow> FWMarkRoute \<Rightarrow> 'w \<Rightarrow> 'w" where
  "cleanNeighbor nl f w = (case nl_NeighList nl w of None \<Rightarrow> w | Some ns \<Rightarrow> clean_list nl (fwmr_ip f) ns w)"

text \<open>\<open>configure\<close> also sets the route of the object, in the third component.\<close>

definition fwmr_configure :: "'w netlink \<Rightarrow> FWMarkRoute \<Rightarrow> 'w \<Rightarrow> fw_err list option \<times> 'w \<times> FWMarkRoute" where
  "fwmr_configure nl f w =
     (let w1 = snd (fwmr_Delete nl f w)
      in case nl_RuleAdd nl \<lparr>rule_Table = fwmr_tableID f, rule_Mark = Some (nat (fwmr_fwmark f mod 2 ^ 32)),
                             rule_Family = fwmr_family f\<rparr> w1 of
           (Some e, w2) \<Rightarrow> (Some [FWMarkRouteRuleError, Errno e], w2, f)
         | (None, w2) \<Rightarrow>
             (let w3 = cleanNeighbor nl f w2;
                  route = \<lparr>route_Gw = fwmr_ip f, route_Table = fwmr_tableID f\<rparr>;
                  f' = f\<lparr>fwmr_route := Some route\<rparr>
              in case nl_RouteAdd nl route w3 of
                   (Some e, w4) \<Rightarrow> (Some [FWMarkRouteError, Errno e], w4, f')
                 | (None, w4) \<Rightarrow> (None, w4, f')))"

definition NewFWMarkRoute :: "'w netlink \<Rightarrow> string \<Rightarrow> int \<Rightarrow> int \<Rightarrow> 'w \<Rightarrow> (fw_err list + FWMarkRoute) \<times> 'w" where
  "NewFWMarkRoute nl ip fwmark tableID w =
     (case nl_ParseAddr nl ip of
        None \<Rightarrow> (Inl [ErrParseAddr], w)
      | Some addr \<Rightarrow>
          (case fwmr_configure nl \<lparr>fwmr_ip = addr, fwmr_fwmark = fwmark, fwmr_tableID = tableID, fwmr_route = None\<rparr> w of
             (None, w1, f) \<Rightarrow> (Inr f, w1)
           | (Some err, w1, f) \<Rightarrow>
               (case fwmr_Delete nl f w1 of
                  (None, w2) \<Rightarrow> (Inl err, w2)
                | (Some delErr, w2) \<Rightarrow>
                    if asErrFWMarkRule err \<and> (isErrNoRule delErr \<or> isErrNoRoute delErr) then (Inl err, w2)
                    else if asErrFWMarkRoute err \<and> isErrNoRoute delErr then (Inl err, w2)
                    else (Inl (err @ delErr), w2))))"

text \<open>The interface of the stream, implemented by the kernel and the program \<open>nfqlb\<close>.\<close>

definition fw_msg :: "fw_err \<Rightarrow> go_err" where
  "fw_msg e = (case e of
     FWMarkRouteRuleError \<Rightarrow> ErrMsg ''fwmark route rule configuration error''
   | FWMarkRouteError \<Rightarrow> ErrMsg ''fwmark route error''
   | ErrParseAddr \<Rightarrow> ErrMsg ''failed parsing addr''
   | Errno _ \<Rightarrow> ErrMsg ''errno'')"

definition kernel_env :: "'w netlink \<Rightarrow> 'w runner \<Rightarrow> nfqlb \<Rightarrow> (FWMarkRoute, 'w) lb_env" where
  "kernel_env nl run n = nfqlb_env run n
     \<lparr>nu_NewFWMarkRoute = (\<lambda>ip m t w. case NewFWMarkRoute nl ip m t w of
          (Inl e, w') \<Rightarrow> (Inl (map fw_msg e), w') | (Inr f, w') \<Rightarrow> (Inr f, w')),
      nu_Verify = fwmr_Verify nl,
      nu_Delete = (\<lambda>f w. case fwmr_Delete nl f w of (e, w') \<Rightarrow> (map_option (map fw_msg) e, w')),
      nfq_Activate = (\<lambda>i j w. (None, w)), nfq_Deactivate = (\<lambda>i w. (None, w)), nfq_Delete = (\<lambda>w. (None, w)),
      nfq_SetFlow = (\<lambda>f w. (None, w)), nfq_DeleteFlow = (\<lambda>f w. (None, w)),
      nft_AddCounter = (\<lambda>i w. w), nft_DelCounter = (\<lambda>i w. w), fas_skip = {}\<rparr>"

text \<open>What the kernel does: the tables of rules and routes, which only the successful calls change.
  A rule without a mark deletes a rule of the same table and family whatever its mark.\<close>

definition kernel_tables :: "'w netlink \<Rightarrow> ('w \<Rightarrow> nl_rule set) \<Rightarrow> ('w \<Rightarrow> nl_route set) \<Rightarrow> bool" where
  "kernel_tables nl rules routes \<longleftrightarrow>
     (\<forall>r w. case nl_RuleAdd nl r w of (e, w') \<Rightarrow> routes w' = routes w \<and> rules w' = (if e = None then insert r (rules w) else rules w)) \<and>
     (\<forall>r w. case nl_RuleDel nl r w of (e, w') \<Rightarrow> routes w' = routes w \<and>
        (let m = {x \<in> rules w. rule_Table x = rule_Table r \<and> rule_Family x = rule_Family r}
         in if e = None then (\<exists>x \<in> m. rules w' = rules w - {x}) else m = {} \<and> rules w' = rules w)) \<and>
     (\<forall>r w. case nl_RouteAdd nl r w of (e, w') \<Rightarrow> rules w' = rules w \<and> routes w' = (if e = None then insert r (routes w) else routes w)) \<and>
     (\<forall>r w. case nl_RouteDel nl r w of (e, w') \<Rightarrow> rules w' = rules w \<and> routes w' = (if e = None then routes w - {r} else routes w)) \<and>
     (\<forall>n w. case nl_NeighDel nl n w of (e, w') \<Rightarrow> rules w' = rules w \<and> routes w' = routes w)"

text \<open>At most one rule for the table in each family.\<close>

definition one_rule :: "nl_rule set \<Rightarrow> int \<Rightarrow> bool" where
  "one_rule R t \<longleftrightarrow> (\<forall>x \<in> R. \<forall>y \<in> R. rule_Table x = t \<longrightarrow> rule_Table y = t \<longrightarrow> rule_Family x = rule_Family y \<longrightarrow> x = y)"

text \<open>A kernel for the examples: two lists.\<close>

definition same_table :: "nl_rule \<Rightarrow> nl_rule \<Rightarrow> bool" where
  "same_table r x \<longleftrightarrow> rule_Table x = rule_Table r \<and> rule_Family x = rule_Family r"

definition ex_netlink :: "(nl_rule list \<times> nl_route list) netlink" where
  "ex_netlink = \<lparr>nl_ParseAddr = (\<lambda>s. Some [10, 0, 0, 1]),
     nl_RuleAdd = (\<lambda>r w. (None, (r # fst w, snd w))),
     nl_RuleDel = (\<lambda>r w. case find (same_table r) (fst w) of None \<Rightarrow> (Some ENOENT, w)
                          | Some x \<Rightarrow> (None, (removeAll x (fst w), snd w))),
     nl_RouteAdd = (\<lambda>q w. (None, (fst w, q # snd w))),
     nl_RouteDel = (\<lambda>q w. if q \<in> set (snd w) then (None, (fst w, removeAll q (snd w))) else (Some ESRCH, w)),
     nl_RouteListFiltered = (\<lambda>fam q w. Some (filter (\<lambda>x. Some x = q) (snd w))),
     nl_NeighList = (\<lambda>w. Some []), nl_NeighDel = (\<lambda>n w. (None, w))\<rparr>"

section \<open>Lemmas\<close>

lemma kernel_tablesD:
  assumes "kernel_tables nl rules routes"
  shows "nl_RuleAdd nl r w = (e, w') \<Longrightarrow> routes w' = routes w \<and> rules w' = (if e = None then insert r (rules w) else rules w)"
    "nl_RuleDel nl r w = (e, w') \<Longrightarrow> routes w' = routes w \<and>
       (if e = None then (\<exists>x \<in> rules w. rule_Table x = rule_Table r \<and> rule_Family x = rule_Family r \<and> rules w' = rules w - {x})
        else (\<forall>x \<in> rules w. rule_Table x \<noteq> rule_Table r \<or> rule_Family x \<noteq> rule_Family r) \<and> rules w' = rules w)"
    "nl_RouteAdd nl q w = (e, w') \<Longrightarrow> rules w' = rules w \<and> routes w' = (if e = None then insert q (routes w) else routes w)"
    "nl_RouteDel nl q w = (e, w') \<Longrightarrow> rules w' = rules w \<and> routes w' = (if e = None then routes w - {q} else routes w)"
    "nl_NeighDel nl n w = (e, w') \<Longrightarrow> rules w' = rules w \<and> routes w' = routes w"
proof -
  note k = assms [unfolded kernel_tables_def Let_def]
  show "nl_RuleAdd nl r w = (e, w') \<Longrightarrow> routes w' = routes w \<and> rules w' = (if e = None then insert r (rules w) else rules w)"
    using spec [OF spec [OF conjunct1 [OF k], of r], of w] by simp
  show "nl_RuleDel nl r w = (e, w') \<Longrightarrow> routes w' = routes w \<and>
       (if e = None then (\<exists>x \<in> rules w. rule_Table x = rule_Table r \<and> rule_Family x = rule_Family r \<and> rules w' = rules w - {x})
        else (\<forall>x \<in> rules w. rule_Table x \<noteq> rule_Table r \<or> rule_Family x \<noteq> rule_Family r) \<and> rules w' = rules w)"
    using spec [OF spec [OF conjunct1 [OF conjunct2 [OF k]], of r], of w] by (cases e) auto
  show "nl_RouteAdd nl q w = (e, w') \<Longrightarrow> rules w' = rules w \<and> routes w' = (if e = None then insert q (routes w) else routes w)"
    using spec [OF spec [OF conjunct1 [OF conjunct2 [OF conjunct2 [OF k]]], of q], of w] by simp
  show "nl_RouteDel nl q w = (e, w') \<Longrightarrow> rules w' = rules w \<and> routes w' = (if e = None then routes w - {q} else routes w)"
    using spec [OF spec [OF conjunct1 [OF conjunct2 [OF conjunct2 [OF conjunct2 [OF k]]]], of q], of w] by simp
  show "nl_NeighDel nl n w = (e, w') \<Longrightarrow> rules w' = rules w \<and> routes w' = routes w"
    using spec [OF spec [OF conjunct2 [OF conjunct2 [OF conjunct2 [OF conjunct2 [OF k]]]], of n], of w] by simp
qed

lemma clean_tables:
  assumes "kernel_tables nl rules routes"
  shows "rules (clean_list nl ip ns w) = rules w \<and> routes (clean_list nl ip ns w) = routes w"
proof (induction ns arbitrary: w)
  case (Cons n ns)
  have "rules (snd (nl_NeighDel nl n w)) = rules w \<and> routes (snd (nl_NeighDel nl n w)) = routes w"
    using kernel_tablesD(5) [OF assms, of n w] by (cases "nl_NeighDel nl n w") simp
  then show ?case using Cons by simp
qed simp

lemma cleanNeighbor_tables:
  assumes "kernel_tables nl rules routes"
  shows "rules (cleanNeighbor nl f w) = rules w" "routes (cleanNeighbor nl f w) = routes w"
  using clean_tables [OF assms] by (auto simp: cleanNeighbor_def split: option.splits)

text \<open>After a deletion no rule of the table and family is left, and other rules are untouched.\<close>

lemma delete_rules:
  assumes "kernel_tables nl rules routes" "fwmr_Delete nl f w = (e, w')" "one_rule (rules w) (fwmr_tableID f)"
  shows "rules w' = {x \<in> rules w. rule_Table x \<noteq> fwmr_tableID f \<or> rule_Family x \<noteq> fwmr_family f}"
proof -
  let ?r = "\<lparr>rule_Table = fwmr_tableID f, rule_Mark = None, rule_Family = fwmr_family f\<rparr>"
  obtain e1 w1 where d: "nl_RuleDel nl ?r w = (e1, w1)" by fastforce
  have w1: "rules w' = rules w1"
    using assms(2) d kernel_tablesD(4) [OF assms(1)] by (auto simp: fwmr_Delete_def split: option.splits prod.splits)
  show ?thesis
  proof (cases e1)
    case None
    then obtain x where x: "x \<in> rules w" "rule_Table x = fwmr_tableID f" "rule_Family x = fwmr_family f" "rules w1 = rules w - {x}"
      using kernel_tablesD(2) [OF assms(1) d] by auto
    have "y = x" if "y \<in> rules w" "rule_Table y = fwmr_tableID f" "rule_Family y = fwmr_family f" for y
      using assms(3) that x(1-3) unfolding one_rule_def by simp
    then show ?thesis unfolding w1 x(4) using x(2,3) by blast
  next
    case (Some e)
    then show ?thesis using kernel_tablesD(2) [OF assms(1) d] w1 by auto
  qed
qed


lemma other_rules_one: "one_rule {x \<in> R. rule_Table x \<noteq> t \<or> rule_Family x \<noteq> g} t" if "one_rule R t"
  using that by (auto simp: one_rule_def)

lemma ex_kernel_tables: "kernel_tables ex_netlink (\<lambda>w. set (fst w)) (\<lambda>w. set (snd w))"
proof -
  have del: "case nl_RuleDel ex_netlink r w of (e, w') \<Rightarrow> set (snd w') = set (snd w) \<and>
      (let m = {x \<in> set (fst w). rule_Table x = rule_Table r \<and> rule_Family x = rule_Family r}
       in if e = None then (\<exists>x \<in> m. set (fst w') = set (fst w) - {x}) else m = {} \<and> set (fst w') = set (fst w))" for r w
  proof (cases "find (same_table r) (fst w)")
    case None
    then have "nl_RuleDel ex_netlink r w = (Some ENOENT, w)" by (simp add: ex_netlink_def)
    moreover have "\<forall>x \<in> set (fst w). \<not> same_table r x" using None by (auto simp: find_None_iff)
    ultimately show ?thesis by (auto simp: same_table_def)
  next
    case (Some x)
    then have "x \<in> set (fst w)" "same_table r x" using find_SomeD by fast+
    moreover have "nl_RuleDel ex_netlink r w = (None, (removeAll x (fst w), snd w))" using Some by (simp add: ex_netlink_def)
    ultimately show ?thesis by (auto simp: same_table_def Let_def)
  qed
  have eq: "nl_RuleAdd ex_netlink = (\<lambda>r w. (None, (r # fst w, snd w)))" "nl_RouteAdd ex_netlink = (\<lambda>q w. (None, (fst w, q # snd w)))"
    "nl_RouteDel ex_netlink = (\<lambda>q w. if q \<in> set (snd w) then (None, (fst w, removeAll q (snd w))) else (Some ESRCH, w))"
    "nl_NeighDel ex_netlink = (\<lambda>n w. (None, w))"
    by (simp_all add: ex_netlink_def)
  show ?thesis unfolding kernel_tables_def using del by (simp add: eq)
qed

section \<open>Properties\<close>



end
