(* ===== verification/LbService.thy ===== *)
theory LbService
  imports LbStream "HOL-Library.List_Lexorder" "HOL-Library.Char_ord"
begin

text \<open>
  The service around the streams: \<open>SimpleNetworkService\<close> of \<open>cmd/stateless-lb/main.go\<close>, which creates and
  deletes streams and disables replaced interfaces, and \<open>FrontendNetworkService\<close> of
  \<open>cmd/stateless-lb/egress.go\<close>, which blocks it while the local frontend has no connectivity. Creating
  and deleting a stream go through the interface of the streams (\<open>types.Stream\<close>), the record
  \<open>stream_api\<close> over a world; setting an interface down and the NSM endpoint are calls to libraries.
\<close>

section \<open>Definitions\<close>

subsection \<open>Streams\<close>

record ('s, 'w) stream_api =
  sa_New :: "Stream \<Rightarrow> int \<Rightarrow> int \<Rightarrow> 'w \<Rightarrow> 's option \<times> 'w"
  sa_Delete :: "'s \<Rightarrow> 'w \<Rightarrow> go_error option \<times> 'w"
  sa_NewDetector :: "string \<Rightarrow> 'w \<Rightarrow> bool \<times> 'w"
  sa_Start :: "'s \<Rightarrow> 'w \<Rightarrow> 'w"
  sa_LinkSetDown :: "int \<Rightarrow> 'w \<Rightarrow> 'w"

record Iface =
  if_index :: int
  if_localPrefixes :: "string list"

record ('s, 'w) SimpleNetworkService =
  sns_Conduit :: Conduit
  sns_Generator :: IdentifierOffsetGenerator
  sns_streams :: "string \<rightharpoonup> 's"
  sns_interfaces :: "int \<rightharpoonup> Iface"
  sns_nfqueueIndex :: int
  sns_Blocked :: bool
  sns_cancelStreamWatcher :: bool
  sns_streamWatcherRunning :: bool
  sns_streamSvc :: bool
  sns_world :: 'w

definition newSimpleNetworkService :: "Conduit \<Rightarrow> int \<Rightarrow> 'w \<Rightarrow> ('s, 'w) SimpleNetworkService" where
  "newSimpleNetworkService conduit identifierOffsetStart w =
     \<lparr>sns_Conduit = conduit, sns_Generator = NewIdentifierOffsetGenerator identifierOffsetStart, sns_streams = Map.empty,
      sns_interfaces = Map.empty, sns_nfqueueIndex = 1, sns_Blocked = True, sns_cancelStreamWatcher = False, sns_streamWatcherRunning = False,
      sns_streamSvc = False, sns_world = w\<rparr>"

text \<open>\<open>addStream\<close>: after \<open>Generate\<close> the code tests the variable \<open>exists\<close> again, not the error, so a failed call
  leaves the offset 0 of its error return. The outer option is a \<open>Generate\<close> that does not return.\<close>

definition addStream ::
  "('s, 'w) stream_api \<Rightarrow> iog_order \<Rightarrow> Stream \<Rightarrow> ('s, 'w) SimpleNetworkService \<Rightarrow>
   (go_error option \<times> ('s, 'w) SimpleNetworkService) option" where
  "addStream api ord strm sns =
     (if sns_streams sns (stream_name strm) \<noteq> None then Some (Some [ErrMsg ''this stream already exists''], sns)
      else case Generate ord strm (sns_Generator sns) of
             None \<Rightarrow> None
           | Some (r, gen) \<Rightarrow>
               (let identifierOffset = (case r of None \<Rightarrow> 0 | Some offset \<Rightarrow> offset);
                    sns1 = sns\<lparr>sns_Generator := gen\<rparr>;
                    (ok, w1) = sa_NewDetector api (stream_name strm) (sns_world sns1)
                in if \<not> ok then Some (Some [ErrMsg ''failed to create neighbor cache''], sns1\<lparr>sns_world := w1\<rparr>)
                   else case sa_New api strm (sns_nfqueueIndex sns1) identifierOffset w1 of
                          (None, w2) \<Rightarrow> Some (Some [ErrMsg ''failed to create stream''], sns1\<lparr>sns_world := w2\<rparr>)
                        | (Some s, w2) \<Rightarrow>
                            Some (None, sns1\<lparr>sns_world := sa_Start api s w2, sns_nfqueueIndex := sns_nfqueueIndex sns1 + 1,
                                            sns_streams := (sns_streams sns1)(stream_name strm \<mapsto> s)\<rparr>)))"

definition deleteStream ::
  "('s, 'w) stream_api \<Rightarrow> iog_order \<Rightarrow> string \<Rightarrow> ('s, 'w) SimpleNetworkService \<Rightarrow> go_error option \<times> ('s, 'w) SimpleNetworkService" where
  "deleteStream api ord streamName sns =
     (case sns_streams sns streamName of
        None \<Rightarrow> (None, sns)
      | Some s \<Rightarrow>
          (case sa_Delete api s (sns_world sns) of
             (e, w1) \<Rightarrow>
               (map_option (\<lambda>err. ErrMsg ''failed to delete stream'' # err) e,
                sns\<lparr>sns_Generator := iog_Release ord streamName (sns_Generator sns), sns_world := w1,
                    sns_streams := (sns_streams sns)(streamName := None)\<rparr>)))"

fun update_add ::
  "('s, 'w) stream_api \<Rightarrow> iog_order \<Rightarrow> Stream list \<Rightarrow> string set \<Rightarrow> go_error option \<Rightarrow> ('s, 'w) SimpleNetworkService \<Rightarrow>
   (string set \<times> go_error option \<times> ('s, 'w) SimpleNetworkService) option" where
  "update_add api ord [] remaining errFinal sns = Some (remaining, errFinal, sns)"
| "update_add api ord (s # ss) remaining errFinal sns =
     (if \<not> conduit_Equals (Some (sns_Conduit sns)) (stream_conduit s) then update_add api ord ss remaining errFinal sns
      else if sns_streams sns (stream_name s) = None then
        (case addStream api ord s sns of
           None \<Rightarrow> None
         | Some (e, sns') \<Rightarrow>
             update_add api ord ss remaining
               (case e of None \<Rightarrow> errFinal | Some err \<Rightarrow> AppendErr errFinal (ErrMsg ''addStream failed during update'' # err)) sns')
      else update_add api ord ss (remaining - {stream_name s}) errFinal sns)"

fun update_delete ::
  "('s, 'w) stream_api \<Rightarrow> iog_order \<Rightarrow> string list \<Rightarrow> go_error option \<Rightarrow> ('s, 'w) SimpleNetworkService \<Rightarrow>
   go_error option \<times> ('s, 'w) SimpleNetworkService" where
  "update_delete api ord [] errFinal sns = (errFinal, sns)"
| "update_delete api ord (n # ns) errFinal sns =
     (case deleteStream api ord n sns of
        (e, sns') \<Rightarrow>
          update_delete api ord ns
            (case e of None \<Rightarrow> errFinal | Some err \<Rightarrow> AppendErr errFinal (ErrMsg ''deleteStream failed during update'' # err)) sns')"

definition updateStreams ::
  "('s, 'w) stream_api \<Rightarrow> iog_order \<Rightarrow> (string set \<Rightarrow> string list) \<Rightarrow> Stream list \<Rightarrow> ('s, 'w) SimpleNetworkService \<Rightarrow>
   (go_error option \<times> ('s, 'w) SimpleNetworkService) option" where
  "updateStreams api ord it streams sns =
     (case update_add api ord streams (dom (sns_streams sns)) None sns of
        None \<Rightarrow> None
      | Some (remaining, err, sns1) \<Rightarrow>
          (case update_delete api ord (it remaining) err sns1 of
             (err2, sns2) \<Rightarrow> Some (err2, sns2\<lparr>sns_streamSvc := dom (sns_streams sns2) \<noteq> {}\<rparr>)))"

subsection \<open>Blocking\<close>

fun delete_streams :: "('s, 'w) stream_api \<Rightarrow> 's list \<Rightarrow> 'w \<Rightarrow> 'w" where
  "delete_streams api [] w = w"
| "delete_streams api (s # ss) w = delete_streams api ss (snd (sa_Delete api s w))"

definition evictStreams :: "('s, 'w) stream_api \<Rightarrow> (string set \<Rightarrow> string list) \<Rightarrow> ('s, 'w) SimpleNetworkService \<Rightarrow> ('s, 'w) SimpleNetworkService" where
  "evictStreams api it sns =
     sns\<lparr>sns_world := delete_streams api (map (\<lambda>n. the (sns_streams sns n)) (it (dom (sns_streams sns)))) (sns_world sns),
         sns_streams := Map.empty\<rparr>"

definition disableInterface :: "('s, 'w) stream_api \<Rightarrow> Iface \<Rightarrow> ('s, 'w) SimpleNetworkService \<Rightarrow> ('s, 'w) SimpleNetworkService" where
  "disableInterface api intf sns = sns\<lparr>sns_world := sa_LinkSetDown api (if_index intf) (sns_world sns)\<rparr>"

fun disableInterfaces :: "('s, 'w) stream_api \<Rightarrow> int list \<Rightarrow> ('s, 'w) SimpleNetworkService \<Rightarrow> ('s, 'w) SimpleNetworkService" where
  "disableInterfaces api [] sns = sns"
| "disableInterfaces api (key # keys) sns =
     (case sns_interfaces sns key of
        None \<Rightarrow> disableInterfaces api keys sns
      | Some intf \<Rightarrow>
          disableInterfaces api keys ((disableInterface api intf sns)\<lparr>sns_interfaces := (sns_interfaces sns)(key := None)\<rparr>))"

text \<open>\<open>startStreamWatcher\<close> starts the goroutine that calls \<open>updateStreams\<close> for each response; the flag
  \<open>sns_cancelStreamWatcher\<close> says that the cancel function of its context is set.\<close>

definition startStreamWatcher :: "('s, 'w) SimpleNetworkService \<Rightarrow> ('s, 'w) SimpleNetworkService" where
  "startStreamWatcher sns =
     (if sns_streamWatcherRunning sns then sns
      else sns\<lparr>sns_streamWatcherRunning := True, sns_cancelStreamWatcher := True\<rparr>)"

text \<open>An event of the service control channel, the body of the loop of \<open>Start\<close>.\<close>

definition serviceControl ::
  "('s, 'w) stream_api \<Rightarrow> (string set \<Rightarrow> string list) \<Rightarrow> (int set \<Rightarrow> int list) \<Rightarrow> bool \<Rightarrow> ('s, 'w) SimpleNetworkService \<Rightarrow> ('s, 'w) SimpleNetworkService" where
  "serviceControl api it iti allowService sns =
     (let sns1 = sns\<lparr>sns_Blocked := \<not> allowService\<rparr>
      in if sns_Blocked sns1 then
           (let sns2 = disableInterfaces api (iti (dom (sns_interfaces sns1))) (evictStreams api it sns1)
            in if sns_cancelStreamWatcher sns2 then sns2\<lparr>sns_streamWatcherRunning := False\<rparr> else sns2)
         else startStreamWatcher sns1)"

subsection \<open>Interfaces\<close>

fun same_subnet_loop :: "ip \<Rightarrow> string list \<Rightarrow> bool" where
  "same_subnet_loop ip1 [] = False"
| "same_subnet_loop ip1 (cidr2 # cidrs) =
     (case parse_cidr cidr2 of
        None \<Rightarrow> False
      | Some (_, net2) \<Rightarrow> if ip_equal ip1 (net_ip net2) then True else same_subnet_loop ip1 cidrs)"

definition sameSubnet :: "Iface \<Rightarrow> Iface \<Rightarrow> bool" where
  "sameSubnet if1 if2 =
     (case if_localPrefixes if1 of
        [] \<Rightarrow> False
      | cidr1 # _ \<Rightarrow> (case parse_cidr cidr1 of None \<Rightarrow> False | Some (_, net1) \<Rightarrow> same_subnet_loop (net_ip net1) (if_localPrefixes if2)))"

fun replace_interfaces :: "('s, 'w) stream_api \<Rightarrow> Iface \<Rightarrow> int list \<Rightarrow> ('s, 'w) SimpleNetworkService \<Rightarrow> ('s, 'w) SimpleNetworkService" where
  "replace_interfaces api intf [] sns = sns"
| "replace_interfaces api intf (key # keys) sns =
     (case sns_interfaces sns key of
        None \<Rightarrow> replace_interfaces api intf keys sns
      | Some oldif \<Rightarrow>
          if key = if_index intf then replace_interfaces api intf keys sns
          else if sameSubnet intf oldif then
            replace_interfaces api intf keys
              ((disableInterface api oldif sns)\<lparr>sns_interfaces := (sns_interfaces sns)(if_index oldif := None)\<rparr>)
          else replace_interfaces api intf keys sns)"

definition sns_InterfaceCreated ::
  "('s, 'w) stream_api \<Rightarrow> (int set \<Rightarrow> int list) \<Rightarrow> Iface \<Rightarrow> ('s, 'w) SimpleNetworkService \<Rightarrow> ('s, 'w) SimpleNetworkService" where
  "sns_InterfaceCreated api iti intf sns =
     (if length (if_localPrefixes intf) < 1 then sns
      else if sns_Blocked sns then disableInterface api intf sns
      else let sns1 = replace_interfaces api intf (iti (dom (sns_interfaces sns))) sns
           in sns1\<lparr>sns_interfaces := (sns_interfaces sns1)(if_index intf \<mapsto> intf)\<rparr>)"

definition sns_InterfaceDeleted :: "Iface \<Rightarrow> ('s, 'w) SimpleNetworkService \<Rightarrow> ('s, 'w) SimpleNetworkService" where
  "sns_InterfaceDeleted intf sns = sns\<lparr>sns_interfaces := (sns_interfaces sns)(if_index intf := None)\<rparr>"

subsection \<open>Frontend\<close>

text \<open>The handlers of a dispatcher, each as the sequence of events its channel has received: the
  channels are unbuffered, so \<open>Dispatch\<close> returns when every handler has taken the event.\<close>

type_synonym serviceControlDispatcher = "bool list list"

definition Dispatch :: "bool \<Rightarrow> serviceControlDispatcher \<Rightarrow> serviceControlDispatcher" where
  "Dispatch event handlers = map (\<lambda>h. h @ [event]) handlers"

definition AddService :: "serviceControlDispatcher \<Rightarrow> serviceControlDispatcher \<Rightarrow> serviceControlDispatcher" where
  "AddService hs handlers = handlers @ hs"

text \<open>The endpoint of the load balancer, registered with NSM: each call returns whether it succeeded.\<close>

record 'w endpoint_api =
  ep_Register :: "'w \<Rightarrow> bool \<times> 'w"
  ep_Unregister :: "'w \<Rightarrow> bool \<times> 'w"

record 'w FrontendNetworkService =
  fns_myHostName :: string
  fns_dispatcher :: "serviceControlDispatcher option"
  fns_feAnnounced :: bool
  fns_egressSvc :: bool
  fns_world :: 'w

definition NewFrontendNetworkService :: "string \<Rightarrow> serviceControlDispatcher option \<Rightarrow> 'w \<Rightarrow> 'w FrontendNetworkService" where
  "NewFrontendNetworkService host scd w =
     \<lparr>fns_myHostName = host, fns_dispatcher = scd, fns_feAnnounced = False, fns_egressSvc = False, fns_world = w\<rparr>"

fun getLocal :: "string \<Rightarrow> Target list \<Rightarrow> Target option" where
  "getLocal host [] = None"
| "getLocal host (t # ts) =
     (case target_context t IdentifierKey of
        None \<Rightarrow> getLocal host ts
      | Some identifierStr \<Rightarrow> if identifierStr = host then Some t else getLocal host ts)"

text \<open>One response in the loop of \<open>recv\<close>.\<close>

definition fns_recv :: "'w endpoint_api \<Rightarrow> Target list \<Rightarrow> 'w FrontendNetworkService \<Rightarrow> 'w FrontendNetworkService" where
  "fns_recv ep targets fns =
     (let currentState = (getLocal (fns_myHostName fns) targets \<noteq> None)
      in if currentState = fns_feAnnounced fns then fns
         else let fns1 = fns\<lparr>fns_feAnnounced := currentState,
                             fns_dispatcher := map_option (Dispatch currentState) (fns_dispatcher fns)\<rparr>
              in if currentState then
                   (case ep_Register ep (fns_world fns1) of
                      (ok, w) \<Rightarrow> if ok then fns1\<lparr>fns_world := w, fns_egressSvc := True\<rparr> else fns1\<lparr>fns_world := w\<rparr>)
                 else fns1\<lparr>fns_egressSvc := False, fns_world := snd (ep_Unregister ep (fns_world fns1))\<rparr>)"

definition fns_recvs :: "'w endpoint_api \<Rightarrow> Target list list \<Rightarrow> 'w FrontendNetworkService \<Rightarrow> 'w FrontendNetworkService" where
  "fns_recvs ep rs fns = foldl (\<lambda>f ts. fns_recv ep ts f) fns rs"

subsection \<open>The running service\<close>

text \<open>The goroutines of the service interleave: responses of the stream watcher, events of the
  service control channel and notifications of the interface monitor, each of them a step.\<close>

inductive sns_reach ::
  "('s, 'w) stream_api \<Rightarrow> iog_order \<Rightarrow> (string set \<Rightarrow> string list) \<Rightarrow> (int set \<Rightarrow> int list) \<Rightarrow> ('s, 'w) SimpleNetworkService \<Rightarrow> bool"
  for api ord it iti where
  new: "sns_reach api ord it iti (newSimpleNetworkService conduit start w)"
| response: "sns_reach api ord it iti sns \<Longrightarrow> updateStreams api ord it streams sns = Some (e, sns') \<Longrightarrow> sns_reach api ord it iti sns'"
| control: "sns_reach api ord it iti sns \<Longrightarrow> sns_reach api ord it iti (serviceControl api it iti allow sns)"
| created: "sns_reach api ord it iti sns \<Longrightarrow> sns_reach api ord it iti (sns_InterfaceCreated api iti intf sns)"
| deleted: "sns_reach api ord it iti sns \<Longrightarrow> sns_reach api ord it iti (sns_InterfaceDeleted intf sns)"

text \<open>A loop over a Go map visits each key once, in some order.\<close>

definition ranges_over :: "('k set \<Rightarrow> 'k list) \<Rightarrow> bool" where
  "ranges_over it \<longleftrightarrow> (\<forall>S. finite S \<longrightarrow> set (it S) = S \<and> distinct (it S))"

definition keyed :: "(int \<rightharpoonup> Iface) \<Rightarrow> bool" where
  "keyed m \<longleftrightarrow> (\<forall>k i. m k = Some i \<longrightarrow> if_index i = k)"

definition sns_inv :: "('s, 'w) SimpleNetworkService \<Rightarrow> bool" where
  "sns_inv sns \<longleftrightarrow> finite (dom (sns_streams sns)) \<and> finite (dom (sns_interfaces sns)) \<and>
     keyed (sns_interfaces sns) \<and>
     (sns_streamWatcherRunning sns \<longrightarrow> sns_cancelStreamWatcher sns) \<and>
     (sns_streamWatcherRunning sns \<longleftrightarrow> \<not> sns_Blocked sns) \<and>
     (sns_Blocked sns \<longrightarrow> sns_interfaces sns = Map.empty)"

text \<open>The streams the response names for this conduit.\<close>

definition listed_names :: "Conduit \<Rightarrow> Stream list \<Rightarrow> string set" where
  "listed_names c streams = stream_name ` {s \<in> set streams. conduit_Equals (Some c) (stream_conduit s)}"

text \<open>The events of one handler: they start with an allowance and alternate.\<close>

definition alternates :: "bool list \<Rightarrow> bool" where
  "alternates es \<longleftrightarrow> (\<forall>i < length es. es ! i = even i)"

subsection \<open>Examples\<close>

text \<open>A world that only remembers what each stream was made with.\<close>

definition ex_api :: "(Stream \<times> int \<times> int, unit) stream_api" where
  "ex_api = \<lparr>sa_New = (\<lambda>s q i w. (Some (s, q, i), w)), sa_Delete = (\<lambda>s w. (None, w)), sa_NewDetector = (\<lambda>n w. (True, w)),
     sa_Start = (\<lambda>s w. w), sa_LinkSetDown = (\<lambda>i w. w)\<rparr>"

definition ex_conduit :: Conduit where
  "ex_conduit = \<lparr>conduit_name = ''c'', conduit_trench = Some \<lparr>trench_name = ''t''\<rparr>, conduit_portNats = []\<rparr>"

definition ex_stream :: "string \<Rightarrow> nat \<Rightarrow> Stream" where
  "ex_stream n m = \<lparr>stream_name = n, stream_conduit = Some ex_conduit, stream_maxTargets = m\<rparr>"

abbreviation ex_ord :: iog_order where
  "ex_ord \<equiv> \<lambda>_ xs. xs"

abbreviation ex_new :: "int \<Rightarrow> (Stream \<times> int \<times> int, unit) SimpleNetworkService" where
  "ex_new start \<equiv> newSimpleNetworkService ex_conduit start ()"

text \<open>The service with one stream.\<close>

definition ex_one :: "(Stream \<times> int \<times> int, unit) SimpleNetworkService" where
  "ex_one = (ex_new 5000)\<lparr>sns_Generator := \<lparr>iog_Start = 5000, iog_Streams = [(ex_stream ''a'' 100, 5000)]\<rparr>, sns_nfqueueIndex := 2,
     sns_streams := [''a'' \<mapsto> (ex_stream ''a'' 100, 1, 5000)], sns_streamSvc := True\<rparr>"

text \<open>The service after a stream took the last free range.\<close>

definition ex_full :: "(Stream \<times> int \<times> int, unit) SimpleNetworkService" where
  "ex_full = (ex_new 9223372036854775650)\<lparr>sns_Generator := \<lparr>iog_Start = 9223372036854775650, iog_Streams = [(ex_stream ''a'' 100, 9223372036854775650)]\<rparr>,
     sns_nfqueueIndex := 2, sns_streams := [''a'' \<mapsto> (ex_stream ''a'' 100, 1, 9223372036854775650)], sns_streamSvc := True\<rparr>"

section \<open>Lemmas on the streams\<close>

lemma listed_names_simps:
  "listed_names c [] = {}"
  "listed_names c (s # ss) =
     (if conduit_Equals (Some c) (stream_conduit s) then insert (stream_name s) (listed_names c ss) else listed_names c ss)"
  by (auto simp: listed_names_def)

lemma AppendErr_not_None: "AppendErr e err \<noteq> None"
  by (cases e) (simp_all add: AppendErr_def)

lemma addStream_spec:
  assumes "addStream api ord s sns = Some (e, sns')" "sns_streams sns (stream_name s) = None"
  shows "sns_Conduit sns' = sns_Conduit sns \<and>
         (if e = None then \<exists>st. sns_streams sns' = (sns_streams sns)(stream_name s \<mapsto> st) else sns_streams sns' = sns_streams sns)"
  using assms by (auto simp: addStream_def Let_def split: option.splits prod.splits if_splits)

lemma deleteStream_spec:
  assumes "deleteStream api ord n sns = (e, sns')"
  shows "sns_Conduit sns' = sns_Conduit sns \<and> sns_streams sns' = (sns_streams sns)(n := None)"
  using assms by (auto simp: deleteStream_def split: option.splits prod.splits)

lemma update_add_spec:
  assumes "update_add api ord ss rem err sns = Some (rem', err', sns')" "rem \<subseteq> dom (sns_streams sns)"
  shows "sns_Conduit sns' = sns_Conduit sns \<and> (err' = None \<longrightarrow> err = None) \<and>
         sns_streams sns \<subseteq>\<^sub>m sns_streams sns' \<and>
         dom (sns_streams sns') \<subseteq> dom (sns_streams sns) \<union> listed_names (sns_Conduit sns) ss \<and>
         (err' = None \<longrightarrow> listed_names (sns_Conduit sns) ss \<subseteq> dom (sns_streams sns')) \<and>
         rem' \<subseteq> rem \<and> rem \<inter> listed_names (sns_Conduit sns) ss \<inter> rem' = {} \<and> rem - listed_names (sns_Conduit sns) ss \<subseteq> rem'"
  using assms
proof (induction api ord ss rem err sns rule: update_add.induct)
  case (1 api ord rem err sns)
  then show ?case by (simp add: listed_names_simps)
next
  case (2 api ord s ss rem err sns)
  show ?case
  proof (cases "conduit_Equals (Some (sns_Conduit sns)) (stream_conduit s)")
    case False
    with 2 show ?thesis by (simp add: listed_names_simps)
  next
    case here: True
    show ?thesis
    proof (cases "sns_streams sns (stream_name s)")
      case (Some st)
      have "rem - {stream_name s} \<subseteq> dom (sns_streams sns)" using 2(5) by blast
      from 2(3)[OF _ _ _ this] here Some 2(4) show ?thesis
        by (auto simp: listed_names_simps map_le_def dom_def)
    next
      case None
      then obtain e sns1 where a: "addStream api ord s sns = Some (e, sns1)"
        using 2(4) here by (auto split: option.splits)
      note sp = addStream_spec[OF a None]
      let ?err = "case e of None \<Rightarrow> err | Some er \<Rightarrow> AppendErr err (ErrMsg ''addStream failed during update'' # er)"
      have le: "sns_streams sns \<subseteq>\<^sub>m sns_streams sns1" and c: "sns_Conduit sns1 = sns_Conduit sns"
        using sp None by (auto simp: map_le_def split: if_splits)
      have d: "dom (sns_streams sns1) \<subseteq> insert (stream_name s) (dom (sns_streams sns))"
        using sp by (auto split: if_splits)
      have ok: "?err = None \<Longrightarrow> err = None \<and> stream_name s \<in> dom (sns_streams sns1)"
        using sp by (auto simp: AppendErr_not_None split: option.splits if_splits)
      have rem: "rem \<subseteq> dom (sns_streams sns1)" "stream_name s \<notin> rem"
        using 2(5) map_le_implies_dom_le[OF le] None by auto
      have run: "update_add api ord ss rem ?err sns1 = Some (rem', err', sns')"
        using 2(4) here None a by simp
      note ih = 2(2)[OF _ None a refl run rem(1)]
      show ?thesis using ih here le d ok rem c map_le_trans[OF le] map_le_implies_dom_le
        apply (simp add: listed_names_simps)
        by (intro conjI impI; blast)
    qed
  qed
qed

lemma update_delete_spec:
  assumes "update_delete api ord ns err sns = (err', sns')"
  shows "sns_Conduit sns' = sns_Conduit sns \<and> (err' = None \<longrightarrow> err = None) \<and> sns_streams sns' = sns_streams sns |` (- set ns)"
  using assms
proof (induction api ord ns err sns rule: update_delete.induct)
  case (1 api ord err sns)
  then show ?case by simp
next
  case (2 api ord n ns err sns)
  obtain e sns1 where d: "deleteStream api ord n sns = (e, sns1)" by fastforce
  let ?err = "case e of None \<Rightarrow> err | Some er \<Rightarrow> AppendErr err (ErrMsg ''deleteStream failed during update'' # er)"
  have "update_delete api ord ns ?err sns1 = (err', sns')" using 2(2) d by simp
  note ih = 2(1)[OF d[symmetric] this]
  note sp = deleteStream_spec[OF d]
  have "sns_streams sns1 |` (- set ns) = sns_streams sns |` (- set (n # ns))"
    unfolding conjunct2[OF sp] by (rule ext) (simp add: restrict_map_def)
  moreover have "?err = None \<Longrightarrow> err = None" by (cases e) (simp_all add: AppendErr_not_None)
  ultimately show ?case using ih sp by metis
qed

lemma update_streams_parts:
  assumes "updateStreams api ord it streams sns = Some (e, sns')"
  obtains rem err sns1 sns2 where
    "update_add api ord streams (dom (sns_streams sns)) None sns = Some (rem, err, sns1)"
    "update_delete api ord (it rem) err sns1 = (e, sns2)"
    "sns' = sns2\<lparr>sns_streamSvc := dom (sns_streams sns2) \<noteq> {}\<rparr>"
  using assms by (auto simp: updateStreams_def split: option.splits prod.splits)

lemma diff_listed: "A \<subseteq> B \<union> C \<Longrightarrow> A - (B - C) \<subseteq> C"
  by blast

lemma listed_diff: "C \<subseteq> A \<Longrightarrow> C \<subseteq> A - (B - C)"
  by blast

lemma update_streams_spec:
  assumes "updateStreams api ord it streams sns = Some (e, sns')" "ranges_over it" "finite (dom (sns_streams sns))"
  defines "L \<equiv> listed_names (sns_Conduit sns) streams"
  shows "sns_Conduit sns' = sns_Conduit sns \<and> sns_streamSvc sns' = (dom (sns_streams sns') \<noteq> {}) \<and>
         dom (sns_streams sns') \<subseteq> L \<and> (e = None \<longrightarrow> dom (sns_streams sns') = L) \<and>
         (\<forall>n \<in> dom (sns_streams sns) \<inter> L. sns_streams sns' n = sns_streams sns n)"
proof -
  from update_streams_parts[OF assms(1)] obtain rem err sns1 sns2 where
    a: "update_add api ord streams (dom (sns_streams sns)) None sns = Some (rem, err, sns1)" and
    d: "update_delete api ord (it rem) err sns1 = (e, sns2)" and
    s': "sns' = sns2\<lparr>sns_streamSvc := dom (sns_streams sns2) \<noteq> {}\<rparr>" by blast
  note A = update_add_spec[OF a subset_refl, folded L_def]
  note D = update_delete_spec[OF d]
  have rem: "rem = dom (sns_streams sns) - L" using A by blast
  then have "set (it rem) = rem" using assms(2,3) by (simp add: ranges_over_def)
  then have st: "sns_streams sns' = sns_streams sns1 |` (- rem)" using D s' by simp
  have dm: "dom (sns_streams sns') = dom (sns_streams sns1) - rem" using st by auto
  have "sns_streams sns' n = sns_streams sns n" if "n \<in> dom (sns_streams sns) \<inter> L" for n
    using that st rem A by (auto simp: map_le_def)
  moreover have "dom (sns_streams sns') \<subseteq> L" unfolding dm rem using A by (intro diff_listed) simp
  moreover have "e = None \<Longrightarrow> L \<subseteq> dom (sns_streams sns')" unfolding dm rem using A D by (intro listed_diff) simp
  ultimately show ?thesis using A D s' by auto
qed

section \<open>Lemmas on the interfaces\<close>

lemma disableInterface_frame [simp]:
  "sns_interfaces (disableInterface api i sns) = sns_interfaces sns"
  "sns_streams (disableInterface api i sns) = sns_streams sns"
  "sns_Blocked (disableInterface api i sns) = sns_Blocked sns"
  "sns_streamWatcherRunning (disableInterface api i sns) = sns_streamWatcherRunning sns"
  "sns_cancelStreamWatcher (disableInterface api i sns) = sns_cancelStreamWatcher sns"
  by (simp_all add: disableInterface_def)

lemma disableInterfaces_frame [simp]:
  "sns_streams (disableInterfaces api ks sns) = sns_streams sns"
  "sns_Blocked (disableInterfaces api ks sns) = sns_Blocked sns"
  "sns_streamWatcherRunning (disableInterfaces api ks sns) = sns_streamWatcherRunning sns"
  "sns_cancelStreamWatcher (disableInterfaces api ks sns) = sns_cancelStreamWatcher sns"
  by (induction api ks sns rule: disableInterfaces.induct) (simp_all split: option.split)

lemma disableInterfaces_interfaces:
  "sns_interfaces (disableInterfaces api ks sns) k = (if k \<in> set ks then None else sns_interfaces sns k)"
  by (induction api ks sns rule: disableInterfaces.induct) (auto split: option.split)

lemma replace_interfaces_frame [simp]:
  "sns_streams (replace_interfaces api intf ks sns) = sns_streams sns"
  "sns_Blocked (replace_interfaces api intf ks sns) = sns_Blocked sns"
  "sns_streamWatcherRunning (replace_interfaces api intf ks sns) = sns_streamWatcherRunning sns"
  "sns_cancelStreamWatcher (replace_interfaces api intf ks sns) = sns_cancelStreamWatcher sns"
  by (induction api intf ks sns rule: replace_interfaces.induct) (simp_all split: option.split)

lemma replace_interfaces_sub:
  "sns_interfaces (replace_interfaces api intf ks sns) k = Some i \<Longrightarrow> sns_interfaces sns k = Some i"
  by (induction api intf ks sns rule: replace_interfaces.induct) (auto split: option.splits if_splits)

lemma keyed_delete: "keyed m \<Longrightarrow> keyed (m(k := None))"
  by (simp add: keyed_def)

lemma keyed_index: "keyed m \<Longrightarrow> m k = Some i \<Longrightarrow> if_index i = k"
  by (simp add: keyed_def)

lemma replace_interfaces_eq:
  assumes "keyed (sns_interfaces sns)"
  shows "sns_interfaces (replace_interfaces api intf ks sns) k =
    (case sns_interfaces sns k of
       None \<Rightarrow> None
     | Some i \<Rightarrow> if k \<in> set ks \<and> k \<noteq> if_index intf \<and> sameSubnet intf i then None else Some i)"
  using assms
proof (induction api intf ks sns rule: replace_interfaces.induct)
  case (1 api intf sns)
  show ?case by (simp split: option.split)
next
  case (2 api intf key keys sns)
  show ?case
  proof (cases "sns_interfaces sns key")
    case None
    from 2(1) [OF None 2(5)] None show ?thesis by (simp split: option.split)
  next
    case (Some old)
    have idx: "if_index old = key" by (rule keyed_index [OF 2(5) Some])
    consider "key = if_index intf" | "key \<noteq> if_index intf" "sameSubnet intf old" | "key \<noteq> if_index intf" "\<not> sameSubnet intf old"
      by blast
    then show ?thesis
    proof cases
      case 1
      from 2(2) [OF Some 1 2(5)] 1 Some show ?thesis by (auto split: option.split)
    next
      case 2
      let ?sns = "(disableInterface api old sns)\<lparr>sns_interfaces := (sns_interfaces sns)(if_index old := None)\<rparr>"
      have m: "sns_interfaces ?sns = (sns_interfaces sns)(if_index old := None)" by simp
      have "keyed (sns_interfaces ?sns)" unfolding m by (rule keyed_delete [OF "2.prems"])
      note ih = "2.IH"(3) [OF Some 2(1,2) this, unfolded m]
      have "replace_interfaces api intf (key # keys) sns = replace_interfaces api intf keys ?sns" using Some 2 by simp
      then show ?thesis using ih 2 Some idx by (cases "k = key") (simp_all split: option.split)
    next
      case 3
      then show ?thesis
        using "2.IH"(4) [OF Some 3(1,2) "2.prems"] Some by (auto split: option.split)
    qed
  qed
qed

section \<open>Reachable states\<close>

lemma addStream_frame:
  assumes "addStream api ord s sns = Some (e, sns')"
  shows "sns_interfaces sns' = sns_interfaces sns \<and> sns_Blocked sns' = sns_Blocked sns \<and>
         sns_streamWatcherRunning sns' = sns_streamWatcherRunning sns \<and> sns_cancelStreamWatcher sns' = sns_cancelStreamWatcher sns"
  using assms by (auto simp: addStream_def Let_def split: option.splits prod.splits if_splits)

lemma deleteStream_frame:
  assumes "deleteStream api ord n sns = (e, sns')"
  shows "sns_interfaces sns' = sns_interfaces sns \<and> sns_Blocked sns' = sns_Blocked sns \<and>
         sns_streamWatcherRunning sns' = sns_streamWatcherRunning sns \<and> sns_cancelStreamWatcher sns' = sns_cancelStreamWatcher sns"
  using assms by (auto simp: deleteStream_def split: option.splits prod.splits)

lemma update_add_frame:
  assumes "update_add api ord ss rem err sns = Some (rem', err', sns')"
  shows "sns_interfaces sns' = sns_interfaces sns \<and> sns_Blocked sns' = sns_Blocked sns \<and>
         sns_streamWatcherRunning sns' = sns_streamWatcherRunning sns \<and> sns_cancelStreamWatcher sns' = sns_cancelStreamWatcher sns"
  using assms
proof (induction ss arbitrary: rem err sns)
  case (Cons s ss)
  show ?case
  proof (cases "conduit_Equals (Some (sns_Conduit sns)) (stream_conduit s) \<and> sns_streams sns (stream_name s) = None")
    case True
    with Cons.prems obtain e sns1 where a: "addStream api ord s sns = Some (e, sns1)" by (auto split: option.splits)
    with True Cons.prems have "\<exists>err1. update_add api ord ss rem err1 sns1 = Some (rem', err', sns')" by auto
    then obtain err1 where "update_add api ord ss rem err1 sns1 = Some (rem', err', sns')" ..
    from Cons.IH [OF this] addStream_frame [OF a] show ?thesis by simp
  next
    case False
    with Cons.prems have "\<exists>rem1. update_add api ord ss rem1 err sns = Some (rem', err', sns')" by (auto split: if_splits)
    then show ?thesis using Cons.IH by blast
  qed
qed simp

lemma update_delete_frame:
  assumes "update_delete api ord ns err sns = (err', sns')"
  shows "sns_interfaces sns' = sns_interfaces sns \<and> sns_Blocked sns' = sns_Blocked sns \<and>
         sns_streamWatcherRunning sns' = sns_streamWatcherRunning sns \<and> sns_cancelStreamWatcher sns' = sns_cancelStreamWatcher sns"
  using assms
proof (induction ns arbitrary: err sns)
  case (Cons n ns)
  obtain e sns1 where d: "deleteStream api ord n sns = (e, sns1)" by fastforce
  with Cons.prems have "\<exists>err1. update_delete api ord ns err1 sns1 = (err', sns')" by auto
  then obtain err1 where "update_delete api ord ns err1 sns1 = (err', sns')" ..
  from Cons.IH [OF this] deleteStream_frame [OF d] show ?case by simp
qed simp

lemma updateStreams_frame:
  assumes "updateStreams api ord it streams sns = Some (e, sns')"
  shows "sns_interfaces sns' = sns_interfaces sns \<and> sns_Blocked sns' = sns_Blocked sns \<and>
         sns_streamWatcherRunning sns' = sns_streamWatcherRunning sns \<and> sns_cancelStreamWatcher sns' = sns_cancelStreamWatcher sns"
  by (rule update_streams_parts [OF assms]) (auto dest!: update_add_frame update_delete_frame)

lemma evictStreams_frame [simp]:
  "sns_interfaces (evictStreams api it sns) = sns_interfaces sns"
  "sns_streams (evictStreams api it sns) = Map.empty"
  "sns_Blocked (evictStreams api it sns) = sns_Blocked sns"
  "sns_streamWatcherRunning (evictStreams api it sns) = sns_streamWatcherRunning sns"
  "sns_cancelStreamWatcher (evictStreams api it sns) = sns_cancelStreamWatcher sns"
  by (simp_all add: evictStreams_def)

lemma serviceControl_block:
  fixes api :: "('s, 'w) stream_api" and it
  assumes "ranges_over iti" "finite (dom (sns_interfaces sns))" "sns_streamWatcherRunning sns \<longrightarrow> sns_cancelStreamWatcher sns"
  defines "sns' \<equiv> serviceControl api it iti False sns"
  shows "sns_streams sns' = Map.empty" "sns_interfaces sns' = Map.empty" "sns_Blocked sns'"
    "\<not> sns_streamWatcherRunning sns'" "sns_cancelStreamWatcher sns' = sns_cancelStreamWatcher sns"
proof -
  have "set (iti (dom (sns_interfaces sns))) = dom (sns_interfaces sns)" using assms(1,2) by (simp add: ranges_over_def)
  then show "sns_interfaces sns' = Map.empty"
    by (auto simp: sns'_def serviceControl_def Let_def disableInterfaces_interfaces fun_eq_iff)
qed (use assms(3) in \<open>auto simp: sns'_def serviceControl_def Let_def\<close>)

lemma serviceControl_allow [simp]:
  "sns_streams (serviceControl api it iti True sns) = sns_streams sns"
  "sns_interfaces (serviceControl api it iti True sns) = sns_interfaces sns"
  "\<not> sns_Blocked (serviceControl api it iti True sns)"
  "sns_streamWatcherRunning (serviceControl api it iti True sns)"
  "sns_cancelStreamWatcher (serviceControl api it iti True sns) = (\<not> sns_streamWatcherRunning sns \<or> sns_cancelStreamWatcher sns)"
  by (simp_all add: serviceControl_def startStreamWatcher_def Let_def)

lemma InterfaceCreated_frame [simp]:
  "sns_streams (sns_InterfaceCreated api iti intf sns) = sns_streams sns"
  "sns_Blocked (sns_InterfaceCreated api iti intf sns) = sns_Blocked sns"
  "sns_streamWatcherRunning (sns_InterfaceCreated api iti intf sns) = sns_streamWatcherRunning sns"
  "sns_cancelStreamWatcher (sns_InterfaceCreated api iti intf sns) = sns_cancelStreamWatcher sns"
  by (simp_all add: sns_InterfaceCreated_def Let_def)

lemma InterfaceCreated_interfaces:
  assumes "keyed (sns_interfaces sns)"
  shows "sns_interfaces (sns_InterfaceCreated api iti intf sns) k =
    (if if_localPrefixes intf = [] \<or> sns_Blocked sns then sns_interfaces sns k
     else if k = if_index intf then Some intf
     else case sns_interfaces sns k of
            None \<Rightarrow> None
          | Some i \<Rightarrow> if k \<in> set (iti (dom (sns_interfaces sns))) \<and> sameSubnet intf i then None else Some i)"
  using replace_interfaces_eq [OF assms, of api intf "iti (dom (sns_interfaces sns))" k]
  by (cases "if_localPrefixes intf") (auto simp: sns_InterfaceCreated_def Let_def split: option.split)

lemma InterfaceCreated_inv:
  assumes "sns_inv sns"
  shows "sns_inv (sns_InterfaceCreated api iti intf sns)"
proof -
  have k: "keyed (sns_interfaces sns)" using assms by (simp add: sns_inv_def)
  note i = InterfaceCreated_interfaces [OF k, of api iti intf]
  have "dom (sns_interfaces (sns_InterfaceCreated api iti intf sns)) \<subseteq> insert (if_index intf) (dom (sns_interfaces sns))"
    by (auto simp: i dom_def split: if_splits option.splits)
  then have f: "finite (dom (sns_interfaces (sns_InterfaceCreated api iti intf sns)))"
    by (rule finite_subset) (use assms in \<open>simp add: sns_inv_def\<close>)
  have k': "keyed (sns_interfaces (sns_InterfaceCreated api iti intf sns))"
    using k by (auto simp: keyed_def i split: if_splits option.splits)
  have "sns_Blocked sns \<Longrightarrow> sns_interfaces (sns_InterfaceCreated api iti intf sns) = Map.empty"
    using assms by (auto simp: fun_eq_iff i sns_inv_def)
  with f k' assms show ?thesis by (simp add: sns_inv_def)
qed

lemma sns_reach_inv:
  assumes "sns_reach api ord it iti sns" "ranges_over it" "ranges_over iti"
  shows "sns_inv sns"
  using assms(1)
proof induction
  case (new conduit start w)
  show ?case by (simp add: sns_inv_def newSimpleNetworkService_def keyed_def)
next
  case (response sns streams e sns')
  then have f: "finite (dom (sns_streams sns))" by (simp add: sns_inv_def)
  have "finite (listed_names (sns_Conduit sns) streams)" by (simp add: listed_names_def)
  then have "finite (dom (sns_streams sns'))"
    using update_streams_spec [OF response(2) assms(2) f] by (blast intro: finite_subset)
  with response(3) updateStreams_frame [OF response(2)] show ?case by (simp add: sns_inv_def)
next
  case (control sns allow)
  note b = serviceControl_block [OF assms(3), of sns api it]
  show ?case
  proof (cases allow)
    case True
    with control show ?thesis by (auto simp: sns_inv_def)
  next
    case False
    with control b show ?thesis by (simp add: sns_inv_def keyed_def)
  qed
next
  case (created sns intf)
  then show ?case by (simp add: InterfaceCreated_inv)
next
  case (deleted sns intf)
  then show ?case by (simp add: sns_inv_def sns_InterfaceDeleted_def keyed_delete)
qed

section \<open>Frontend\<close>

lemma Dispatch_index: "i < length hs \<Longrightarrow> Dispatch event hs ! i = hs ! i @ [event]"
  by (simp add: Dispatch_def)

lemma fns_recvs_snoc: "fns_recvs ep (rs @ [ts]) fns = fns_recv ep ts (fns_recvs ep rs fns)"
  by (simp add: fns_recvs_def)

lemma fns_recv_host [simp]: "fns_myHostName (fns_recv ep ts fns) = fns_myHostName fns"
  by (auto simp: fns_recv_def Let_def split: prod.split)

lemma fns_recv_state [simp]: "fns_feAnnounced (fns_recv ep ts fns) = (getLocal (fns_myHostName fns) ts \<noteq> None)"
  by (auto simp: fns_recv_def Let_def split: prod.split)

lemma fns_recv_dispatch:
  "fns_dispatcher (fns_recv ep ts fns) =
     (let cur = (getLocal (fns_myHostName fns) ts \<noteq> None)
      in if cur = fns_feAnnounced fns then fns_dispatcher fns else map_option (Dispatch cur) (fns_dispatcher fns))"
  by (auto simp: fns_recv_def Let_def split: prod.split)

lemma fns_recvs_host [simp]: "fns_myHostName (fns_recvs ep rs fns) = fns_myHostName fns"
  by (induction rs rule: rev_induct) (simp_all add: fns_recvs_snoc, simp add: fns_recvs_def)

lemma getLocal_Some_iff: "getLocal host ts \<noteq> None \<longleftrightarrow> (\<exists>t \<in> set ts. target_context t IdentifierKey = Some host)"
  by (induction ts) (auto split: option.split)

lemma alternates_snoc: "alternates es \<Longrightarrow> e = even (length es) \<Longrightarrow> alternates (es @ [e])"
  by (auto simp: alternates_def nth_append less_Suc_eq)

lemma fns_recvs_events:
  "\<exists>hs. fns_dispatcher (fns_recvs ep rs (NewFrontendNetworkService host (Some (replicate n [])) w)) = Some hs \<and> length hs = n \<and>
     (\<forall>h \<in> set hs. alternates h \<and> fns_feAnnounced (fns_recvs ep rs (NewFrontendNetworkService host (Some (replicate n [])) w)) = odd (length h))"
proof (induction rs rule: rev_induct)
  case Nil
  show ?case by (auto simp: fns_recvs_def NewFrontendNetworkService_def alternates_def)
next
  case (snoc ts rs)
  let ?f = "fns_recvs ep rs (NewFrontendNetworkService host (Some (replicate n [])) w)"
  from snoc obtain hs where hs: "fns_dispatcher ?f = Some hs" "length hs = n"
      "\<And>h. h \<in> set hs \<Longrightarrow> alternates h \<and> fns_feAnnounced ?f = odd (length h)" by blast
  define cur where "cur = (getLocal (fns_myHostName ?f) ts \<noteq> None)"
  have st: "fns_feAnnounced (fns_recv ep ts ?f) = cur" unfolding cur_def by (rule fns_recv_state)
  show ?case
  proof (cases "cur = fns_feAnnounced ?f")
    case True
    then have "fns_dispatcher (fns_recv ep ts ?f) = Some hs" using hs(1) by (simp add: fns_recv_dispatch cur_def)
    then show ?thesis unfolding fns_recvs_snoc st using True hs(2,3) by blast
  next
    case False
    then have "fns_dispatcher (fns_recv ep ts ?f) = Some (Dispatch cur hs)"
      using hs(1) unfolding fns_recv_dispatch cur_def [symmetric] Let_def by simp
    moreover have "\<And>h. h \<in> set hs \<Longrightarrow> alternates (h @ [cur]) \<and> cur = odd (length (h @ [cur]))"
      using hs(3) False alternates_snoc by auto
    then have "\<forall>h \<in> set (Dispatch cur hs). alternates h \<and> cur = odd (length h)" unfolding Dispatch_def by fastforce
    moreover have "length (Dispatch cur hs) = n" using hs(2) by (simp add: Dispatch_def)
    ultimately show ?thesis unfolding fns_recvs_snoc st by blast
  qed
qed

section \<open>Evaluation of the examples\<close>

lemma ranges_over_sorted: "ranges_over (sorted_list_of_set :: 'a :: linorder set \<Rightarrow> 'a list)"
  by (simp add: ranges_over_def)

lemmas generate_eval = Generate_def iog_get_def iog_search.simps wrap_int_def max_int_def ranges_overlap_def NewIdentifierOffsetGenerator_def

lemmas service_eval = updateStreams_def addStream_def ex_api_def ex_stream_def ex_conduit_def newSimpleNetworkService_def

lemma ex_update_one: "updateStreams ex_api ex_ord sorted_list_of_set [ex_stream ''a'' 100] (ex_new 5000) = Some (None, ex_one)"
  by (simp add: service_eval generate_eval ex_one_def)

lemma ex_new_reach: "sns_reach ex_api ex_ord sorted_list_of_set sorted_list_of_set (ex_new start)"
  by (rule sns_reach.new)

section \<open>Properties\<close>

text \<open>
  C22: in every reachable state, a response of the stream watcher leaves no stream that
  the response does not name for this conduit, keeps every named stream that runs, untouched, and
  if no error is reported the running streams are exactly the named ones. The stream service is
  serving exactly when a stream runs.
\<close>

theorem update_streams_exact:
  assumes "sns_reach api ord it iti sns" "ranges_over it" "ranges_over iti"
    "updateStreams api ord it streams sns = Some (e, sns')"
  shows "let named = {n. \<exists>s \<in> set streams. conduit_Equals (Some (sns_Conduit sns)) (stream_conduit s) \<and> n = stream_name s}
    in dom (sns_streams sns') \<subseteq> named \<and> (e = None \<longrightarrow> dom (sns_streams sns') = named) \<and>
       (\<forall>n \<in> dom (sns_streams sns) \<inter> named. sns_streams sns' n = sns_streams sns n) \<and>
       (sns_streamSvc sns' \<longleftrightarrow> sns_streams sns' \<noteq> Map.empty)"
proof -
  have "finite (dom (sns_streams sns))" using sns_reach_inv [OF assms(1-3)] by (simp add: sns_inv_def)
  note u = update_streams_spec [OF assms(4,2) this]
  have "listed_names (sns_Conduit sns) streams = {n. \<exists>s \<in> set streams. conduit_Equals (Some (sns_Conduit sns)) (stream_conduit s) \<and> n = stream_name s}"
    by (auto simp: listed_names_def)
  then show ?thesis using u by (simp add: Let_def)
qed

theorem update_streams_exact_witness:
  "\<exists>sns'. updateStreams ex_api ex_ord sorted_list_of_set [ex_stream ''a'' 100] (ex_new 5000) = Some (None, sns') \<and>
     dom (sns_streams sns') = {''a''}"
  using update_streams_exact [OF ex_new_reach ranges_over_sorted ranges_over_sorted ex_update_one] ex_update_one
  by (simp add: Let_def ex_stream_def newSimpleNetworkService_def ex_conduit_def)





text \<open>
  C33: whatever the responses, the events each service receives alternate and start with an
  allowance, and the last one says whether the last response has a target with the host name of
  this load balancer.
\<close>

theorem frontend_events:
  fixes ep :: "'w endpoint_api" and w :: 'w and host ts rs
  assumes "i < n"
  defines "fns \<equiv> fns_recvs ep (rs @ [ts]) (NewFrontendNetworkService host (Some (replicate n [])) w)"
  shows "\<exists>hs. fns_dispatcher fns = Some hs \<and> length hs = n \<and> (\<forall>j < length (hs ! i). hs ! i ! j = even j) \<and>
    (odd (length (hs ! i)) \<longleftrightarrow> (\<exists>t \<in> set ts. target_context t IdentifierKey = Some host))"
proof -
  obtain hs where hs: "fns_dispatcher fns = Some hs" "length hs = n"
      "\<And>h. h \<in> set hs \<Longrightarrow> alternates h \<and> fns_feAnnounced fns = odd (length h)"
    using fns_recvs_events [of ep "rs @ [ts]" host n w] unfolding fns_def by blast
  have "fns_feAnnounced fns = (getLocal host ts \<noteq> None)"
    unfolding fns_def fns_recvs_snoc fns_recv_state by (simp add: NewFrontendNetworkService_def)
  moreover have "hs ! i \<in> set hs" using assms(1) hs(2) by simp
  ultimately show ?thesis using hs getLocal_Some_iff [of host ts] by (auto simp: alternates_def)
qed

theorem frontend_events_witness:
  "\<exists>hs. fns_dispatcher (fns_recvs \<lparr>ep_Register = (\<lambda>w. (True, w)), ep_Unregister = (\<lambda>w. (True, w))\<rparr> [[], [], []]
      (NewFrontendNetworkService ''h'' (Some [[]]) ())) = Some hs \<and> even (length (hs ! 0))"
  using frontend_events [of 0 1 "\<lparr>ep_Register = (\<lambda>w. (True, w)), ep_Unregister = (\<lambda>w. (True, w))\<rparr>" "[[], []]" "[]" "''h''" "()"]
  by auto



text \<open>
  \<open>updateStreams\<close> does not take the mutex and does not look at the
  block, so a response that was received before the watcher was cancelled makes its streams again
  after the eviction: the service is blocked and has a stream.
\<close>

theorem late_response_while_blocked:
  "\<exists>sns'. updateStreams ex_api ex_ord sorted_list_of_set [ex_stream ''a'' 100]
        (serviceControl ex_api sorted_list_of_set sorted_list_of_set False ex_one) = Some (None, sns') \<and>
     sns_Blocked sns' \<and> sns_streams sns' ''a'' \<noteq> None"
  by (simp add: service_eval generate_eval ex_one_def serviceControl_def evictStreams_def Let_def)

text \<open>
  \<open>evictStreams\<close> does not release the identifier ranges, and \<open>Generate\<close> returns the old offset of a
  name. A stream that comes back larger after a block gets its old offset, and its range then
  overlaps the range of its neighbour: identifiers 5100 to 5199 belong to both streams.
\<close>

theorem evicted_offset_overlaps:
  "\<exists>sns sns'. updateStreams ex_api ex_ord sorted_list_of_set [ex_stream ''a'' 100, ex_stream ''b'' 100] (ex_new 5000) = Some (None, sns) \<and>
     updateStreams ex_api ex_ord sorted_list_of_set [ex_stream ''a'' 200, ex_stream ''b'' 100]
       (serviceControl ex_api sorted_list_of_set sorted_list_of_set True
         (serviceControl ex_api sorted_list_of_set sorted_list_of_set False sns)) = Some (None, sns') \<and>
     sns_streams sns' ''a'' = Some (ex_stream ''a'' 200, 3, 5000) \<and> sns_streams sns' ''b'' = Some (ex_stream ''b'' 100, 4, 5100)"
  by (simp add: service_eval generate_eval serviceControl_def startStreamWatcher_def evictStreams_def Let_def)

end
