(* ===== verification/Config.thy ===== *)
theory Config
  imports NspApi
begin

text \<open>
  The configuration of a trench: the reader of the config map (\<open>pkg/configuration/reader\<close>), the
  registry in memory (\<open>pkg/configuration/registry\<close>) and the monitor that fills it
  (\<open>pkg/configuration/monitor\<close>). YAML decoding is the argument \<open>yaml\<close>: for each kind of document it
  gives the error, if any, and the pointer the document was decoded into, which a null document sets
  to nil. Elements of the decoded lists are pointers too; using a nil one panics, which is \<open>None\<close>.
\<close>

section \<open>Definitions\<close>

subsection \<open>Documents\<close>

record CTrench =
  ct_Name :: string

record CPortNat =
  cp_Port :: nat
  cp_TargetPort :: nat
  cp_Vips :: "string list"
  cp_Protocol :: string

record CConduit =
  cc_Name :: string
  cc_Trench :: string
  cc_DestinationPortNats :: "CPortNat option list"

record CStream =
  cs_Name :: string
  cs_Conduit :: string
  cs_MaxTargets :: nat

record CFlow =
  cf_Name :: string
  cf_SourceSubnets :: "string list"
  cf_DestinationPortRanges :: "string list"
  cf_SourcePortRanges :: "string list"
  cf_Protocols :: "string list"
  cf_Vips :: "string list"
  cf_Priority :: int
  cf_Stream :: string
  cf_ByteMatches :: "string list"

record CVip =
  cv_Name :: string
  cv_Address :: string
  cv_Trench :: string

record CAttractor =
  ca_Name :: string
  ca_Vips :: "string list"
  ca_Gateways :: "string list"
  ca_Trench :: string

record CBgpAuth =
  cb_KeyName :: string
  cb_KeySource :: string

record CGateway =
  cg_Name :: string
  cg_Address :: string
  cg_RemoteASN :: nat
  cg_LocalASN :: nat
  cg_RemotePort :: nat
  cg_LocalPort :: nat
  cg_IPFamily :: string
  cg_BFD :: bool
  cg_Protocol :: string
  cg_HoldTime :: nat
  cg_MinTx :: nat
  cg_MinRx :: nat
  cg_Multiplier :: nat
  cg_Trench :: string
  cg_BGPAuth :: "CBgpAuth option"

subsection \<open>Converter\<close>

text \<open>A loop over pointers that appends what \<open>f\<close> gives for each of them.\<close>

fun append_each :: "('a \<Rightarrow> 'b list option) \<Rightarrow> 'a option list \<Rightarrow> 'b list option" where
  "append_each f [] = Some []"
| "append_each f (None # xs) = None"
| "append_each f (Some x # xs) =
     (case f x of None \<Rightarrow> None | Some ys \<Rightarrow> map_option (\<lambda>zs. ys @ zs) (append_each f xs))"

text \<open>A map from names filled by a loop: later elements replace earlier ones.\<close>

definition by_name :: "('a \<Rightarrow> string) \<Rightarrow> 'a list \<Rightarrow> string \<rightharpoonup> 'a" where
  "by_name name xs = foldl (\<lambda>m x. m(name x \<mapsto> x)) Map.empty xs"

definition to_uint32 :: "nat \<Rightarrow> nat" where
  "to_uint32 n = n mod 2 ^ 32"

definition ConvertTrench :: "CTrench option \<Rightarrow> Trench option" where
  "ConvertTrench trench = map_option (\<lambda>t. \<lparr>trench_name = ct_Name t\<rparr>) trench"

definition getVips :: "string list \<Rightarrow> Vip list \<Rightarrow> Vip list" where
  "getVips vips vipsAPI = List.map_filter (by_name vip_name vipsAPI) vips"

definition getGateways :: "string list \<Rightarrow> Gateway list \<Rightarrow> Gateway list" where
  "getGateways gateways gatewaysAPI = List.map_filter (by_name gateway_name gatewaysAPI) gateways"

definition ConvertPortNats :: "CPortNat option list \<Rightarrow> Vip list \<Rightarrow> PortNat list option" where
  "ConvertPortNats portNats vipsAPI =
     append_each (\<lambda>p. Some [\<lparr>pn_port = cp_Port p, pn_targetPort = cp_TargetPort p, pn_vips = getVips (cp_Vips p) vipsAPI,
                             pn_protocol = cp_Protocol p\<rparr>]) portNats"

definition ConvertConduits :: "CConduit option list \<Rightarrow> Trench option \<Rightarrow> Vip list \<Rightarrow> Conduit list option" where
  "ConvertConduits conduits trench vips =
     (case trench of
        None \<Rightarrow> Some []
      | Some t \<Rightarrow>
          append_each (\<lambda>c.
            if cc_Trench c \<noteq> trench_name t then Some []
            else map_option (\<lambda>pns. [\<lparr>conduit_name = cc_Name c, conduit_trench = Some t, conduit_portNats = pns\<rparr>])
                   (ConvertPortNats (cc_DestinationPortNats c) vips)) conduits)"

definition ConvertStreams :: "CStream option list \<Rightarrow> Conduit list \<Rightarrow> Stream list option" where
  "ConvertStreams streams conduits =
     (let conduitsMap = by_name conduit_name conduits
      in append_each (\<lambda>s.
           case conduitsMap (cs_Conduit s) of
             None \<Rightarrow> Some []
           | Some c \<Rightarrow> Some [\<lparr>stream_name = cs_Name s, stream_conduit = Some c, stream_maxTargets = cs_MaxTargets s\<rparr>]) streams)"

definition ConvertFlows :: "CFlow option list \<Rightarrow> Stream list \<Rightarrow> Vip list \<Rightarrow> Flow list option" where
  "ConvertFlows flows streams vips =
     (let streamsMap = by_name stream_name streams
      in append_each (\<lambda>f.
           case streamsMap (cf_Stream f) of
             None \<Rightarrow> Some []
           | Some s \<Rightarrow> Some [\<lparr>flow_name = cf_Name f, flow_sourceSubnets = cf_SourceSubnets f,
                              flow_destinationPortRanges = cf_DestinationPortRanges f,
                              flow_sourcePortRanges = cf_SourcePortRanges f, flow_protocols = cf_Protocols f,
                              flow_priority = cf_Priority f, flow_stream = Some s, flow_vips = getVips (cf_Vips f) vips,
                              flow_byteMatches = cf_ByteMatches f\<rparr>]) flows)"

definition ConvertVips :: "CVip option list \<Rightarrow> Trench option \<Rightarrow> Vip list option" where
  "ConvertVips vips trench =
     (case trench of
        None \<Rightarrow> Some []
      | Some t \<Rightarrow>
          append_each (\<lambda>v.
            if cv_Trench v \<noteq> trench_name t then Some []
            else Some [\<lparr>vip_name = cv_Name v, vip_address = cv_Address v, vip_trench = Some t\<rparr>]) vips)"

definition ConvertAttractors :: "CAttractor option list \<Rightarrow> Trench option \<Rightarrow> Vip list \<Rightarrow> Gateway list \<Rightarrow> Attractor list option" where
  "ConvertAttractors attractors trench vips gateways =
     (case trench of
        None \<Rightarrow> Some []
      | Some t \<Rightarrow>
          append_each (\<lambda>a.
            if ca_Trench a \<noteq> trench_name t then Some []
            else Some [\<lparr>attractor_name = ca_Name a, attractor_trench = Some t, attractor_vips = getVips (ca_Vips a) vips,
                        attractor_gateways = getGateways (ca_Gateways a) gateways\<rparr>]) attractors)"

definition ConvertGateways :: "CGateway option list \<Rightarrow> Trench option \<Rightarrow> Gateway list option" where
  "ConvertGateways gateways trench =
     (case trench of
        None \<Rightarrow> Some []
      | Some t \<Rightarrow>
          append_each (\<lambda>g.
            if cg_Trench g \<noteq> trench_name t then Some []
            else Some [\<lparr>gateway_name = cg_Name g, gateway_address = cg_Address g, gateway_ipFamily = cg_IPFamily g,
                        gateway_protocol = cg_Protocol g, gateway_remoteASN = cg_RemoteASN g, gateway_localASN = cg_LocalASN g,
                        gateway_remotePort = cg_RemotePort g, gateway_localPort = cg_LocalPort g,
                        gateway_holdTime = to_uint32 (cg_HoldTime g), gateway_bfd = cg_BFD g,
                        gateway_bfdSpec =
                          (if \<not> cg_BFD g then None
                           else Some \<lparr>bfd_MinTx = to_uint32 (cg_MinTx g), bfd_MinRx = to_uint32 (cg_MinRx g),
                                      bfd_Multiplier = to_uint32 (cg_Multiplier g)\<rparr>),
                        gateway_trench = Some t,
                        gateway_bgpAuth =
                          map_option (\<lambda>b. \<lparr>auth_keyName = cb_KeyName b, auth_keySource = cb_KeySource b\<rparr>) (cg_BGPAuth g)\<rparr>]) gateways)"

record Configuration =
  cfg_trench :: Trench
  cfg_conduits :: "Conduit list"
  cfg_streams :: "Stream list"
  cfg_flows :: "Flow list"
  cfg_vips :: "Vip list"
  cfg_attractors :: "Attractor list"
  cfg_gateways :: "Gateway list"

record Documents =
  doc_trench :: "CTrench option"
  doc_conduits :: "CConduit option list"
  doc_streams :: "CStream option list"
  doc_flows :: "CFlow option list"
  doc_vips :: "CVip option list"
  doc_attractors :: "CAttractor option list"
  doc_gateways :: "CGateway option list"

definition ConvertAll :: "Documents \<Rightarrow> Configuration option" where
  "ConvertAll d =
     Option.bind (ConvertTrench (doc_trench d)) (\<lambda>trench.
     Option.bind (ConvertVips (doc_vips d) (Some trench)) (\<lambda>vips.
     Option.bind (ConvertConduits (doc_conduits d) (Some trench) vips) (\<lambda>conduits.
     Option.bind (ConvertStreams (doc_streams d) conduits) (\<lambda>streams.
     Option.bind (ConvertFlows (doc_flows d) streams vips) (\<lambda>flows.
     Option.bind (ConvertGateways (doc_gateways d) (Some trench)) (\<lambda>gateways.
     Option.bind (ConvertAttractors (doc_attractors d) (Some trench) vips gateways) (\<lambda>attractors.
       Some \<lparr>cfg_trench = trench, cfg_conduits = conduits, cfg_streams = streams, cfg_flows = flows, cfg_vips = vips,
             cfg_attractors = attractors, cfg_gateways = gateways\<rparr>)))))))"

subsection \<open>Reader\<close>

type_synonym 'c decoder = "string \<Rightarrow> go_error option \<times> 'c option"

record yaml =
  yaml_trench :: "CTrench decoder"
  yaml_conduits :: "CConduit option list decoder"
  yaml_streams :: "CStream option list decoder"
  yaml_flows :: "CFlow option list decoder"
  yaml_vips :: "CVip option list decoder"
  yaml_attractors :: "CAttractor option list decoder"
  yaml_gateways :: "CGateway option list decoder"

text \<open>\<open>UnmarshalTrench\<close> returns the pointer as it is, the others read a field of it first.\<close>

definition UnmarshalTrench :: "yaml \<Rightarrow> string \<Rightarrow> go_error + CTrench option" where
  "UnmarshalTrench yaml c =
     (case yaml_trench yaml c of
        (Some err, config) \<Rightarrow> Inl (ErrMsg ''failed to unmarshal trench'' # err)
      | (None, config) \<Rightarrow> Inr config)"

definition UnmarshalList :: "string \<Rightarrow> 'c decoder \<Rightarrow> string \<Rightarrow> (go_error + 'c) option" where
  "UnmarshalList msg decode c =
     (case decode c of
        (e, None) \<Rightarrow> None
      | (Some err, Some config) \<Rightarrow> Some (Inl (ErrMsg msg # err))
      | (None, Some config) \<Rightarrow> Some (Inr config))"

definition UnmarshalConduits :: "yaml \<Rightarrow> string \<Rightarrow> (go_error + CConduit option list) option" where
  "UnmarshalConduits yaml = UnmarshalList ''failed to unmarshal conduits'' (yaml_conduits yaml)"

definition UnmarshalStreams :: "yaml \<Rightarrow> string \<Rightarrow> (go_error + CStream option list) option" where
  "UnmarshalStreams yaml = UnmarshalList ''failed to unmarshal streams'' (yaml_streams yaml)"

definition UnmarshalFlows :: "yaml \<Rightarrow> string \<Rightarrow> (go_error + CFlow option list) option" where
  "UnmarshalFlows yaml = UnmarshalList ''failed to unmarshal flows'' (yaml_flows yaml)"

definition UnmarshalVips :: "yaml \<Rightarrow> string \<Rightarrow> (go_error + CVip option list) option" where
  "UnmarshalVips yaml = UnmarshalList ''failed to unmarshal vips'' (yaml_vips yaml)"

definition UnmarshalAttractors :: "yaml \<Rightarrow> string \<Rightarrow> (go_error + CAttractor option list) option" where
  "UnmarshalAttractors yaml = UnmarshalList ''failed to unmarshal attractors'' (yaml_attractors yaml)"

definition UnmarshalGateways :: "yaml \<Rightarrow> string \<Rightarrow> (go_error + CGateway option list) option" where
  "UnmarshalGateways yaml = UnmarshalList ''failed to unmarshal gateways'' (yaml_gateways yaml)"

text \<open>The next call of a sequence: a panic or an error ends it.\<close>

definition and_then :: "('e + 'a) option \<Rightarrow> ('a \<Rightarrow> ('e + 'b) option) \<Rightarrow> ('e + 'b) option" where
  "and_then r k = (case r of None \<Rightarrow> None | Some (Inl e) \<Rightarrow> Some (Inl e) | Some (Inr x) \<Rightarrow> k x)"

text \<open>Reading a key a Go map does not have gives the empty string.\<close>

definition data_at :: "(string \<rightharpoonup> string) \<Rightarrow> string \<Rightarrow> string" where
  "data_at m k = (case m k of None \<Rightarrow> [] | Some s \<Rightarrow> s)"

definition UnmarshalConfig :: "yaml \<Rightarrow> (string \<rightharpoonup> string) \<Rightarrow> (go_error + Documents) option" where
  "UnmarshalConfig yaml m =
     and_then (Some (UnmarshalTrench yaml (data_at m ''trench''))) (\<lambda>trench.
     and_then (UnmarshalConduits yaml (data_at m ''conduits'')) (\<lambda>conduits.
     and_then (UnmarshalStreams yaml (data_at m ''streams'')) (\<lambda>streams.
     and_then (UnmarshalFlows yaml (data_at m ''flows'')) (\<lambda>flows.
     and_then (UnmarshalVips yaml (data_at m ''vips'')) (\<lambda>vips.
     and_then (UnmarshalAttractors yaml (data_at m ''attractors'')) (\<lambda>attractors.
     and_then (UnmarshalGateways yaml (data_at m ''gateways'')) (\<lambda>gateways.
       Some (Inr \<lparr>doc_trench = trench, doc_conduits = conduits, doc_streams = streams, doc_flows = flows, doc_vips = vips,
                  doc_attractors = attractors, doc_gateways = gateways\<rparr>))))))))"

subsection \<open>Registry\<close>

datatype ResourceType = RTrench | RConduit | RStream | RFlow | RVip | RAttractor | RGateway

text \<open>The channel is the sequence of the events sent on it, or nil.\<close>

record ConfigurationRegistry =
  cr_Chan :: "ResourceType list option"
  cr_trench :: "Trench option"
  cr_conduits :: "Conduit list"
  cr_streams :: "Stream list"
  cr_flows :: "Flow list"
  cr_vips :: "Vip list"
  cr_attractors :: "Attractor list"
  cr_gateways :: "Gateway list"

definition cr_New :: "ResourceType list option \<Rightarrow> ConfigurationRegistry" where
  "cr_New ch = \<lparr>cr_Chan = ch, cr_trench = None, cr_conduits = [], cr_streams = [], cr_flows = [], cr_vips = [],
                cr_attractors = [], cr_gateways = []\<rparr>"

definition cr_notify :: "ResourceType \<Rightarrow> ConfigurationRegistry \<Rightarrow> ConfigurationRegistry" where
  "cr_notify e cr = (case cr_Chan cr of None \<Rightarrow> cr | Some es \<Rightarrow> cr\<lparr>cr_Chan := Some (es @ [e])\<rparr>)"

definition SetTrench :: "Trench option \<Rightarrow> ConfigurationRegistry \<Rightarrow> ConfigurationRegistry" where
  "SetTrench trench cr = cr_notify RTrench (cr\<lparr>cr_trench := trench\<rparr>)"

definition SetConduitsCfg :: "Conduit list \<Rightarrow> ConfigurationRegistry \<Rightarrow> ConfigurationRegistry" where
  "SetConduitsCfg conduits cr = cr_notify RConduit (cr\<lparr>cr_conduits := conduits\<rparr>)"

definition SetStreams :: "Stream list \<Rightarrow> ConfigurationRegistry \<Rightarrow> ConfigurationRegistry" where
  "SetStreams streams cr = cr_notify RStream (cr\<lparr>cr_streams := streams\<rparr>)"

definition SetFlows :: "Flow list \<Rightarrow> ConfigurationRegistry \<Rightarrow> ConfigurationRegistry" where
  "SetFlows flows cr = cr_notify RFlow (cr\<lparr>cr_flows := flows\<rparr>)"

definition SetVipsCfg :: "Vip list \<Rightarrow> ConfigurationRegistry \<Rightarrow> ConfigurationRegistry" where
  "SetVipsCfg vips cr = cr_notify RVip (cr\<lparr>cr_vips := vips\<rparr>)"

definition SetAttractors :: "Attractor list \<Rightarrow> ConfigurationRegistry \<Rightarrow> ConfigurationRegistry" where
  "SetAttractors attractors cr = cr_notify RAttractor (cr\<lparr>cr_attractors := attractors\<rparr>)"

definition SetGateways :: "Gateway list \<Rightarrow> ConfigurationRegistry \<Rightarrow> ConfigurationRegistry" where
  "SetGateways gateways cr = cr_notify RGateway (cr\<lparr>cr_gateways := gateways\<rparr>)"

definition GetTrench :: "Trench option \<Rightarrow> ConfigurationRegistry \<Rightarrow> Trench option" where
  "GetTrench trench cr =
     (case (cr_trench cr, trench) of
        (None, _) \<Rightarrow> None
      | (Some t, None) \<Rightarrow> Some t
      | (Some t, Some q) \<Rightarrow> if trench_name q = trench_name t then Some t else None)"

definition GetConduits :: "Conduit option \<Rightarrow> ConfigurationRegistry \<Rightarrow> Conduit list" where
  "GetConduits conduit cr =
     (if conduit = None then cr_conduits cr else filter (\<lambda>c. conduit_Equals (Some c) conduit) (cr_conduits cr))"

definition GetStreams :: "Stream option \<Rightarrow> ConfigurationRegistry \<Rightarrow> Stream list" where
  "GetStreams stream cr =
     (if stream = None then cr_streams cr else filter (\<lambda>s. stream_Equals (Some s) stream) (cr_streams cr))"

definition GetFlows :: "Flow option \<Rightarrow> ConfigurationRegistry \<Rightarrow> Flow list" where
  "GetFlows flow cr =
     (if flow = None then cr_flows cr else filter (\<lambda>f. flow_Equals (Some f) flow) (cr_flows cr))"

definition GetVips :: "Vip option \<Rightarrow> ConfigurationRegistry \<Rightarrow> Vip list" where
  "GetVips vip cr =
     (if vip = None then cr_vips cr else filter (\<lambda>v. vip_Equals (Some v) vip) (cr_vips cr))"

definition GetAttractors :: "Attractor option \<Rightarrow> ConfigurationRegistry \<Rightarrow> Attractor list" where
  "GetAttractors attractor cr =
     (if attractor = None then cr_attractors cr else filter (\<lambda>a. attractor_Equals (Some a) attractor) (cr_attractors cr))"

definition GetGatewaysCfg :: "Gateway option \<Rightarrow> ConfigurationRegistry \<Rightarrow> Gateway list" where
  "GetGatewaysCfg gateway cr =
     (if gateway = None then cr_gateways cr else filter (\<lambda>g. gateway_Equals (Some g) gateway) (cr_gateways cr))"

subsection \<open>Monitor\<close>

text \<open>An event of the watch on the config map: the object is a config map with its data, or another object.\<close>

datatype watch_type = Added | Modified | Deleted | OtherWatch

definition eventHandler :: "yaml \<Rightarrow> (string \<rightharpoonup> string) option \<Rightarrow> ConfigurationRegistry \<Rightarrow> ConfigurationRegistry option" where
  "eventHandler yaml obj cr =
     (case obj of
        None \<Rightarrow> Some cr
      | Some m \<Rightarrow>
          (case UnmarshalConfig yaml m of
             None \<Rightarrow> None
           | Some (Inl err) \<Rightarrow> Some cr
           | Some (Inr d) \<Rightarrow>
               map_option (\<lambda>cfg.
                 SetGateways (cfg_gateways cfg) (SetAttractors (cfg_attractors cfg) (SetVipsCfg (cfg_vips cfg)
                   (SetFlows (cfg_flows cfg) (SetStreams (cfg_streams cfg) (SetConduitsCfg (cfg_conduits cfg)
                     (SetTrench (Some (cfg_trench cfg)) cr))))))) (ConvertAll d)))"

definition monitor_Handle :: "yaml \<Rightarrow> (watch_type \<times> (string \<rightharpoonup> string) option) option \<Rightarrow> ConfigurationRegistry \<Rightarrow> ConfigurationRegistry option" where
  "monitor_Handle yaml event cr =
     (case event of
        None \<Rightarrow> Some cr
      | Some (Added, obj) \<Rightarrow> eventHandler yaml obj cr
      | Some (Modified, obj) \<Rightarrow> eventHandler yaml obj cr
      | Some (_, obj) \<Rightarrow> Some cr)"

subsection \<open>Integrity\<close>

text \<open>Every reference of the configuration is to a resource of the configuration.\<close>

definition portnats_ok :: "Vip set \<Rightarrow> Conduit \<Rightarrow> bool" where
  "portnats_ok vips c \<longleftrightarrow> (\<forall>pn \<in> set (conduit_portNats c). set (pn_vips pn) \<subseteq> vips)"

definition references_ok ::
  "Trench option \<Rightarrow> Conduit list \<Rightarrow> Stream list \<Rightarrow> Flow list \<Rightarrow> Vip list \<Rightarrow> Attractor list \<Rightarrow> Gateway list \<Rightarrow> bool" where
  "references_ok t cs ss fs vs as gs \<longleftrightarrow>
     (\<forall>v \<in> set vs. vip_trench v = t) \<and> (\<forall>g \<in> set gs. gateway_trench g = t) \<and>
     (\<forall>c \<in> set cs. conduit_trench c = t \<and> portnats_ok (set vs) c) \<and>
     (\<forall>s \<in> set ss. stream_conduit s \<in> Some ` set cs) \<and>
     (\<forall>f \<in> set fs. flow_stream f \<in> Some ` set ss \<and> set (flow_vips f) \<subseteq> set vs) \<and>
     (\<forall>a \<in> set as. attractor_trench a = t \<and> set (attractor_vips a) \<subseteq> set vs \<and> set (attractor_gateways a) \<subseteq> set gs)"

definition registry_ok :: "ConfigurationRegistry \<Rightarrow> bool" where
  "registry_ok cr \<longleftrightarrow> references_ok (cr_trench cr) (cr_conduits cr) (cr_streams cr) (cr_flows cr) (cr_vips cr) (cr_attractors cr) (cr_gateways cr)"

fun monitor_run :: "yaml \<Rightarrow> (watch_type \<times> (string \<rightharpoonup> string) option) option list \<Rightarrow> ConfigurationRegistry \<Rightarrow> ConfigurationRegistry option" where
  "monitor_run yaml [] cr = Some cr"
| "monitor_run yaml (e # es) cr = Option.bind (monitor_Handle yaml e cr) (monitor_run yaml es)"

text \<open>A small configuration, for the examples: the second stream names a conduit that does not exist.\<close>

definition ex_docs :: Documents where
  "ex_docs = \<lparr>doc_trench = Some \<lparr>ct_Name = ''t''\<rparr>,
     doc_conduits = [Some \<lparr>cc_Name = ''c'', cc_Trench = ''t'', cc_DestinationPortNats = []\<rparr>],
     doc_streams = [Some \<lparr>cs_Name = ''s1'', cs_Conduit = ''c'', cs_MaxTargets = 100\<rparr>,
                    Some \<lparr>cs_Name = ''s2'', cs_Conduit = ''d'', cs_MaxTargets = 100\<rparr>],
     doc_flows = [], doc_vips = [Some \<lparr>cv_Name = ''v'', cv_Address = ''20.0.0.1/32'', cv_Trench = ''t''\<rparr>],
     doc_attractors = [], doc_gateways = []\<rparr>"

definition ex_yaml :: yaml where
  "ex_yaml = \<lparr>yaml_trench = (\<lambda>_. (None, doc_trench ex_docs)), yaml_conduits = (\<lambda>_. (None, Some (doc_conduits ex_docs))),
     yaml_streams = (\<lambda>_. (None, Some (doc_streams ex_docs))), yaml_flows = (\<lambda>_. (None, Some [])),
     yaml_vips = (\<lambda>_. (None, Some (doc_vips ex_docs))), yaml_attractors = (\<lambda>_. (None, Some [])), yaml_gateways = (\<lambda>_. (None, Some []))\<rparr>"

section \<open>Lemmas\<close>

lemma by_name_eq: "by_name name xs = map_of (map (\<lambda>x. (name x, x)) (rev xs))"
proof -
  have "foldl (\<lambda>m x. m(name x \<mapsto> x)) m xs = m ++ map_of (map (\<lambda>x. (name x, x)) (rev xs))" for m
    by (induction xs arbitrary: m) (auto simp: map_add_def fun_eq_iff split: option.split)
  from this [of Map.empty] show ?thesis by (simp add: by_name_def)
qed

lemma by_name_SomeD: "by_name name xs n = Some x \<Longrightarrow> x \<in> set xs \<and> name x = n"
  by (auto simp: by_name_eq dest: map_of_SomeD)

lemma by_name_image: "by_name name xs n = Some x \<Longrightarrow> n \<in> name ` set xs"
  by (auto dest: by_name_SomeD)

lemma by_name_None: "by_name name xs n = None \<longleftrightarrow> n \<notin> name ` set xs"
  by (auto simp: by_name_eq map_of_eq_None_iff image_image)

lemma set_map_filter: "set (List.map_filter f xs) = {y. \<exists>x \<in> set xs. f x = Some y}"
  by (force simp: List.map_filter_def)

lemma getVips_mem: "v \<in> set (getVips ns vs) \<Longrightarrow> v \<in> set vs"
  by (auto simp: getVips_def set_map_filter dest: by_name_SomeD)

lemma getGateways_mem: "g \<in> set (getGateways ns gs) \<Longrightarrow> g \<in> set gs"
  by (auto simp: getGateways_def set_map_filter dest: by_name_SomeD)

text \<open>What holds of everything the loop appends holds of the result.\<close>

lemma append_each_set:
  "append_each f xs = Some ys \<Longrightarrow> y \<in> set ys \<Longrightarrow> \<exists>x zs. Some x \<in> set xs \<and> f x = Some zs \<and> y \<in> set zs"
proof (induction f xs arbitrary: ys rule: append_each.induct)
  case (3 f x xs)
  from 3(2) obtain zs ws where s: "f x = Some zs" "append_each f xs = Some ws" "ys = zs @ ws"
    by (auto split: option.splits)
  show ?case
  proof (cases "y \<in> set zs")
    case False
    then have "y \<in> set ws" using 3(3) s(3) by simp
    from 3(1) [OF s(1,2) this] show ?thesis by auto
  qed (use s in auto)
qed auto

lemma append_each_ball:
  assumes "append_each f xs = Some ys" "\<And>x zs y. f x = Some zs \<Longrightarrow> y \<in> set zs \<Longrightarrow> P y"
  shows "\<forall>y \<in> set ys. P y"
  using append_each_set [OF assms(1)] assms(2) by blast

text \<open>Without nil pointers the loop runs to its end and keeps the selected elements in order.\<close>

lemma append_each_names:
  assumes "\<And>x. x \<in> set xs \<Longrightarrow> \<exists>ys. f x = Some ys \<and> map nm ys = (if sel x then [nm' x] else [])"
  shows "\<exists>ys. append_each f (map Some xs) = Some ys \<and> map nm ys = map nm' (filter sel xs)"
  using assms
proof (induction xs)
  case (Cons x xs)
  obtain ys where y: "f x = Some ys" "map nm ys = (if sel x then [nm' x] else [])" using Cons.prems [of x] by auto
  obtain zs where "append_each f (map Some xs) = Some zs" "map nm zs = map nm' (filter sel xs)" using Cons by auto
  with y show ?case by auto
qed simp

lemma ConvertVips_ok: "ConvertVips ds t = Some vs \<Longrightarrow> \<forall>v \<in> set vs. vip_trench v = t"
  by (cases t) (auto simp: ConvertVips_def dest!: append_each_set split: if_splits)

lemma ConvertGateways_ok: "ConvertGateways ds t = Some gs \<Longrightarrow> \<forall>g \<in> set gs. gateway_trench g = t"
  by (cases t) (auto simp: ConvertGateways_def dest!: append_each_set split: if_splits)

lemma ConvertPortNats_ok: "ConvertPortNats ds vs = Some ps \<Longrightarrow> \<forall>p \<in> set ps. set (pn_vips p) \<subseteq> set vs"
  unfolding ConvertPortNats_def by (erule append_each_ball) (auto dest: getVips_mem)

lemma ConvertConduits_ok:
  "ConvertConduits ds t vs = Some cs \<Longrightarrow> \<forall>c \<in> set cs. conduit_trench c = t \<and> portnats_ok (set vs) c"
proof (cases t)
  case (Some tr)
  assume "ConvertConduits ds t vs = Some cs"
  then show ?thesis unfolding ConvertConduits_def Some option.case
    by (rule append_each_ball) (auto simp: portnats_ok_def dest!: ConvertPortNats_ok split: if_splits)
qed (simp add: ConvertConduits_def)

lemma ConvertStreams_ok: "ConvertStreams ds cs = Some ss \<Longrightarrow> \<forall>s \<in> set ss. stream_conduit s \<in> Some ` set cs"
  unfolding ConvertStreams_def Let_def
  by (erule append_each_ball) (auto dest!: by_name_SomeD split: option.splits)

lemma ConvertFlows_ok:
  "ConvertFlows ds ss vs = Some fs \<Longrightarrow> \<forall>f \<in> set fs. flow_stream f \<in> Some ` set ss \<and> set (flow_vips f) \<subseteq> set vs"
  unfolding ConvertFlows_def Let_def
  by (erule append_each_ball) (auto dest: getVips_mem dest!: by_name_SomeD split: option.splits)

lemma ConvertAttractors_ok:
  "ConvertAttractors ds t vs gs = Some as \<Longrightarrow>
     \<forall>a \<in> set as. attractor_trench a = t \<and> set (attractor_vips a) \<subseteq> set vs \<and> set (attractor_gateways a) \<subseteq> set gs"
proof (cases t)
  case (Some tr)
  assume "ConvertAttractors ds t vs gs = Some as"
  then show ?thesis unfolding ConvertAttractors_def Some option.case
    by (rule append_each_ball) (auto dest: getVips_mem getGateways_mem split: if_splits)
qed (simp add: ConvertAttractors_def)

lemma ConvertAll_ok:
  assumes "ConvertAll d = Some cfg"
  shows "references_ok (Some (cfg_trench cfg)) (cfg_conduits cfg) (cfg_streams cfg) (cfg_flows cfg) (cfg_vips cfg) (cfg_attractors cfg) (cfg_gateways cfg)"
proof -
  from assms obtain t vs cs ss fs gs as where p:
    "ConvertTrench (doc_trench d) = Some t" "ConvertVips (doc_vips d) (Some t) = Some vs"
    "ConvertConduits (doc_conduits d) (Some t) vs = Some cs" "ConvertStreams (doc_streams d) cs = Some ss"
    "ConvertFlows (doc_flows d) ss vs = Some fs" "ConvertGateways (doc_gateways d) (Some t) = Some gs"
    "ConvertAttractors (doc_attractors d) (Some t) vs gs = Some as"
    and cfg: "cfg = \<lparr>cfg_trench = t, cfg_conduits = cs, cfg_streams = ss, cfg_flows = fs, cfg_vips = vs, cfg_attractors = as, cfg_gateways = gs\<rparr>"
    unfolding ConvertAll_def by (auto simp: bind_eq_Some_conv)
  show ?thesis
    using ConvertVips_ok [OF p(2)] ConvertConduits_ok [OF p(3)] ConvertStreams_ok [OF p(4)] ConvertFlows_ok [OF p(5)]
      ConvertGateways_ok [OF p(6)] ConvertAttractors_ok [OF p(7)]
    by (simp add: cfg references_ok_def)
qed

lemma ConvertVips_exact:
  "\<exists>rs. ConvertVips (map Some vs) (Some t) = Some rs \<and> map vip_name rs = map cv_Name (filter (\<lambda>v. cv_Trench v = trench_name t) vs)"
  unfolding ConvertVips_def option.case by (rule append_each_names) auto

lemma ConvertPortNats_total: "None \<notin> set ps \<Longrightarrow> \<exists>qs. ConvertPortNats ps vs = Some qs"
proof (induction ps)
  case (Cons p ps)
  then obtain q qs where "p = Some q" "ConvertPortNats ps vs = Some qs" by (cases p) auto
  then show ?case by (simp add: ConvertPortNats_def)
qed (simp add: ConvertPortNats_def)

lemma ConvertConduits_exact:
  assumes "\<And>c. c \<in> set cs \<Longrightarrow> None \<notin> set (cc_DestinationPortNats c)"
  shows "\<exists>rs. ConvertConduits (map Some cs) (Some t) vs = Some rs \<and>
           map conduit_name rs = map cc_Name (filter (\<lambda>c. cc_Trench c = trench_name t) cs)"
  unfolding ConvertConduits_def option.case
proof (rule append_each_names)
  fix c assume "c \<in> set cs"
  then obtain qs where "ConvertPortNats (cc_DestinationPortNats c) vs = Some qs" using ConvertPortNats_total assms by blast
  then show "\<exists>ys. (if cc_Trench c \<noteq> trench_name t then Some []
      else map_option (\<lambda>pns. [\<lparr>conduit_name = cc_Name c, conduit_trench = Some t, conduit_portNats = pns\<rparr>])
             (ConvertPortNats (cc_DestinationPortNats c) vs)) = Some ys \<and>
      map conduit_name ys = (if cc_Trench c = trench_name t then [cc_Name c] else [])"
    by simp
qed

lemma ConvertStreams_exact:
  "\<exists>rs. ConvertStreams (map Some ss) cs = Some rs \<and>
     map (\<lambda>s. (stream_name s, stream_maxTargets s)) rs = map (\<lambda>s. (cs_Name s, cs_MaxTargets s)) (filter (\<lambda>s. cs_Conduit s \<in> conduit_name ` set cs) ss)"
  unfolding ConvertStreams_def Let_def
  by (rule append_each_names) (auto simp: by_name_None dest: by_name_image split: option.split)

lemma ConvertFlows_exact:
  "\<exists>rs. ConvertFlows (map Some fs) ss vs = Some rs \<and>
     map flow_name rs = map cf_Name (filter (\<lambda>f. cf_Stream f \<in> stream_name ` set ss) fs)"
  unfolding ConvertFlows_def Let_def
  by (rule append_each_names) (auto simp: by_name_None dest: by_name_image split: option.split)

lemma ConvertGateways_exact:
  "\<exists>rs. ConvertGateways (map Some gs) (Some t) = Some rs \<and>
     map gateway_name rs = map cg_Name (filter (\<lambda>g. cg_Trench g = trench_name t) gs)"
  unfolding ConvertGateways_def option.case by (rule append_each_names) auto

lemma ConvertAttractors_exact:
  "\<exists>rs. ConvertAttractors (map Some as) (Some t) vs gs = Some rs \<and>
     map attractor_name rs = map ca_Name (filter (\<lambda>a. ca_Trench a = trench_name t) as)"
  unfolding ConvertAttractors_def option.case by (rule append_each_names) auto

lemma eventHandler_cases:
  assumes "eventHandler yaml obj cr = Some cr'"
  shows "cr' = cr \<or> registry_ok cr'"
proof (cases "\<exists>m d cfg. obj = Some m \<and> UnmarshalConfig yaml m = Some (Inr d) \<and> ConvertAll d = Some cfg")
  case True
  then obtain m d cfg where o: "obj = Some m" "UnmarshalConfig yaml m = Some (Inr d)" "ConvertAll d = Some cfg" by blast
  have "cr_trench cr' = Some (cfg_trench cfg)" "cr_conduits cr' = cfg_conduits cfg" "cr_streams cr' = cfg_streams cfg"
    "cr_flows cr' = cfg_flows cfg" "cr_vips cr' = cfg_vips cfg" "cr_attractors cr' = cfg_attractors cfg" "cr_gateways cr' = cfg_gateways cfg"
    using assms o
    by (auto simp: eventHandler_def SetTrench_def SetConduitsCfg_def SetStreams_def SetFlows_def SetVipsCfg_def SetAttractors_def
        SetGateways_def cr_notify_def split: option.splits)
  with ConvertAll_ok [OF o(3)] show ?thesis by (simp add: registry_ok_def)
next
  case False
  with assms show ?thesis by (auto simp: eventHandler_def split: option.splits sum.splits)
qed

lemma monitor_Handle_ok: "monitor_Handle yaml e cr = Some cr' \<Longrightarrow> registry_ok cr \<Longrightarrow> registry_ok cr'"
  using eventHandler_cases by (auto simp: monitor_Handle_def split: option.splits prod.splits watch_type.splits)

lemma monitor_run_ok: "monitor_run yaml es cr = Some cr' \<Longrightarrow> registry_ok cr \<Longrightarrow> registry_ok cr'"
  by (induction es arbitrary: cr) (auto simp: bind_eq_Some_conv dest: monitor_Handle_ok)

section \<open>Properties\<close>

text \<open>
  C27: documents without nil entries are converted, with exactly the resources whose parent exists, in the
  order of the documents: vips, conduits, gateways and attractors of this trench, streams of a
  converted conduit (with their number of targets), flows of a converted stream.
\<close>

theorem convert_all_exact:
  assumes "doc_trench d = Some t" "doc_conduits d = map Some cs" "\<And>c. c \<in> set cs \<Longrightarrow> None \<notin> set (cc_DestinationPortNats c)"
    "doc_streams d = map Some ss" "doc_flows d = map Some fs" "doc_vips d = map Some vs" "doc_attractors d = map Some as"
    "doc_gateways d = map Some gs"
  shows "\<exists>cfg. ConvertAll d = Some cfg \<and> trench_name (cfg_trench cfg) = ct_Name t \<and>
    map vip_name (cfg_vips cfg) = map cv_Name (filter (\<lambda>v. cv_Trench v = ct_Name t) vs) \<and>
    map conduit_name (cfg_conduits cfg) = map cc_Name (filter (\<lambda>c. cc_Trench c = ct_Name t) cs) \<and>
    map (\<lambda>s. (stream_name s, stream_maxTargets s)) (cfg_streams cfg) =
      map (\<lambda>s. (cs_Name s, cs_MaxTargets s)) (filter (\<lambda>s. cs_Conduit s \<in> conduit_name ` set (cfg_conduits cfg)) ss) \<and>
    map flow_name (cfg_flows cfg) = map cf_Name (filter (\<lambda>f. cf_Stream f \<in> stream_name ` set (cfg_streams cfg)) fs) \<and>
    map gateway_name (cfg_gateways cfg) = map cg_Name (filter (\<lambda>g. cg_Trench g = ct_Name t) gs) \<and>
    map attractor_name (cfg_attractors cfg) = map ca_Name (filter (\<lambda>a. ca_Trench a = ct_Name t) as)"
proof -
  let ?t = "\<lparr>trench_name = ct_Name t\<rparr>"
  obtain vs' where v: "ConvertVips (doc_vips d) (Some ?t) = Some vs'" "map vip_name vs' = map cv_Name (filter (\<lambda>v. cv_Trench v = ct_Name t) vs)"
    using ConvertVips_exact [of vs ?t] assms(6) by auto
  obtain cs' where c: "ConvertConduits (doc_conduits d) (Some ?t) vs' = Some cs'" "map conduit_name cs' = map cc_Name (filter (\<lambda>c. cc_Trench c = ct_Name t) cs)"
    using ConvertConduits_exact [where cs = cs and t = ?t and vs = vs'] assms(2,3) by auto
  obtain ss' where s: "ConvertStreams (doc_streams d) cs' = Some ss'" "map (\<lambda>s. (stream_name s, stream_maxTargets s)) ss' =
      map (\<lambda>s. (cs_Name s, cs_MaxTargets s)) (filter (\<lambda>s. cs_Conduit s \<in> conduit_name ` set cs') ss)"
    using ConvertStreams_exact [of ss cs'] assms(4) by metis
  obtain fs' where f: "ConvertFlows (doc_flows d) ss' vs' = Some fs'" "map flow_name fs' = map cf_Name (filter (\<lambda>f. cf_Stream f \<in> stream_name ` set ss') fs)"
    using ConvertFlows_exact [of fs ss' vs'] assms(5) by metis
  obtain gs' where g: "ConvertGateways (doc_gateways d) (Some ?t) = Some gs'" "map gateway_name gs' = map cg_Name (filter (\<lambda>g. cg_Trench g = ct_Name t) gs)"
    using ConvertGateways_exact [of gs ?t] assms(8) by auto
  obtain as' where a: "ConvertAttractors (doc_attractors d) (Some ?t) vs' gs' = Some as'"
      "map attractor_name as' = map ca_Name (filter (\<lambda>a. ca_Trench a = ct_Name t) as)"
    using ConvertAttractors_exact [of as ?t vs' gs'] assms(7) by auto
  have "ConvertAll d = Some \<lparr>cfg_trench = ?t, cfg_conduits = cs', cfg_streams = ss', cfg_flows = fs', cfg_vips = vs', cfg_attractors = as', cfg_gateways = gs'\<rparr>"
    using v(1) c(1) s(1) f(1) g(1) a(1) assms(1) by (simp add: ConvertAll_def ConvertTrench_def)
  then show ?thesis using v(2) c(2) s(2) f(2) g(2) a(2) by simp
qed

theorem convert_all_exact_witness:
  "\<exists>cfg. ConvertAll ex_docs = Some cfg \<and> map stream_name (cfg_streams cfg) = [''s1''] \<and> map conduit_name (cfg_conduits cfg) = [''c'']"
proof -
  let ?c = "\<lparr>cc_Name = ''c'', cc_Trench = ''t'', cc_DestinationPortNats = []\<rparr>"
  let ?s = "\<lambda>n c. \<lparr>cs_Name = n, cs_Conduit = c, cs_MaxTargets = 100\<rparr>"
  let ?v = "\<lparr>cv_Name = ''v'', cv_Address = ''20.0.0.1/32'', cv_Trench = ''t''\<rparr>"
  obtain cfg where r: "ConvertAll ex_docs = Some cfg" "map conduit_name (cfg_conduits cfg) = [''c'']"
      "map (\<lambda>s. (stream_name s, stream_maxTargets s)) (cfg_streams cfg) =
        map (\<lambda>s. (cs_Name s, cs_MaxTargets s)) (filter (\<lambda>s. cs_Conduit s \<in> conduit_name ` set (cfg_conduits cfg)) [?s ''s1'' ''c'', ?s ''s2'' ''d''])"
    using convert_all_exact [of ex_docs "\<lparr>ct_Name = ''t''\<rparr>" "[?c]" "[?s ''s1'' ''c'', ?s ''s2'' ''d'']" "[]" "[?v]" "[]" "[]"]
    by (auto simp: ex_docs_def)
  have "conduit_name ` set (cfg_conduits cfg) = {''c''}" using arg_cong [OF r(2), of set] by simp
  with r(3) have "map (\<lambda>s. (stream_name s, stream_maxTargets s)) (cfg_streams cfg) = [(''s1'', 100)]" by simp
  from arg_cong [OF this, of "map fst"] have "map fst (map (\<lambda>s. (stream_name s, stream_maxTargets s)) (cfg_streams cfg)) = [''s1'']" by simp
  then have "map stream_name (cfg_streams cfg) = [''s1'']" unfolding map_map comp_def by simp
  with r(1,2) show ?thesis by simp
qed

text \<open>
  C26: whatever events the monitor receives, every reference in the registry is to a resource in
  the registry: conduits, vips, gateways and attractors are of the trench, streams of a stored
  conduit, flows of a stored stream, and the vips and gateways they use are stored.
\<close>

theorem registry_references:
  assumes "monitor_run yaml events (cr_New ch) = Some cr"
  shows "references_ok (cr_trench cr) (cr_conduits cr) (cr_streams cr) (cr_flows cr) (cr_vips cr) (cr_attractors cr) (cr_gateways cr)"
proof -
  have "registry_ok (cr_New ch)" by (simp add: registry_ok_def references_ok_def cr_New_def)
  then show ?thesis using monitor_run_ok [OF assms] by (simp add: registry_ok_def)
qed

theorem registry_references_witness:
  "\<exists>cr. monitor_run ex_yaml [Some (Added, Some Map.empty)] (cr_New None) = Some cr \<and> length (cr_streams cr) = 1 \<and>
     stream_conduit (hd (cr_streams cr)) \<in> Some ` set (cr_conduits cr)"
proof -
  have "case monitor_run ex_yaml [Some (Added, Some Map.empty)] (cr_New None) of None \<Rightarrow> False | Some cr \<Rightarrow> length (cr_streams cr) = 1"
    by code_simp
  then obtain cr where r: "monitor_run ex_yaml [Some (Added, Some Map.empty)] (cr_New None) = Some cr" "length (cr_streams cr) = 1"
    by (auto split: option.splits)
  then have "hd (cr_streams cr) \<in> set (cr_streams cr)" by (cases "cr_streams cr") auto
  with registry_references [OF r(1)] r show ?thesis by (auto simp: references_ok_def)
qed

end
