(* ===== verification/ConfigWatch.thy ===== *)
theory ConfigWatch
  imports Config
begin

text \<open>
  The watchers of the configuration: \<open>WatcherNotifier\<close> of \<open>pkg/configuration/manager/watcher.go\<close> and the
  streaming calls of \<open>pkg/configuration/manager/server.go\<close>. The goroutine of the notifier, the
  setters of the registry and the calls of the clients run concurrently without a lock, so
  they are steps on a shared state: a setter writes and then sends its event, a notification reads the registry
  and then sends on a channel, and each send waits for room in a buffer of 10.
\<close>

section \<open>Definitions\<close>

subsection \<open>Notifiers\<close>

text \<open>What a watcher asks for: a pointer of one of the resource types, or something else. A channel
  has an element type, one of the expected ones or another, and an identity.\<close>

datatype resource =
    WTrench "Trench option" | WConduit "Conduit option" | WStream "Stream option" | WFlow "Flow option"
  | WVip "Vip option" | WAttractor "Attractor option" | WGateway "Gateway option" | WOther

datatype channel = Chan (chan_type: "ResourceType option") nat

datatype payload =
    PTrench "Trench option" | PConduits "Conduit list" | PStreams "Stream list" | PFlows "Flow list"
  | PVips "Vip list" | PAttractors "Attractor list" | PGateways "Gateway list"

datatype notifier =
    trenchNotifier "Trench option" | conduitNotifier "Conduit option" | streamNotifier "Stream option"
  | flowNotifier "Flow option" | vipNotifier "Vip option" | attractorNotifier "Attractor option" | gatewayNotifier "Gateway option"

fun notify :: "notifier \<Rightarrow> ConfigurationRegistry \<Rightarrow> payload" where
  "notify (trenchNotifier toWatch) cr = PTrench (GetTrench toWatch cr)"
| "notify (conduitNotifier toWatch) cr = PConduits (GetConduits toWatch cr)"
| "notify (streamNotifier toWatch) cr = PStreams (GetStreams toWatch cr)"
| "notify (flowNotifier toWatch) cr = PFlows (GetFlows toWatch cr)"
| "notify (vipNotifier toWatch) cr = PVips (GetVips toWatch cr)"
| "notify (attractorNotifier toWatch) cr = PAttractors (GetAttractors toWatch cr)"
| "notify (gatewayNotifier toWatch) cr = PGateways (GetGatewaysCfg toWatch cr)"

type_synonym watchers = "ResourceType \<Rightarrow> (channel \<times> notifier) list"

definition NewWatcherNotifier :: watchers where
  "NewWatcherNotifier = (\<lambda>_. [])"

fun checkResource :: "resource option \<Rightarrow> ResourceType option" where
  "checkResource (Some (WTrench _)) = Some RTrench"
| "checkResource (Some (WConduit _)) = Some RConduit"
| "checkResource (Some (WStream _)) = Some RStream"
| "checkResource (Some (WFlow _)) = Some RFlow"
| "checkResource (Some (WVip _)) = Some RVip"
| "checkResource (Some (WAttractor _)) = Some RAttractor"
| "checkResource (Some (WGateway _)) = Some RGateway"
| "checkResource _ = None"

definition checkChannel :: "channel option \<Rightarrow> ResourceType option" where
  "checkChannel ch = (case ch of None \<Rightarrow> None | Some c \<Rightarrow> chan_type c)"

text \<open>The notifier that the switch makes; a nil interface is of no type and gets none.\<close>

fun make_notifier :: "resource option \<Rightarrow> notifier option" where
  "make_notifier (Some (WTrench r)) = Some (trenchNotifier r)"
| "make_notifier (Some (WConduit r)) = Some (conduitNotifier r)"
| "make_notifier (Some (WStream r)) = Some (streamNotifier r)"
| "make_notifier (Some (WFlow r)) = Some (flowNotifier r)"
| "make_notifier (Some (WVip r)) = Some (vipNotifier r)"
| "make_notifier (Some (WAttractor r)) = Some (attractorNotifier r)"
| "make_notifier (Some (WGateway r)) = Some (gatewayNotifier r)"
| "make_notifier _ = None"

text \<open>\<open>RegisterWatcher\<close> up to the \<open>Store\<close>; the notifier it returns is then notified once.\<close>

definition RegisterWatcher :: "resource option \<Rightarrow> channel option \<Rightarrow> watchers \<Rightarrow> go_error + watchers \<times> notifier option" where
  "RegisterWatcher toWatch ch wn =
     (case ch of
        None \<Rightarrow> Inl [ErrMsg ''channel cannot be nil'']
      | Some c \<Rightarrow>
          (case checkChannel ch of
             None \<Rightarrow> Inl [ErrMsg ''type does not exist'']
           | Some t \<Rightarrow>
               if toWatch \<noteq> None \<and> checkResource toWatch \<noteq> Some t then Inl [ErrMsg ''wrong type registered'']
               else (case make_notifier toWatch of
                       None \<Rightarrow> Inr (wn, None)
                     | Some n \<Rightarrow> Inr (wn(t := (c, n) # filter (\<lambda>e. fst e \<noteq> c) (wn t)), Some n))))"

definition UnregisterWatcher :: "channel \<Rightarrow> watchers \<Rightarrow> watchers" where
  "UnregisterWatcher ch wn =
     (case checkChannel (Some ch) of None \<Rightarrow> wn | Some t \<Rightarrow> wn(t := filter (\<lambda>e. fst e \<noteq> ch) (wn t)))"

subsection \<open>The running system\<close>

text \<open>The write of a setter of the registry, before it sends its event.\<close>

datatype setting =
    STrench "Trench option" | SConduits "Conduit list" | SStreams "Stream list" | SFlows "Flow list"
  | SVips "Vip list" | SAttractors "Attractor list" | SGateways "Gateway list"

fun cr_write :: "setting \<Rightarrow> ConfigurationRegistry \<Rightarrow> ConfigurationRegistry" where
  "cr_write (STrench x) cr = cr\<lparr>cr_trench := x\<rparr>"
| "cr_write (SConduits x) cr = cr\<lparr>cr_conduits := x\<rparr>"
| "cr_write (SStreams x) cr = cr\<lparr>cr_streams := x\<rparr>"
| "cr_write (SFlows x) cr = cr\<lparr>cr_flows := x\<rparr>"
| "cr_write (SVips x) cr = cr\<lparr>cr_vips := x\<rparr>"
| "cr_write (SAttractors x) cr = cr\<lparr>cr_attractors := x\<rparr>"
| "cr_write (SGateways x) cr = cr\<lparr>cr_gateways := x\<rparr>"

fun setting_type :: "setting \<Rightarrow> ResourceType" where
  "setting_type (STrench _) = RTrench"
| "setting_type (SConduits _) = RConduit"
| "setting_type (SStreams _) = RStream"
| "setting_type (SFlows _) = RFlow"
| "setting_type (SVips _) = RVip"
| "setting_type (SAttractors _) = RAttractor"
| "setting_type (SGateways _) = RGateway"

fun notifier_type :: "notifier \<Rightarrow> ResourceType" where
  "notifier_type (trenchNotifier _) = RTrench"
| "notifier_type (conduitNotifier _) = RConduit"
| "notifier_type (streamNotifier _) = RStream"
| "notifier_type (flowNotifier _) = RFlow"
| "notifier_type (vipNotifier _) = RVip"
| "notifier_type (attractorNotifier _) = RAttractor"
| "notifier_type (gatewayNotifier _) = RGateway"

text \<open>
  The state: the registry, whose channel holds the events not yet taken; the event a setter is about to
  send; the watchers; the loop of \<open>notifyWatchers\<close> (its type and the entries still to visit) and the value
  it is about to send; the registrations that are not finished, with the value each has read; the
  buffers of the channels and the responses sent to the clients. The last field records the
  registrations that sent a value which was no longer current.
\<close>

record config_sys =
  sys_registry :: ConfigurationRegistry
  sys_sending :: "ResourceType option"
  sys_watchers :: watchers
  sys_loop :: "(ResourceType \<times> (channel \<times> notifier) list) option"
  sys_hold :: "(channel \<times> payload) option"
  sys_reg :: "channel \<rightharpoonup> notifier \<times> payload option"
  sys_queue :: "channel \<Rightarrow> payload list"
  sys_sent :: "channel \<Rightarrow> payload list"
  sys_used :: "channel set"
  sys_overtaken :: "channel set"

definition sys_new :: config_sys where
  "sys_new = \<lparr>sys_registry = cr_New (Some []), sys_sending = None, sys_watchers = NewWatcherNotifier, sys_loop = None, sys_hold = None,
     sys_reg = Map.empty, sys_queue = (\<lambda>_. []), sys_sent = (\<lambda>_. []), sys_used = {}, sys_overtaken = {}\<rparr>"

definition events :: "config_sys \<Rightarrow> ResourceType list" where
  "events s = (case cr_Chan (sys_registry s) of None \<Rightarrow> [] | Some es \<Rightarrow> es)"

definition bufferSize :: nat where
  "bufferSize = 10"

text \<open>
  A setter writes and sends its event. The notifier takes an event and visits the watchers of its type: a
  \<open>Range\<close> visits the entries in any order, need not visit one that is deleted meanwhile and may visit one
  that is stored meanwhile. A streaming call makes a channel, registers it, sends what it receives to its client
  and unregisters when the client is gone.
\<close>

definition take_event :: "(channel \<times> notifier) list \<Rightarrow> config_sys \<Rightarrow> config_sys option" where
  "take_event order s =
     (case events s of
        t # es \<Rightarrow>
          if sys_loop s = None \<and> sys_hold s = None \<and> set order = set (sys_watchers s t) \<and> distinct order
          then Some (s\<lparr>sys_registry := (sys_registry s)\<lparr>cr_Chan := Some es\<rparr>, sys_loop := Some (t, order)\<rparr>) else None
      | [] \<Rightarrow> None)"

definition visit_watcher :: "config_sys \<Rightarrow> config_sys option" where
  "visit_watcher s =
     (case sys_loop s of
        Some (t, (ch, n) # todo) \<Rightarrow>
          if sys_hold s = None then Some (s\<lparr>sys_hold := Some (ch, notify n (sys_registry s)), sys_loop := Some (t, todo)\<rparr>) else None
      | _ \<Rightarrow> None)"

definition watch_start :: "resource \<Rightarrow> channel \<Rightarrow> config_sys \<Rightarrow> config_sys option" where
  "watch_start r ch s =
     (if ch \<in> sys_used s then None
      else case RegisterWatcher (Some r) (Some ch) (sys_watchers s) of
             Inr (wn, Some n) \<Rightarrow> Some (s\<lparr>sys_watchers := wn, sys_reg := (sys_reg s)(ch \<mapsto> (n, None)), sys_used := insert ch (sys_used s)\<rparr>)
           | _ \<Rightarrow> None)"

definition receive_event :: "channel \<Rightarrow> config_sys \<Rightarrow> config_sys option" where
  "receive_event ch s =
     (case sys_queue s ch of
        v # q \<Rightarrow> if sys_reg s ch = None
                 then Some (s\<lparr>sys_queue := (sys_queue s)(ch := q), sys_sent := (sys_sent s)(ch := sys_sent s ch @ [v])\<rparr>) else None
      | [] \<Rightarrow> None)"

datatype action =
    Write setting | SendEvent | Take "(channel \<times> notifier) list" | Visit | Skip | Late channel notifier | Put | Finish
  | Store resource channel | Read channel | Send channel | Receive channel | Done channel

fun config_act :: "action \<Rightarrow> config_sys \<Rightarrow> config_sys option" where
  "config_act (Write x) s =
     (if sys_sending s = None then Some (s\<lparr>sys_registry := cr_write x (sys_registry s), sys_sending := Some (setting_type x)\<rparr>) else None)"
| "config_act SendEvent s =
     (case sys_sending s of
        Some t \<Rightarrow> if length (events s) < bufferSize then Some (s\<lparr>sys_registry := cr_notify t (sys_registry s), sys_sending := None\<rparr>) else None
      | None \<Rightarrow> None)"
| "config_act (Take order) s = take_event order s"
| "config_act Visit s = visit_watcher s"
| "config_act Skip s =
     (case sys_loop s of
        Some (t, e # todo) \<Rightarrow> if e \<in> set (sys_watchers s t) then None else Some (s\<lparr>sys_loop := Some (t, todo)\<rparr>)
      | _ \<Rightarrow> None)"
| "config_act (Late ch n) s =
     (case sys_loop s of
        Some (t, todo) \<Rightarrow> if (ch, n) \<in> set (sys_watchers s t) then Some (s\<lparr>sys_loop := Some (t, todo @ [(ch, n)])\<rparr>) else None
      | None \<Rightarrow> None)"
| "config_act Put s =
     (case sys_hold s of
        Some (ch, v) \<Rightarrow>
          if length (sys_queue s ch) < bufferSize
          then Some (s\<lparr>sys_hold := None, sys_queue := (sys_queue s)(ch := sys_queue s ch @ [v]), sys_overtaken := sys_overtaken s - {ch}\<rparr>)
          else None
      | None \<Rightarrow> None)"
| "config_act Finish s =
     (case sys_loop s of
        Some (t, []) \<Rightarrow> if sys_hold s = None then Some (s\<lparr>sys_loop := None\<rparr>) else None
      | _ \<Rightarrow> None)"
| "config_act (Store r ch) s = watch_start r ch s"
| "config_act (Read ch) s =
     (case sys_reg s ch of
        Some (n, None) \<Rightarrow> Some (s\<lparr>sys_reg := (sys_reg s)(ch \<mapsto> (n, Some (notify n (sys_registry s))))\<rparr>)
      | _ \<Rightarrow> None)"
| "config_act (Send ch) s =
     (case sys_reg s ch of
        Some (n, Some v) \<Rightarrow>
          if length (sys_queue s ch) < bufferSize
          then Some (s\<lparr>sys_reg := (sys_reg s)(ch := None), sys_queue := (sys_queue s)(ch := sys_queue s ch @ [v]),
                       sys_overtaken := (if v = notify n (sys_registry s) then sys_overtaken s else insert ch (sys_overtaken s))\<rparr>)
          else None
      | _ \<Rightarrow> None)"
| "config_act (Receive ch) s = receive_event ch s"
| "config_act (Done ch) s =
     (if sys_reg s ch = None then Some (s\<lparr>sys_watchers := UnregisterWatcher ch (sys_watchers s)\<rparr>) else None)"

fun config_run :: "action list \<Rightarrow> config_sys \<Rightarrow> config_sys option" where
  "config_run [] s = Some s"
| "config_run (a # as) s = Option.bind (config_act a s) (config_run as)"

inductive config_reach :: "config_sys \<Rightarrow> bool" where
  new: "config_reach sys_new"
| act: "config_reach s \<Longrightarrow> config_act a s = Some s' \<Longrightarrow> config_reach s'"

subsection \<open>Invariant\<close>

definition scheduled :: "ResourceType \<Rightarrow> config_sys \<Rightarrow> bool" where
  "scheduled t s \<longleftrightarrow> sys_sending s = Some t \<or> t \<in> set (events s)"

definition in_todo :: "ResourceType \<Rightarrow> channel \<Rightarrow> config_sys \<Rightarrow> bool" where
  "in_todo t ch s \<longleftrightarrow> (case sys_loop s of None \<Rightarrow> False | Some (u, todo) \<Rightarrow> u = t \<and> ch \<in> fst ` set todo)"

definition delivered :: "config_sys \<Rightarrow> channel \<Rightarrow> payload list" where
  "delivered s ch = sys_sent s ch @ sys_queue s ch"

definition settled :: "channel \<Rightarrow> notifier \<Rightarrow> config_sys \<Rightarrow> bool" where
  "settled ch n s \<longleftrightarrow> ch \<in> sys_overtaken s \<or> (delivered s ch \<noteq> [] \<and> last (delivered s ch) = notify n (sys_registry s))"

text \<open>A watcher has the current value, or will be sent it.\<close>

definition good :: "channel \<Rightarrow> notifier \<Rightarrow> config_sys \<Rightarrow> bool" where
  "good ch n s \<longleftrightarrow> scheduled (notifier_type n) s \<or> in_todo (notifier_type n) ch s \<or>
     (case sys_hold s of
        Some (c, v) \<Rightarrow> if c = ch then v = notify n (sys_registry s) else settled ch n s
      | None \<Rightarrow> settled ch n s)"

definition shape_inv :: "config_sys \<Rightarrow> bool" where
  "shape_inv s \<longleftrightarrow> cr_Chan (sys_registry s) \<noteq> None \<and>
     (\<forall>t ch n. (ch, n) \<in> set (sys_watchers s t) \<longrightarrow> chan_type ch = Some t \<and> notifier_type n = t \<and> ch \<in> sys_used s) \<and>
     (\<forall>t ch n m. (ch, n) \<in> set (sys_watchers s t) \<longrightarrow> (ch, m) \<in> set (sys_watchers s t) \<longrightarrow> n = m) \<and>
     (\<forall>t todo ch n. sys_loop s = Some (t, todo) \<longrightarrow> (ch, n) \<in> set todo \<longrightarrow>
        ch \<in> sys_used s \<and> (\<forall>u m. (ch, m) \<in> set (sys_watchers s u) \<longrightarrow> n = m)) \<and>
     (\<forall>ch v. sys_hold s = Some (ch, v) \<longrightarrow> ch \<in> sys_used s) \<and>
     (\<forall>ch n v. sys_reg s ch = Some (n, v) \<longrightarrow> (ch, n) \<in> set (sys_watchers s (notifier_type n)))"

definition hold_inv :: "config_sys \<Rightarrow> bool" where
  "hold_inv s \<longleftrightarrow> (\<forall>ch v t n. sys_hold s = Some (ch, v) \<longrightarrow> (ch, n) \<in> set (sys_watchers s t) \<longrightarrow>
     v = notify n (sys_registry s) \<or> scheduled t s)"

definition good_inv :: "config_sys \<Rightarrow> bool" where
  "good_inv s \<longleftrightarrow> (\<forall>t ch n. (ch, n) \<in> set (sys_watchers s t) \<longrightarrow> sys_reg s ch = None \<longrightarrow> good ch n s)"

section \<open>Lemmas\<close>

declare take_event_def [simp] visit_watcher_def [simp] watch_start_def [simp] receive_event_def [simp]

lemma setters_write:
  "SetTrench x1 cr = cr_notify RTrench (cr_write (STrench x1) cr)"
  "SetConduitsCfg x2 cr = cr_notify RConduit (cr_write (SConduits x2) cr)"
  "SetStreams x3 cr = cr_notify RStream (cr_write (SStreams x3) cr)"
  "SetFlows x4 cr = cr_notify RFlow (cr_write (SFlows x4) cr)"
  "SetVipsCfg x5 cr = cr_notify RVip (cr_write (SVips x5) cr)"
  "SetAttractors x6 cr = cr_notify RAttractor (cr_write (SAttractors x6) cr)"
  "SetGateways x7 cr = cr_notify RGateway (cr_write (SGateways x7) cr)"
  by (simp_all add: SetTrench_def SetConduitsCfg_def SetStreams_def SetFlows_def SetVipsCfg_def SetAttractors_def SetGateways_def)

lemmas get_defs = GetTrench_def GetConduits_def GetStreams_def GetFlows_def GetVips_def GetAttractors_def GetGatewaysCfg_def

lemma notify_write: "notifier_type n \<noteq> setting_type x \<Longrightarrow> notify n (cr_write x cr) = notify n cr"
  by (cases n; cases x) (simp_all add: get_defs)

lemma notify_Chan [simp]: "notify n (cr\<lparr>cr_Chan := es\<rparr>) = notify n cr"
  by (cases n) (simp_all add: get_defs)

lemma notify_cr_notify [simp]: "notify n (cr_notify t cr) = notify n cr"
  by (simp add: cr_notify_def split: option.split)

lemma cr_write_Chan [simp]: "cr_Chan (cr_write x cr) = cr_Chan cr"
  by (cases x) simp_all

lemma cr_notify_Chan [simp]: "cr_Chan (cr_notify t cr) = map_option (\<lambda>es. es @ [t]) (cr_Chan cr)"
  by (simp add: cr_notify_def split: option.split)

lemma make_notifier_type: "make_notifier (Some r) = Some n \<Longrightarrow> checkResource (Some r) = Some (notifier_type n)"
  by (cases r) auto

lemma RegisterWatcher_stored:
  assumes "RegisterWatcher (Some r) (Some ch) wn = Inr (wn', Some n)"
  shows "chan_type ch = Some (notifier_type n) \<and>
    wn' = wn(notifier_type n := (ch, n) # filter (\<lambda>e. fst e \<noteq> ch) (wn (notifier_type n)))"
  using assms make_notifier_type [of r n]
  by (auto simp: RegisterWatcher_def checkChannel_def split: option.splits if_splits)

lemma UnregisterWatcher_mem: "e \<in> set (UnregisterWatcher ch wn t) \<Longrightarrow> e \<in> set (wn t)"
  by (auto simp: UnregisterWatcher_def checkChannel_def split: option.splits if_splits)

lemma UnregisterWatcher_other: "fst e \<noteq> ch \<Longrightarrow> e \<in> set (UnregisterWatcher ch wn t) \<longleftrightarrow> e \<in> set (wn t)"
  by (auto simp: UnregisterWatcher_def checkChannel_def split: option.splits)

lemma events_eq: "cr_Chan (sys_registry s) \<noteq> None \<Longrightarrow> cr_Chan (sys_registry s) = Some (events s)"
  by (auto simp: events_def)

lemma shape_watcher: "shape_inv s \<Longrightarrow> (ch, n) \<in> set (sys_watchers s t) \<Longrightarrow> chan_type ch = Some t \<and> notifier_type n = t \<and> ch \<in> sys_used s"
  unfolding shape_inv_def by blast

lemma shape_unique:
  assumes "shape_inv s" "(ch, n) \<in> set (sys_watchers s t)" "(ch, m) \<in> set (sys_watchers s u)"
  shows "n = m"
proof -
  have "t = u" using shape_watcher [OF assms(1,2)] shape_watcher [OF assms(1,3)] by simp
  with assms show ?thesis unfolding shape_inv_def by blast
qed

lemma shape_sub:
  assumes "shape_inv s" "cr_Chan (sys_registry s') \<noteq> None" "\<And>t e. e \<in> set (sys_watchers s' t) \<Longrightarrow> e \<in> set (sys_watchers s t)" "sys_used s' = sys_used s"
    "\<And>t todo ch n. sys_loop s' = Some (t, todo) \<Longrightarrow> (ch, n) \<in> set todo \<Longrightarrow>
       (\<exists>u. (ch, n) \<in> set (sys_watchers s u)) \<or> (\<exists>todo0. sys_loop s = Some (t, todo0) \<and> (ch, n) \<in> set todo0)"
    "\<And>ch v. sys_hold s' = Some (ch, v) \<Longrightarrow> ch \<in> sys_used s"
    "\<And>ch n v. sys_reg s' ch = Some (n, v) \<Longrightarrow> (ch, n) \<in> set (sys_watchers s' (notifier_type n))"
  shows "shape_inv s'"
proof -
  have "ch \<in> sys_used s \<and> (\<forall>u m. (ch, m) \<in> set (sys_watchers s u) \<longrightarrow> n = m)"
    if "sys_loop s' = Some (t, todo)" "(ch, n) \<in> set todo" for t todo ch n
    using assms(5) [OF that]
  proof
    assume "\<exists>u. (ch, n) \<in> set (sys_watchers s u)"
    then show ?thesis using shape_watcher [OF assms(1)] shape_unique [OF assms(1)] by blast
  next
    assume "\<exists>todo0. sys_loop s = Some (t, todo0) \<and> (ch, n) \<in> set todo0"
    then show ?thesis using assms(1) unfolding shape_inv_def by blast
  qed
  then show ?thesis
    using shape_watcher [OF assms(1)] shape_unique [OF assms(1)] assms(2,3,6,7) unfolding shape_inv_def assms(4) by blast
qed

lemma shape_reg: "shape_inv s \<Longrightarrow> sys_reg s ch = Some (n, v) \<Longrightarrow> (ch, n) \<in> set (sys_watchers s (notifier_type n))"
  unfolding shape_inv_def by blast

lemma shape_hold: "shape_inv s \<Longrightarrow> sys_hold s = Some (ch, v) \<Longrightarrow> ch \<in> sys_used s"
  unfolding shape_inv_def by blast

lemma shape_loop:
  "shape_inv s \<Longrightarrow> sys_loop s = Some (t, todo) \<Longrightarrow> (ch, n) \<in> set todo \<Longrightarrow> ch \<in> sys_used s \<and> ((ch, m) \<in> set (sys_watchers s u) \<longrightarrow> n = m)"
  unfolding shape_inv_def by blast

lemma shape_chan: "shape_inv s \<Longrightarrow> cr_Chan (sys_registry s) = Some (events s)"
  unfolding shape_inv_def by (simp add: events_eq)

lemma shape_store:
  assumes "shape_inv s" "ch \<notin> sys_used s" "RegisterWatcher (Some r) (Some ch) (sys_watchers s) = Inr (wn, Some n)"
  shows "shape_inv (s\<lparr>sys_watchers := wn, sys_reg := (sys_reg s)(ch \<mapsto> (n, None)), sys_used := insert ch (sys_used s)\<rparr>)"
proof -
  let ?t = "notifier_type n"
  have ct: "chan_type ch = Some ?t" and wn: "wn = (sys_watchers s)(?t := (ch, n) # filter (\<lambda>e. fst e \<noteq> ch) (sys_watchers s ?t))"
    using RegisterWatcher_stored [OF assms(3)] by auto
  have fresh: "(ch, m) \<notin> set (sys_watchers s u)" for m u using shape_watcher [OF assms(1)] assms(2) by blast
  then have "filter (\<lambda>e. fst e \<noteq> ch) (sys_watchers s ?t) = sys_watchers s ?t"
    by (auto simp: filter_id_conv)
  then have mem: "(c, m) \<in> set (wn u) \<longleftrightarrow> (c, m) \<in> set (sys_watchers s u) \<or> (u = ?t \<and> c = ch \<and> m = n)" for c m u
    unfolding wn by auto
  have reg: "sys_reg s ch = None" using assms(1) fresh unfolding shape_inv_def by (metis option.exhaust prod.exhaust)
  show ?thesis
    unfolding shape_inv_def
    by (simp add: mem) (use assms(1,2) fresh ct in \<open>unfold shape_inv_def; blast\<close>)
qed

lemma shape_done:
  assumes "shape_inv s" "sys_reg s ch = None"
  shows "shape_inv (s\<lparr>sys_watchers := UnregisterWatcher ch (sys_watchers s)\<rparr>)"
proof -
  have "(c, n) \<in> set (UnregisterWatcher ch (sys_watchers s) (notifier_type n))" if "sys_reg s c = Some (n, v)" for c n v
  proof -
    have "c \<noteq> ch" using that assms(2) by auto
    moreover have "(c, n) \<in> set (sys_watchers s (notifier_type n))" using assms(1) that unfolding shape_inv_def by blast
    ultimately show ?thesis by (simp add: UnregisterWatcher_other)
  qed
  then show ?thesis
    using shape_hold [OF assms(1)] by (intro shape_sub [OF assms(1)]) (auto simp: shape_chan [OF assms(1)] dest: UnregisterWatcher_mem)
qed

lemma config_act_shape:
  assumes "config_act a s = Some s'" "shape_inv s"
  shows "shape_inv s'"
proof -
  note reg = shape_reg [OF assms(2)] and hold = shape_hold [OF assms(2)] and chan = shape_chan [OF assms(2)]
  note sub = shape_sub [OF assms(2)]
  show ?thesis
  proof (cases a)
    case (Store r ch)
    then show ?thesis using assms(1) shape_store [OF assms(2)] by (auto split: if_splits sum.splits option.splits)
  next
    case (Done ch)
    then show ?thesis using assms(1) shape_done [OF assms(2)] by (auto split: if_splits)
  next
    case (Write x)
    show ?thesis by (rule sub) (use assms(1) Write reg hold chan in \<open>auto split: if_splits\<close>)
  next
    case SendEvent
    show ?thesis by (rule sub) (use assms(1) SendEvent reg hold chan in \<open>auto split: if_splits option.splits\<close>)
  next
    case (Take order)
    show ?thesis by (rule sub) (use assms(1) Take reg hold chan in \<open>auto split: if_splits list.splits\<close>)
  next
    case Visit
    then obtain t ch n todo where v: "sys_loop s = Some (t, (ch, n) # todo)" "s' = s\<lparr>sys_hold := Some (ch, notify n (sys_registry s)), sys_loop := Some (t, todo)\<rparr>"
      using assms(1) by (auto split: if_splits option.splits list.splits prod.splits)
    have "ch \<in> sys_used s" using shape_loop [OF assms(2) v(1)] by auto
    then show ?thesis by (intro sub) (use v reg chan in auto)
  next
    case Skip
    show ?thesis by (rule sub) (use assms(1) Skip reg hold chan in \<open>auto split: if_splits option.splits list.splits prod.splits\<close>)
  next
    case (Late ch n)
    show ?thesis by (rule sub) (use assms(1) Late reg hold chan in \<open>auto split: if_splits option.splits list.splits prod.splits\<close>)
  next
    case Put
    show ?thesis by (rule sub) (use assms(1) Put reg hold chan in \<open>auto split: if_splits option.splits\<close>)
  next
    case Finish
    show ?thesis by (rule sub) (use assms(1) Finish reg hold chan in \<open>auto split: if_splits option.splits list.splits prod.splits\<close>)
  next
    case (Read ch)
    show ?thesis by (rule sub) (use assms(1) Read reg hold chan in \<open>auto split: if_splits option.splits prod.splits\<close>)
  next
    case (Send ch)
    show ?thesis by (rule sub) (use assms(1) Send reg hold chan in \<open>auto split: if_splits option.splits prod.splits\<close>)
  next
    case (Receive ch)
    show ?thesis by (rule sub) (use assms(1) Receive reg hold chan in \<open>auto split: if_splits list.splits\<close>)
  qed
qed

lemma scheduled_SendEvent:
  assumes "config_act SendEvent s = Some s'" "cr_Chan (sys_registry s) \<noteq> None"
  shows "scheduled t s' \<longleftrightarrow> scheduled t s" "notify n (sys_registry s') = notify n (sys_registry s)"
  using assms by (auto simp: scheduled_def events_def split: option.splits if_splits)

lemma hold_invD: "hold_inv s \<Longrightarrow> sys_hold s = Some (ch, v) \<Longrightarrow> (ch, n) \<in> set (sys_watchers s t) \<Longrightarrow> v = notify n (sys_registry s) \<or> scheduled t s"
  unfolding hold_inv_def by blast

lemma hold_frame:
  assumes "hold_inv s" "sys_hold s' = sys_hold s \<or> sys_hold s' = None" "sys_registry s' = sys_registry s" "sys_sending s' = sys_sending s"
    "\<And>t e. e \<in> set (sys_watchers s' t) \<Longrightarrow> e \<in> set (sys_watchers s t)"
  shows "hold_inv s'"
  using assms(2) hold_invD [OF assms(1)] assms(5)
  unfolding hold_inv_def scheduled_def events_def assms(3,4) by (metis option.distinct(1))

lemma hold_write:
  assumes "shape_inv s" "hold_inv s" "sys_sending s = None"
  shows "hold_inv (s\<lparr>sys_registry := cr_write x (sys_registry s), sys_sending := Some (setting_type x)\<rparr>)"
  unfolding hold_inv_def
proof (intro allI impI)
  fix ch v t n
  let ?s = "s\<lparr>sys_registry := cr_write x (sys_registry s), sys_sending := Some (setting_type x)\<rparr>"
  assume "sys_hold ?s = Some (ch, v)" "(ch, n) \<in> set (sys_watchers ?s t)"
  then have h: "sys_hold s = Some (ch, v)" "(ch, n) \<in> set (sys_watchers s t)" by simp_all
  show "v = notify n (sys_registry ?s) \<or> scheduled t ?s"
  proof (cases "t = setting_type x")
    case False
    then have "notify n (sys_registry ?s) = notify n (sys_registry s)"
      using shape_watcher [OF assms(1) h(2)] by (simp add: notify_write)
    moreover have "scheduled t s \<Longrightarrow> scheduled t ?s" using assms(3) by (simp add: scheduled_def events_def)
    ultimately show ?thesis using hold_invD [OF assms(2) h] by metis
  qed (simp add: scheduled_def)
qed

lemma config_act_hold:
  assumes "config_act a s = Some s'" "shape_inv s" "hold_inv s"
  shows "hold_inv s'"
proof -
  note fr = hold_frame [OF assms(3)]
  show ?thesis
  proof (cases a)
    case (Write x)
    then show ?thesis using assms(1) hold_write [OF assms(2,3)] by (auto split: if_splits)
  next
    case SendEvent
    then have se: "config_act SendEvent s = Some s'" using assms(1) by simp
    have "sys_hold s' = sys_hold s" "sys_watchers s' = sys_watchers s" using se by (auto split: if_splits option.splits)
    then show ?thesis using assms(3) scheduled_SendEvent [OF se] shape_chan [OF assms(2)] by (simp add: hold_inv_def)
  next
    case (Take order)
    then have "sys_hold s' = None" using assms(1) by (auto split: if_splits list.splits)
    then show ?thesis by (simp add: hold_inv_def)
  next
    case Visit
    then obtain t ch n todo where v: "sys_loop s = Some (t, (ch, n) # todo)" "s' = s\<lparr>sys_hold := Some (ch, notify n (sys_registry s)), sys_loop := Some (t, todo)\<rparr>"
      using assms(1) by (auto split: if_splits option.splits list.splits prod.splits)
    have "(ch, m) \<in> set (sys_watchers s u) \<Longrightarrow> n = m" for m u using shape_loop [OF assms(2) v(1), of ch n] by simp
    then show ?thesis unfolding hold_inv_def v(2) by simp
  next
    case (Store r ch)
    then obtain wn n where w: "ch \<notin> sys_used s" "RegisterWatcher (Some r) (Some ch) (sys_watchers s) = Inr (wn, Some n)"
        "s' = s\<lparr>sys_watchers := wn, sys_reg := (sys_reg s)(ch \<mapsto> (n, None)), sys_used := insert ch (sys_used s)\<rparr>"
      using assms(1) by (auto split: if_splits sum.splits option.splits)
    have "c \<noteq> ch \<Longrightarrow> (c, m) \<in> set (wn t) \<Longrightarrow> (c, m) \<in> set (sys_watchers s t)" for c m t
      using RegisterWatcher_stored [OF w(2)] by (auto split: if_splits)
    moreover have "sys_hold s = Some (c, v) \<Longrightarrow> c \<noteq> ch" for c v using shape_hold [OF assms(2)] w(1) by blast
    ultimately show ?thesis using hold_invD [OF assms(3)] unfolding hold_inv_def w(3) scheduled_def events_def by simp
  next
    case (Done ch)
    show ?thesis by (rule fr) (use assms(1) Done in \<open>auto split: if_splits dest: UnregisterWatcher_mem\<close>)
  qed (rule fr; use assms(1) in \<open>auto split: if_splits option.splits list.splits prod.splits\<close>)+
qed

lemma good_invD: "good_inv s \<Longrightarrow> (ch, n) \<in> set (sys_watchers s t) \<Longrightarrow> sys_reg s ch = None \<Longrightarrow> good ch n s"
  unfolding good_inv_def by blast

lemma good_invI: "(\<And>t ch n. (ch, n) \<in> set (sys_watchers s t) \<Longrightarrow> sys_reg s ch = None \<Longrightarrow> good ch n s) \<Longrightarrow> good_inv s"
  unfolding good_inv_def by blast

text \<open>A step that leaves registry, notifier and deliveries alone keeps what is good.\<close>

lemma good_frame:
  assumes "good ch n s" "sys_registry s' = sys_registry s" "sys_sending s' = sys_sending s" "sys_hold s' = sys_hold s"
    "in_todo (notifier_type n) ch s \<Longrightarrow> in_todo (notifier_type n) ch s'" "ch \<in> sys_overtaken s \<Longrightarrow> ch \<in> sys_overtaken s'" "delivered s' ch = delivered s ch"
  shows "good ch n s'"
  using assms unfolding good_def settled_def scheduled_def events_def by (auto split: option.splits if_splits)

lemma good_write:
  assumes "good ch n s" "sys_sending s = None"
  shows "good ch n (s\<lparr>sys_registry := cr_write x (sys_registry s), sys_sending := Some (setting_type x)\<rparr>)"
proof (cases "notifier_type n = setting_type x")
  case False
  with assms show ?thesis
    by (auto simp: good_def scheduled_def events_def in_todo_def settled_def delivered_def notify_write split: option.splits if_splits)
qed (simp add: good_def scheduled_def)

lemma good_SendEvent:
  assumes "good ch n s" "config_act SendEvent s = Some s'" "cr_Chan (sys_registry s) \<noteq> None"
  shows "good ch n s'"
proof -
  have f: "sys_hold s' = sys_hold s" "sys_loop s' = sys_loop s" "sys_sent s' = sys_sent s" "sys_queue s' = sys_queue s" "sys_overtaken s' = sys_overtaken s"
    using assms(2) by (auto split: option.splits if_splits)
  note e = scheduled_SendEvent [OF assms(2,3)]
  have st: "settled ch n s' = settled ch n s" by (simp add: settled_def delivered_def f e(2))
  show ?thesis using assms(1) unfolding good_def in_todo_def f e st .
qed

lemma good_Take:
  assumes "good ch n s" "config_act (Take order) s = Some s'" "(ch, n) \<in> set (sys_watchers s (notifier_type n))"
  shows "good ch n s'"
proof -
  from assms(2) obtain t es where t: "events s = t # es" "sys_loop s = None" "sys_hold s = None" "set order = set (sys_watchers s t)"
      "s' = s\<lparr>sys_registry := (sys_registry s)\<lparr>cr_Chan := Some es\<rparr>, sys_loop := Some (t, order)\<rparr>"
    by (auto split: if_splits list.splits)
  show ?thesis
  proof (cases "notifier_type n = t")
    case True
    then have "ch \<in> fst ` set order" using assms(3) t(4) by force
    with True show ?thesis by (simp add: good_def in_todo_def t(5))
  next
    case False
    then have "scheduled (notifier_type n) s \<longleftrightarrow> scheduled (notifier_type n) s'" using t(1,5) by (simp add: scheduled_def events_def)
    with assms(1) show ?thesis using t(2,3,5) by (auto simp: good_def in_todo_def settled_def delivered_def)
  qed
qed

lemma good_Visit:
  assumes "good ch n s" "config_act Visit s = Some s'" "shape_inv s" "(ch, n) \<in> set (sys_watchers s u)"
  shows "good ch n s'"
proof -
  from assms(2) obtain t c m todo where v: "sys_loop s = Some (t, (c, m) # todo)" "sys_hold s = None"
      "s' = s\<lparr>sys_hold := Some (c, notify m (sys_registry s)), sys_loop := Some (t, todo)\<rparr>"
    by (auto split: if_splits option.splits list.splits prod.splits)
  show ?thesis
  proof (cases "c = ch")
    case True
    then have "m = n" using shape_loop [OF assms(3) v(1), of c m n u] assms(4) by simp
    with True show ?thesis by (simp add: good_def v(3))
  next
    case False
    then have "in_todo (notifier_type n) ch s \<longleftrightarrow> in_todo (notifier_type n) ch s'" using v by (auto simp: in_todo_def)
    then show ?thesis using assms(1) False v(2,3) by (auto simp: good_def scheduled_def events_def settled_def delivered_def)
  qed
qed

lemma good_Put:
  assumes "good ch n s" "config_act Put s = Some s'"
  shows "good ch n s'"
proof -
  from assms(2) obtain c v where p: "sys_hold s = Some (c, v)"
      "s' = s\<lparr>sys_hold := None, sys_queue := (sys_queue s)(c := sys_queue s c @ [v]), sys_overtaken := sys_overtaken s - {c}\<rparr>"
    by (auto split: if_splits option.splits)
  show ?thesis using assms(1) p
    by (cases "c = ch") (auto simp: good_def scheduled_def events_def in_todo_def settled_def delivered_def)
qed

lemma good_Send:
  assumes "good_inv s" "hold_inv s" "shape_inv s" "config_act (Send c) s = Some s'" "(ch, n) \<in> set (sys_watchers s' t)" "sys_reg s' ch = None"
  shows "good ch n s'"
proof -
  from assms(4) obtain m v where p: "sys_reg s c = Some (m, Some v)"
      "s' = s\<lparr>sys_reg := (sys_reg s)(c := None), sys_queue := (sys_queue s)(c := sys_queue s c @ [v]),
              sys_overtaken := (if v = notify m (sys_registry s) then sys_overtaken s else insert c (sys_overtaken s))\<rparr>"
    by (auto split: if_splits option.splits prod.splits)
  have w: "(ch, n) \<in> set (sys_watchers s t)" using assms(5) p(2) by simp
  then have t: "t = notifier_type n" using shape_watcher [OF assms(3)] by blast
  show ?thesis
  proof (cases "c = ch")
    case True
    then have "m = n" using shape_unique [OF assms(3) w] shape_reg [OF assms(3) p(1)] by blast
    then have s: "settled ch n s'" using True p(2) by (simp add: settled_def delivered_def)
    show ?thesis
    proof (cases "\<exists>x. sys_hold s = Some (ch, x)")
      case True
      then obtain x where h: "sys_hold s = Some (ch, x)" ..
      have r: "sys_registry s' = sys_registry s" "sys_sending s' = sys_sending s" "sys_hold s' = Some (ch, x)" using p(2) h by simp_all
      have "x = notify n (sys_registry s') \<or> scheduled (notifier_type n) s'"
        using hold_invD [OF assms(2) h w] unfolding t scheduled_def events_def r .
      then show ?thesis unfolding good_def r(3) by auto
    next
      case False
      then have "\<And>x. sys_hold s' \<noteq> Some (ch, x)" using p(2) by simp
      then show ?thesis using s unfolding good_def by (simp split: option.split)
    qed
  next
    case False
    then have "sys_reg s ch = None" using assms(6) p(2) by simp
    from good_invD [OF assms(1) w this] show ?thesis
      by (rule good_frame) (use False p(2) in \<open>auto simp: in_todo_def delivered_def\<close>)
  qed
qed

lemma config_act_good:
  assumes "config_act a s = Some s'" "shape_inv s" "hold_inv s" "good_inv s"
  shows "good_inv s'"
proof (rule good_invI)
  fix t ch n
  assume w': "(ch, n) \<in> set (sys_watchers s' t)" and r': "sys_reg s' ch = None"
  note chan = shape_chan [OF assms(2)]
  have keep: "good ch n s'" if "sys_watchers s' = sys_watchers s" "sys_reg s' = sys_reg s" "good ch n s \<Longrightarrow> (ch, n) \<in> set (sys_watchers s t) \<Longrightarrow> good ch n s'"
    using good_invD [OF assms(4)] w' r' that by simp
  show "good ch n s'"
  proof (cases a)
    case (Write x)
    then have k: "sys_sending s = None" "s' = s\<lparr>sys_registry := cr_write x (sys_registry s), sys_sending := Some (setting_type x)\<rparr>"
      using assms(1) by (auto split: if_splits)
    show ?thesis by (rule keep) (simp_all add: k(2) good_write [OF _ k(1)])
  next
    case SendEvent
    then have k: "config_act SendEvent s = Some s'" using assms(1) by simp
    have "cr_Chan (sys_registry s) \<noteq> None" using chan by simp
    note g = good_SendEvent [OF _ k this]
    have "sys_watchers s' = sys_watchers s" "sys_reg s' = sys_reg s" using k by (auto split: if_splits option.splits)
    then show ?thesis by (rule keep) (rule g)
  next
    case (Take order)
    have "good ch n s \<Longrightarrow> (ch, n) \<in> set (sys_watchers s t) \<Longrightarrow> good ch n s'"
      using good_Take [of ch n s order s'] assms(1) Take shape_watcher [OF assms(2)] by blast
    moreover have "sys_watchers s' = sys_watchers s" "sys_reg s' = sys_reg s" using assms(1) Take by (auto split: if_splits list.splits)
    ultimately show ?thesis using keep by blast
  next
    case Visit
    have "good ch n s \<Longrightarrow> (ch, n) \<in> set (sys_watchers s t) \<Longrightarrow> good ch n s'"
      using good_Visit [of ch n s s' t] assms(1,2) Visit by blast
    moreover have "sys_watchers s' = sys_watchers s" "sys_reg s' = sys_reg s"
      using assms(1) Visit by (auto split: if_splits option.splits list.splits prod.splits)
    ultimately show ?thesis using keep by blast
  next
    case Skip
    then obtain u e todo where k: "sys_loop s = Some (u, e # todo)" "e \<notin> set (sys_watchers s u)" "s' = s\<lparr>sys_loop := Some (u, todo)\<rparr>"
      using assms(1) by (auto split: if_splits option.splits list.splits prod.splits)
    have itd: "in_todo (notifier_type n) ch s'" if "in_todo (notifier_type n) ch s" "(ch, n) \<in> set (sys_watchers s t)"
    proof -
      have "t = notifier_type n" using shape_watcher [OF assms(2) that(2)] by simp
      with that k have "u = t" "ch \<in> fst ` set (e # todo)" by (auto simp: in_todo_def)
      moreover have "fst e \<noteq> ch"
      proof
        assume "fst e = ch"
        then have "e = (ch, n)" using shape_loop [OF assms(2) k(1), of ch "snd e" n t] that(2) by (cases e) auto
        with k(2) that(2) \<open>u = t\<close> show False by simp
      qed
      ultimately show ?thesis using k(3) \<open>t = notifier_type n\<close> by (auto simp: in_todo_def)
    qed
    have f: "sys_registry s' = sys_registry s" "sys_sending s' = sys_sending s" "sys_hold s' = sys_hold s" "sys_overtaken s' = sys_overtaken s"
        "delivered s' ch = delivered s ch" "sys_watchers s' = sys_watchers s" "sys_reg s' = sys_reg s"
      by (simp_all add: k(3) delivered_def)
    show ?thesis
    proof (rule keep [OF f(6,7)])
      assume g: "good ch n s" and w: "(ch, n) \<in> set (sys_watchers s t)"
      show "good ch n s'" by (rule good_frame [OF g f(1-3) itd [OF _ w] _ f(5)]) (simp_all add: f(4))
    qed
  next
    case (Late c m)
    then obtain u todo where k: "sys_loop s = Some (u, todo)" "s' = s\<lparr>sys_loop := Some (u, todo @ [(c, m)])\<rparr>"
      using assms(1) by (auto split: if_splits option.splits)
    show ?thesis by (rule keep, use k in simp, use k in simp, erule good_frame) (use k in \<open>auto simp: in_todo_def delivered_def\<close>)
  next
    case Put
    have "good ch n s \<Longrightarrow> good ch n s'" using good_Put [of ch n s s'] assms(1) Put by blast
    moreover have "sys_watchers s' = sys_watchers s" "sys_reg s' = sys_reg s" using assms(1) Put by (auto split: if_splits option.splits)
    ultimately show ?thesis using keep by blast
  next
    case Finish
    then obtain u where k: "sys_loop s = Some (u, [])" "s' = s\<lparr>sys_loop := None\<rparr>"
      using assms(1) by (auto split: if_splits option.splits list.splits)
    show ?thesis by (rule keep, use k in simp, use k in simp, erule good_frame) (use k in \<open>auto simp: in_todo_def delivered_def\<close>)
  next
    case (Store r c)
    then obtain wn m where k: "RegisterWatcher (Some r) (Some c) (sys_watchers s) = Inr (wn, Some m)"
        "s' = s\<lparr>sys_watchers := wn, sys_reg := (sys_reg s)(c \<mapsto> (m, None)), sys_used := insert c (sys_used s)\<rparr>"
      using assms(1) by (auto split: if_splits sum.splits option.splits)
    have "ch \<noteq> c" "sys_reg s ch = None" using r' k(2) by (auto split: if_splits)
    moreover from this have "(ch, n) \<in> set (sys_watchers s t)" using w' k(2) RegisterWatcher_stored [OF k(1)] by (auto split: if_splits)
    ultimately have "good ch n s" using good_invD [OF assms(4)] by blast
    then show ?thesis by (rule good_frame) (use k(2) in \<open>auto simp: in_todo_def delivered_def\<close>)
  next
    case (Read c)
    then obtain m where k: "sys_reg s c = Some (m, None)" "s' = s\<lparr>sys_reg := (sys_reg s)(c \<mapsto> (m, Some (notify m (sys_registry s))))\<rparr>"
      using assms(1) by (auto split: option.splits)
    have "sys_reg s ch = None" "(ch, n) \<in> set (sys_watchers s t)" using r' w' k(2) by (auto split: if_splits)
    then have "good ch n s" using good_invD [OF assms(4)] by blast
    then show ?thesis by (rule good_frame) (use k(2) in \<open>auto simp: in_todo_def delivered_def\<close>)
  next
    case (Send c)
    then show ?thesis using good_Send [OF assms(4,3,2) _ w' r'] assms(1) by blast
  next
    case (Receive c)
    then obtain v q where k: "sys_queue s c = v # q" "s' = s\<lparr>sys_queue := (sys_queue s)(c := q), sys_sent := (sys_sent s)(c := sys_sent s c @ [v])\<rparr>"
      using assms(1) by (auto split: if_splits list.splits)
    show ?thesis by (rule keep, use k in simp, use k in simp, erule good_frame) (use k in \<open>auto simp: in_todo_def delivered_def\<close>)
  next
    case (Done c)
    then have k: "s' = s\<lparr>sys_watchers := UnregisterWatcher c (sys_watchers s)\<rparr>" using assms(1) by (auto split: if_splits)
    have "good ch n s" using good_invD [OF assms(4)] w' r' k by (auto dest: UnregisterWatcher_mem)
    then show ?thesis by (rule good_frame) (use k in \<open>auto simp: in_todo_def delivered_def\<close>)
  qed
qed

lemma config_reach_inv: "config_reach s \<Longrightarrow> shape_inv s \<and> hold_inv s \<and> good_inv s"
proof (induction rule: config_reach.induct)
  case new
  show ?case by (simp add: shape_inv_def hold_inv_def good_inv_def sys_new_def NewWatcherNotifier_def cr_New_def)
next
  case (act s a s')
  then show ?case using config_act_shape config_act_hold config_act_good by blast
qed

lemma config_run_reach: "config_reach s \<Longrightarrow> config_run as s = Some s' \<Longrightarrow> config_reach s'"
  by (induction as arbitrary: s) (auto simp: bind_eq_Some_conv intro: config_reach.act)

section \<open>Properties\<close>

text \<open>
  C23: in every reachable state, a registered watcher whose registration has finished and was
  not overtaken has been sent the current selection, if no change of its resource type is
  still on its way: no setter has yet to send an event of that type, no such event is queued, the notifier is
  idle and the buffer of the watcher is empty.
\<close>

theorem config_watchers_current:
  assumes "config_reach s" "(ch, n) \<in> set (sys_watchers s t)" "sys_reg s ch = None" "ch \<notin> sys_overtaken s"
    "sys_sending s \<noteq> Some t" "t \<notin> set (events s)" "sys_loop s = None" "sys_hold s = None" "sys_queue s ch = []"
  shows "sys_sent s ch \<noteq> [] \<and> last (sys_sent s ch) = notify n (sys_registry s)"
proof -
  have inv: "shape_inv s" "good_inv s" using config_reach_inv [OF assms(1)] by auto
  have "t = notifier_type n" using shape_watcher [OF inv(1) assms(2)] by simp
  moreover have "good ch n s" by (rule good_invD [OF inv(2) assms(2,3)])
  ultimately show ?thesis using assms(4-9) by (simp add: good_def scheduled_def in_todo_def settled_def delivered_def)
qed

text \<open>A run with one watcher of the trench: the configuration changes after the registration.\<close>

theorem config_watchers_current_witness:
  "\<exists>s. config_run [Store (WTrench None) (Chan (Some RTrench) 0), Read (Chan (Some RTrench) 0), Send (Chan (Some RTrench) 0),
       Receive (Chan (Some RTrench) 0), Write (STrench (Some \<lparr>trench_name = ''t''\<rparr>)), SendEvent,
       Take [(Chan (Some RTrench) 0, trenchNotifier None)], Visit, Put, Finish, Receive (Chan (Some RTrench) 0)] sys_new = Some s \<and>
     last (sys_sent s (Chan (Some RTrench) 0)) = PTrench (Some \<lparr>trench_name = ''t''\<rparr>)"
proof -
  let ?ch = "Chan (Some RTrench) 0" and ?n = "trenchNotifier None"
  let ?as = "[Store (WTrench None) ?ch, Read ?ch, Send ?ch, Receive ?ch, Write (STrench (Some \<lparr>trench_name = ''t''\<rparr>)), SendEvent,
       Take [(?ch, ?n)], Visit, Put, Finish, Receive ?ch]"
  obtain s where s: "config_run ?as sys_new = Some s" "(?ch, ?n) \<in> set (sys_watchers s RTrench)" "sys_reg s ?ch = None" "?ch \<notin> sys_overtaken s"
    "sys_sending s \<noteq> Some RTrench" "RTrench \<notin> set (events s)" "sys_loop s = None" "sys_hold s = None" "sys_queue s ?ch = []"
    "notify ?n (sys_registry s) = PTrench (Some \<lparr>trench_name = ''t''\<rparr>)"
    by (simp add: sys_new_def NewWatcherNotifier_def RegisterWatcher_def checkChannel_def cr_New_def events_def bufferSize_def cr_notify_def get_defs)
  have "config_reach s" by (rule config_run_reach [OF config_reach.new s(1)])
  from config_watchers_current [OF this s(2-9)] s(1,10) show ?thesis by auto
qed


text \<open>
  A watcher that asks for nothing in particular (a nil resource) is not registered: for every
  channel of a resource type the call succeeds and stores no watcher.
\<close>

theorem register_nil_ignored:
  "RegisterWatcher None (Some (Chan (Some t) i)) wn = Inr (wn, None)"
  by (simp add: RegisterWatcher_def checkChannel_def)

end
