(* ===== verification/Admission.thy ===== *)
theory Admission
  imports IpamPrefix
begin

text \<open>
  The admission checks of the operator: \<open>api/v1/types.go\<close> and the webhooks of trenches, conduits, streams, flows,
  VIPs and attractors. The Kubernetes client is a record of the answers to its queries. An error keeps its kind and
  the path of the field it names; the text for the user is left out. The list of port ranges is a Go slice: the loop
  that checks a new range reads the array it inserts into, so slices are pointers into a heap of arrays.
\<close>

section \<open>Definitions\<close>

subsection \<open>Resources\<close>

record ObjectMeta =
  meta_Name :: string
  meta_Namespace :: string
  meta_Labels :: "string \<rightharpoonup> string"

definition label_trench :: "ObjectMeta \<Rightarrow> string" where
  "label_trench m = (case meta_Labels m ''trench'' of None \<Rightarrow> [] | Some v \<Rightarrow> v)"

record v1_Trench =
  v1t_meta :: ObjectMeta
  v1t_IPFamily :: string

record PortNatSpec =
  pns_Port :: nat
  pns_TargetPort :: nat
  pns_Vips :: "string list"
  pns_Protocol :: string

record v1_Conduit =
  v1c_meta :: ObjectMeta
  v1c_Type :: string
  v1c_DestinationPortNats :: "PortNatSpec list"

record v1_Stream =
  v1s_meta :: ObjectMeta
  v1s_Conduit :: string
  v1s_MaxTargets :: "nat option"

record v1_Flow =
  v1f_meta :: ObjectMeta
  v1f_Stream :: string
  v1f_Vips :: "string list"
  v1f_SourceSubnets :: "string list"
  v1f_SourcePorts :: "string list"
  v1f_DestinationPorts :: "string list"
  v1f_Protocols :: "string list"
  v1f_Priority :: int
  v1f_ByteMatches :: "string list"

record v1_Vip =
  v1v_meta :: ObjectMeta
  v1v_Address :: string

record NetworkAttachmentSpec =
  nad_Name :: string
  nad_Namespace :: string
  nad_InterfaceRequest :: string

record InterfaceSpec =
  if_Name :: string
  if_PrefixIPv4 :: string
  if_PrefixIPv6 :: string
  if_Type :: string
  if_BaseInterface :: string
  if_VlanID :: "int option"
  if_NetworkAttachments :: "NetworkAttachmentSpec option list"

record v1_Attractor =
  v1a_meta :: ObjectMeta
  v1a_Replicas :: "int option"
  v1a_Composites :: "string list"
  v1a_Gateways :: "string list"
  v1a_Vips :: "string list"
  v1a_Interface :: InterfaceSpec

text \<open>The object an update replaces, of any kind.\<close>

datatype v1_object = OTrench v1_Trench | OConduit v1_Conduit | OStream v1_Stream | OFlow v1_Flow | OVip v1_Vip
  | OAttractor v1_Attractor | OOther

text \<open>The queries: whether a trench exists, and the lists by namespace and trench label, None if the query fails.\<close>

record v1_client =
  cl_Trench :: "string \<Rightarrow> string \<Rightarrow> bool"
  cl_Flows :: "string \<Rightarrow> string \<Rightarrow> v1_Flow list option"
  cl_Streams :: "string \<Rightarrow> string \<Rightarrow> v1_Stream list option"
  cl_Attractors :: "string \<Rightarrow> string \<Rightarrow> v1_Attractor list option"

datatype field_error = FInvalid "string list" | FForbidden "string list" | FRequired "string list"

datatype v1_error = TrenchNotFound | BadRequest | Forbidden "string list" | Invalid "field_error list"

definition NewInvalid :: "field_error list \<Rightarrow> v1_error option" where
  "NewInvalid allErrs = (if allErrs = [] then None else Some (Invalid allErrs))"

subsection \<open>Prefixes and ports\<close>

definition validatePrefix :: "string \<Rightarrow> ipnet option" where
  "validatePrefix p =
     (case parse_cidr p of None \<Rightarrow> None | Some (ip, n) \<Rightarrow> if \<not> ip_equal ip (net_ip n) then None else Some n)"

definition subnetContainsSubnet :: "ipnet \<Rightarrow> ipnet \<Rightarrow> bool" where
  "subnetContainsSubnet outer inner =
     (let ol = net_ones outer; il = net_ones inner in
      if ol = il \<and> ip_equal (net_ip outer) (net_ip inner) then True
      else if ol < il \<and> contains outer (net_ip inner) then True
      else False)"

definition subnetsOverlap :: "ipnet \<Rightarrow> ipnet \<Rightarrow> bool" where
  "subnetsOverlap a b \<longleftrightarrow> subnetContainsSubnet a b \<or> subnetContainsSubnet b a"

record Ports =
  port_Start :: nat
  port_End :: nat

definition NewPort :: "nat \<Rightarrow> nat \<Rightarrow> Ports option" where
  "NewPort s e = (if s > e then None else Some \<lparr>port_Start = s, port_End = e\<rparr>)"

text \<open>\<open>strconv.ParseUint(s, 10, 16)\<close>.\<close>

definition parse_uint16 :: "string \<Rightarrow> nat option" where
  "parse_uint16 s = (case read_base 10 s of None \<Rightarrow> None | Some n \<Rightarrow> if n < 2 ^ 16 then Some n else None)"

definition NewPortFromString :: "string \<Rightarrow> string \<Rightarrow> Ports option" where
  "NewPortFromString s e =
     (case parse_uint16 s of
        None \<Rightarrow> None
      | Some startInt \<Rightarrow> (case parse_uint16 e of None \<Rightarrow> None | Some endInt \<Rightarrow> NewPort startInt endInt))"

definition validPortsFormat :: "string \<Rightarrow> Ports option" where
  "validPortsFormat p =
     (if CHR ''-'' \<in> set p then
        (case split_on (CHR ''-'') p of [s, e] \<Rightarrow> NewPortFromString s e | _ \<Rightarrow> None)
      else if p = ''any'' then NewPort 0 65535
      else NewPortFromString p p)"

subsection \<open>Slices\<close>

text \<open>The arrays of a slice, by pointer; the capacity is the length of the array. The growth policy of \<open>append\<close>,
  from the old capacity and the length needed, belongs to the runtime and is an argument.\<close>

record slice =
  sl_ptr :: nat
  sl_len :: nat

type_synonym port_heap = "Ports list list"

type_synonym growth = "nat \<Rightarrow> nat \<Rightarrow> nat"

definition elems :: "port_heap \<Rightarrow> slice \<Rightarrow> Ports list" where
  "elems h s = take (sl_len s) (h ! sl_ptr s)"

definition go_append :: "growth \<Rightarrow> slice \<Rightarrow> Ports list \<Rightarrow> port_heap \<Rightarrow> slice \<times> port_heap" where
  "go_append grow s vs h =
     (let arr = h ! sl_ptr s; m = sl_len s + length vs in
      if m \<le> length arr
      then (s\<lparr>sl_len := m\<rparr>, h[sl_ptr s := take (sl_len s) arr @ vs @ drop m arr])
      else (\<lparr>sl_ptr = length h, sl_len = m\<rparr>,
            h @ [take (sl_len s) arr @ vs @ replicate (grow (length arr) m - m) \<lparr>port_Start = 0, port_End = 0\<rparr>]))"

definition insertPortList :: "growth \<Rightarrow> slice \<Rightarrow> nat \<Rightarrow> Ports \<Rightarrow> port_heap \<Rightarrow> slice \<times> port_heap" where
  "insertPortList grow pl i p h =
     (if i = sl_len pl then go_append grow pl [p] h
      else case go_append grow (pl\<lparr>sl_len := i + 1\<rparr>) (drop i (elems h pl)) h of
             (pl', h') \<Rightarrow> (pl', h'[sl_ptr pl' := (h' ! sl_ptr pl')[i := p]]))"

text \<open>The loop ranges over the slice as it was at the start, \<open>rng\<close>; \<open>k\<close> iterations are left. None is the error.\<close>

fun overlap_loop :: "growth \<Rightarrow> Ports \<Rightarrow> slice \<Rightarrow> nat \<Rightarrow> nat \<Rightarrow> slice \<Rightarrow> port_heap \<Rightarrow> (slice \<times> port_heap) option" where
  "overlap_loop grow candidatePort rng 0 j allPorts h = Some (allPorts, h)"
| "overlap_loop grow candidatePort rng (Suc k) j allPorts h =
     (let validp = h ! sl_ptr rng ! j in
      if port_Start candidatePort > port_End validp then
        (case (if j + 1 = sl_len allPorts then insertPortList grow allPorts (sl_len allPorts) candidatePort h else (allPorts, h)) of
           (allPorts', h') \<Rightarrow> overlap_loop grow candidatePort rng k (j + 1) allPorts' h')
      else if port_End candidatePort < port_Start validp then
        (case insertPortList grow allPorts j candidatePort h of
           (allPorts', h') \<Rightarrow> overlap_loop grow candidatePort rng k (j + 1) allPorts' h')
      else None)"

definition checkPortsOverlapping :: "growth \<Rightarrow> slice \<Rightarrow> Ports \<Rightarrow> port_heap \<Rightarrow> (slice \<times> port_heap) option" where
  "checkPortsOverlapping grow allPorts candidatePort h =
     (if sl_len allPorts = 0 then Some (insertPortList grow allPorts 0 candidatePort h)
      else overlap_loop grow candidatePort allPorts (sl_len allPorts) 0 allPorts h)"

fun validate_ports :: "growth \<Rightarrow> nat \<Rightarrow> string list \<Rightarrow> slice \<Rightarrow> port_heap \<Rightarrow> (string \<times> nat) + (slice \<times> port_heap)" where
  "validate_ports grow i [] portsList h = Inr (portsList, h)"
| "validate_ports grow i (p # ps) portsList h =
     (case validPortsFormat p of
        None \<Rightarrow> Inl (p, i)
      | Some candidatePorts \<Rightarrow>
          (case checkPortsOverlapping grow portsList candidatePorts h of
             None \<Rightarrow> Inl (p, i)
           | Some (portsList', h') \<Rightarrow> validate_ports grow (i + 1) ps portsList' h'))"

text \<open>The nil slice points to an array without elements.\<close>

definition validatePorts :: "growth \<Rightarrow> string list \<Rightarrow> (string \<times> nat) option" where
  "validatePorts grow ports =
     (case validate_ports grow 0 ports \<lparr>sl_ptr = 0, sl_len = 0\<rparr> [[]] of Inl e \<Rightarrow> Some e | Inr _ \<Rightarrow> None)"


subsection \<open>Subnets, byte matches\<close>

fun overlapping_subnet :: "nat \<Rightarrow> ipnet \<Rightarrow> ipnet list \<Rightarrow> nat option" where
  "overlapping_subnet j n [] = None"
| "overlapping_subnet j n (m # ms) = (if subnetsOverlap n m then Some j else overlapping_subnet (j + 1) n ms)"

fun validate_subnets :: "nat \<Rightarrow> string list \<Rightarrow> ipnet list \<Rightarrow> (string \<times> nat \<times> nat option) option" where
  "validate_subnets i [] allNonOverlappingSubnets = None"
| "validate_subnets i (s # ss) allNonOverlappingSubnets =
     (case validatePrefix s of
        None \<Rightarrow> Some (s, i, None)
      | Some n \<Rightarrow>
          (case overlapping_subnet 0 n allNonOverlappingSubnets of
             Some j \<Rightarrow> Some (s, i, Some j)
           | None \<Rightarrow> validate_subnets (i + 1) ss (allNonOverlappingSubnets @ [n])))"

definition validateSubnets :: "string list \<Rightarrow> (string \<times> nat \<times> nat option) option" where
  "validateSubnets subnets = validate_subnets 0 subnets []"

text \<open>The regular expression \<open>ByteMatchPattern\<close>. Each repetition is followed by a character it cannot match, so
  matching from left to right without going back decides it.\<close>

fun strip_prefix :: "string \<Rightarrow> string \<Rightarrow> string option" where
  "strip_prefix [] s = Some s"
| "strip_prefix (c # cs) [] = None"
| "strip_prefix (c # cs) (d # ds) = (if c = d then strip_prefix cs ds else None)"

definition dec_char :: "char \<Rightarrow> bool" where
  "dec_char c \<longleftrightarrow> c \<in> set ''0123456789''"

definition hex_char :: "char \<Rightarrow> bool" where
  "hex_char c \<longleftrightarrow> c \<in> set ''0123456789abcdef''"

definition skip_spaces :: "string \<Rightarrow> string" where
  "skip_spaces s = dropWhile (\<lambda>c. c = CHR '' '') s"

definition match_number :: "string \<Rightarrow> bool" where
  "match_number s \<longleftrightarrow>
     (s \<noteq> [] \<and> list_all dec_char s) \<or>
     (case strip_prefix ''0x'' s of None \<Rightarrow> False | Some r \<Rightarrow> r \<noteq> [] \<and> list_all hex_char r)"

definition match_value :: "string \<Rightarrow> bool" where
  "match_value s = (case strip_prefix ''='' (skip_spaces s) of None \<Rightarrow> False | Some r \<Rightarrow> match_number (skip_spaces r))"

definition match_mask :: "string \<Rightarrow> bool" where
  "match_mask s =
     (case strip_prefix ''&'' (skip_spaces s) of
        None \<Rightarrow> match_value s
      | Some r \<Rightarrow>
          (case strip_prefix ''0x'' (skip_spaces r) of
             None \<Rightarrow> False
           | Some x \<Rightarrow> takeWhile hex_char x \<noteq> [] \<and> match_value (dropWhile hex_char x)))"

definition match_position :: "string \<Rightarrow> bool" where
  "match_position s =
     (takeWhile dec_char s \<noteq> [] \<and>
      (case strip_prefix '':'' (skip_spaces (dropWhile dec_char s)) of
         None \<Rightarrow> False
       | Some r \<Rightarrow>
           (case skip_spaces r of
              c # d # t \<Rightarrow> c \<in> set ''124'' \<and> d = CHR '']'' \<and> match_mask t
            | _ \<Rightarrow> False)))"

definition ValidByteMatch :: "string \<Rightarrow> bool" where
  "ValidByteMatch byteMatch =
     list_ex (\<lambda>p. case strip_prefix p byteMatch of None \<Rightarrow> False | Some r \<Rightarrow> match_position r) [''sctp['', ''tcp['', ''udp['']"

fun validate_byte_matches :: "nat \<Rightarrow> string list \<Rightarrow> (string \<times> nat) option" where
  "validate_byte_matches i [] = None"
| "validate_byte_matches i (bm # bms) = (if \<not> ValidByteMatch bm then Some (bm, i) else validate_byte_matches (i + 1) bms)"

definition validateByteMatches :: "string list \<Rightarrow> (string \<times> nat) option" where
  "validateByteMatches byteMatches = validate_byte_matches 0 byteMatches"

subsection \<open>Flows\<close>

text \<open>The streams by name and the conduit of the stream of the flow; a later stream of the same name wins.\<close>

fun stream_index :: "string \<Rightarrow> v1_Stream list \<Rightarrow> (string \<rightharpoonup> v1_Stream) \<Rightarrow> string \<Rightarrow> (string \<rightharpoonup> v1_Stream) \<times> string" where
  "stream_index name [] streams currentConduit = (streams, currentConduit)"
| "stream_index name (s # ss) streams currentConduit =
     stream_index name ss (streams(meta_Name (v1s_meta s) \<mapsto> s))
       (if meta_Name (v1s_meta s) = name then v1s_Conduit s else currentConduit)"

text \<open>The hard conflicts, each with the name of the other flow and the VIPs.\<close>

fun vip_conflicts ::
  "v1_Flow \<Rightarrow> (string \<rightharpoonup> v1_Stream) \<Rightarrow> string \<Rightarrow> v1_Flow list \<Rightarrow> (string \<times> string list) list \<Rightarrow> (string \<times> string list) list" where
  "vip_conflicts r streams currentConduit [] hard = hard"
| "vip_conflicts r streams currentConduit (flow # fl) hard =
     (if meta_Name (v1f_meta flow) = meta_Name (v1f_meta r) \<and> meta_Namespace (v1f_meta flow) = meta_Namespace (v1f_meta r)
      then vip_conflicts r streams currentConduit fl hard
      else case streams (v1f_Stream flow) of
             Some stream \<Rightarrow>
               if v1s_Conduit stream = currentConduit then vip_conflicts r streams currentConduit fl hard
               else let conflictingVips = filter (\<lambda>vip. vip \<in> set (v1f_Vips r)) (v1f_Vips flow)
                    in vip_conflicts r streams currentConduit fl
                         (if conflictingVips \<noteq> [] \<and> currentConduit \<noteq> []
                          then hard @ [(meta_Name (v1f_meta flow), conflictingVips)] else hard)
           | None \<Rightarrow> vip_conflicts r streams currentConduit fl hard)"

definition validateVips :: "v1_client \<Rightarrow> v1_Flow \<Rightarrow> field_error list" where
  "validateVips cl r =
     (case cl_Flows cl (meta_Namespace (v1f_meta r)) (label_trench (v1f_meta r)) of
        None \<Rightarrow> [FInvalid [''spec'', ''vips'']]
      | Some fl \<Rightarrow>
          (case cl_Streams cl (meta_Namespace (v1f_meta r)) (label_trench (v1f_meta r)) of
             None \<Rightarrow> [FInvalid [''spec'', ''vips'']]
           | Some sl \<Rightarrow>
               (case stream_index (v1f_Stream r) sl Map.empty [] of
                  (streams, currentConduit) \<Rightarrow>
                    if vip_conflicts r streams currentConduit fl [] \<noteq> [] then [FInvalid [''spec'', ''vips'']] else [])))"

text \<open>The loop over the protocols reports the first that occurred before and stops.\<close>

fun duplicated_protocol :: "string list \<Rightarrow> string set \<Rightarrow> bool" where
  "duplicated_protocol [] protocols = False"
| "duplicated_protocol (p # ps) protocols = (if p \<in> protocols then True else duplicated_protocol ps (insert p protocols))"

definition flow_errors :: "growth \<Rightarrow> v1_client \<Rightarrow> v1_Flow \<Rightarrow> field_error list" where
  "flow_errors grow cl r =
     (if meta_Labels (v1f_meta r) ''trench'' = None then [FInvalid [''metadata'', ''labels'']] else []) @
     (if duplicated_protocol (v1f_Protocols r) {} then [FInvalid [''spec'', ''protocols'']] else []) @
     (if validateSubnets (v1f_SourceSubnets r) \<noteq> None then [FInvalid [''spec'', ''source-subnets'']] else []) @
     (if validatePorts grow (v1f_SourcePorts r) \<noteq> None then [FInvalid [''spec'', ''source-ports'']] else []) @
     (if validatePorts grow (v1f_DestinationPorts r) \<noteq> None then [FInvalid [''spec'', ''destination-ports'']] else []) @
     (if v1f_Priority r < 0 then [FInvalid [''spec'', ''priority'']] else []) @
     validateVips cl r @
     (if validateByteMatches (v1f_ByteMatches r) \<noteq> None then [FInvalid [''spec'', ''byte-matches'']] else [])"

definition validateFlow :: "growth \<Rightarrow> v1_client \<Rightarrow> v1_Flow \<Rightarrow> v1_error option" where
  "validateFlow grow cl r = NewInvalid (flow_errors grow cl r)"

definition flow_validateUpdate :: "v1_Flow \<Rightarrow> v1_object \<Rightarrow> v1_error option" where
  "flow_validateUpdate r oldObj =
     (case oldObj of
        OFlow old \<Rightarrow>
          if label_trench (v1f_meta r) \<noteq> label_trench (v1f_meta old) then Some (Forbidden [''metadata'', ''labels'', ''trench'']) else None
      | _ \<Rightarrow> Some BadRequest)"

definition flow_ValidateCreate :: "growth \<Rightarrow> v1_client \<Rightarrow> v1_Flow \<Rightarrow> v1_error option" where
  "flow_ValidateCreate grow cl r =
     (if \<not> cl_Trench cl (meta_Namespace (v1f_meta r)) (label_trench (v1f_meta r)) then Some TrenchNotFound
      else validateFlow grow cl r)"

definition flow_ValidateUpdate :: "growth \<Rightarrow> v1_client \<Rightarrow> v1_Flow \<Rightarrow> v1_object \<Rightarrow> v1_error option" where
  "flow_ValidateUpdate grow cl r old =
     (case flow_validateUpdate r old of Some err \<Rightarrow> Some err | None \<Rightarrow> validateFlow grow cl r)"


subsection \<open>Vocabulary of the specification\<close>

definition port_set :: "Ports \<Rightarrow> nat set" where
  "port_set p = {port_Start p..port_End p}"

definition wf_port :: "Ports \<Rightarrow> bool" where
  "wf_port p \<longleftrightarrow> port_Start p \<le> port_End p"

text \<open>The list of ranges is ascending; the loop may insert a range more than once.\<close>

definition ports_sorted :: "Ports list \<Rightarrow> bool" where
  "ports_sorted ps \<longleftrightarrow> sorted_wrt (\<lambda>p q. p = q \<or> port_End p < port_Start q) ps \<and> (\<forall>p \<in> set ps. wf_port p)"

definition slice_ok :: "port_heap \<Rightarrow> slice \<Rightarrow> bool" where
  "slice_ok h s \<longleftrightarrow> sl_ptr s < length h \<and> sl_len s \<le> length (h ! sl_ptr s)"

text \<open>No port is in two of the ranges.\<close>

definition ports_disjoint :: "Ports list \<Rightarrow> bool" where
  "ports_disjoint ps \<longleftrightarrow> (\<forall>i j. i < j \<longrightarrow> j < length ps \<longrightarrow> port_set (ps ! i) \<inter> port_set (ps ! j) = {})"

section \<open>Lemmas: slices\<close>

lemma length_elems: "slice_ok h s \<Longrightarrow> length (elems h s) = sl_len s"
  by (simp add: slice_ok_def elems_def)

lemma go_append_elems:
  assumes "slice_ok h s" "go_append grow s vs h = (s', h')"
  shows "slice_ok h' s'" "elems h' s' = elems h s @ vs" "length h \<le> length h'"
    "q < length h \<Longrightarrow> h' ! q = h ! q \<or> q = sl_ptr s'" "sl_ptr s' < length h \<Longrightarrow> sl_ptr s' = sl_ptr s"
  using assms by (auto simp: go_append_def slice_ok_def elems_def Let_def nth_append nth_list_update split: if_splits)

lemma insert_elems:
  assumes "slice_ok h pl" "i \<le> sl_len pl" "insertPortList grow pl i p h = (pl', h')"
  shows "slice_ok h' pl'" "elems h' pl' = take i (elems h pl) @ p # drop i (elems h pl)" "length h \<le> length h'"
    "q < length h \<Longrightarrow> h' ! q = h ! q \<or> q = sl_ptr pl'"
proof -
  have "slice_ok h' pl' \<and> elems h' pl' = take i (elems h pl) @ p # drop i (elems h pl) \<and> length h \<le> length h' \<and>
    (\<forall>q < length h. h' ! q = h ! q \<or> q = sl_ptr pl')"
  proof (cases "i = sl_len pl")
    case True
    then have "go_append grow pl [p] h = (pl', h')" using assms(3) by (simp add: insertPortList_def)
    note a = go_append_elems [OF assms(1) this]
    have "elems h pl @ [p] = take i (elems h pl) @ p # drop i (elems h pl)" using True length_elems [OF assms(1)] by simp
    then show ?thesis using a by auto
  next
    case False
    let ?s = "pl\<lparr>sl_len := i + 1\<rparr>"
    obtain pl1 h1 where g: "go_append grow ?s (drop i (elems h pl)) h = (pl1, h1)" by fastforce
    have ok: "slice_ok h ?s" using assms(1,2) False by (simp add: slice_ok_def)
    note a = go_append_elems [OF ok g]
    have r: "pl' = pl1" "h' = h1[sl_ptr pl1 := (h1 ! sl_ptr pl1)[i := p]]" using assms(3) False g by (auto simp: insertPortList_def)
    have t: "take i (elems h ?s) = take i (elems h pl)" "length (elems h ?s) = i + 1"
      using assms(1,2) False by (simp_all add: elems_def slice_ok_def min_def)
    have "elems h' pl' = (elems h1 pl1)[i := p]"
      using a(1) by (simp add: r elems_def slice_ok_def take_update_swap)
    also have "\<dots> = take i (elems h pl) @ p # drop i (elems h pl)"
      using t by (simp add: a(2) list_update_append upd_conv_take_nth_drop)
    finally have "elems h' pl' = take i (elems h pl) @ p # drop i (elems h pl)" .
    moreover have "slice_ok h' pl'" using a(1) by (simp add: r slice_ok_def)
    moreover have "h' ! q = h ! q \<or> q = sl_ptr pl'" if "q < length h" for q
      using a(4) [OF that] by (auto simp: r nth_list_update)
    ultimately show ?thesis using a(3) by (simp add: r)
  qed
  then show "slice_ok h' pl'" "elems h' pl' = take i (elems h pl) @ p # drop i (elems h pl)" "length h \<le> length h'"
    "q < length h \<Longrightarrow> h' ! q = h ! q \<or> q = sl_ptr pl'" by auto
qed

section \<open>Lemmas: port ranges\<close>

lemma port_sets_disjoint:
  "wf_port p \<Longrightarrow> wf_port q \<Longrightarrow> port_set p \<inter> port_set q = {} \<longleftrightarrow> port_End p < port_Start q \<or> port_End q < port_Start p"
  by (auto simp: port_set_def wf_port_def)

text \<open>After the first range above the candidate, the loop inserts the candidate once more in each iteration.\<close>

lemma overlap_loop_above:
  assumes "slice_ok h all" "sl_ptr rng < length h" "n = length xs" "m \<le> j" "j + k = n" "wf_port c"
    "elems h all = take m xs @ replicate (j - m) c @ drop m xs"
    "\<And>i. j \<le> i \<Longrightarrow> i < n \<Longrightarrow> h ! sl_ptr rng ! i \<in> set (drop m xs)"
    "\<And>x. x \<in> set (drop m xs) \<Longrightarrow> wf_port x \<and> port_End c < port_Start x"
  shows "\<exists>all' h'. overlap_loop grow c rng k j all h = Some (all', h') \<and> slice_ok h' all' \<and>
    elems h' all' = take m xs @ replicate (n - m) c @ drop m xs"
  using assms
proof (induction k arbitrary: j all h)
  case 0
  then show ?case by simp
next
  case (Suc k)
  let ?v = "h ! sl_ptr rng ! j"
  have v: "wf_port ?v" "port_End c < port_Start ?v" using Suc.prems(5,8,9) by simp_all
  then have ncmp: "\<not> port_Start c > port_End ?v" using Suc.prems(6) by (simp add: wf_port_def)
  obtain all1 h1 where i: "insertPortList grow all j c h = (all1, h1)" by fastforce
  have m: "length (take m xs) = m" using Suc.prems(3,4,5) by simp
  have "j \<le> sl_len all" using length_elems [OF Suc.prems(1)] Suc.prems(3,4,5,7) m by simp
  note e = insert_elems [OF Suc.prems(1) this i]
  have "elems h1 all1 = take m xs @ replicate (j - m) c @ c # drop m xs"
    using Suc.prems(3,4,5) m by (simp add: e(2) Suc.prems(7))
  then have el: "elems h1 all1 = take m xs @ replicate (j + 1 - m) c @ drop m xs"
    using Suc.prems(4) by (simp add: Suc_diff_le replicate_append_same [symmetric])
  have tl: "h1 ! sl_ptr rng ! i \<in> set (drop m xs)" if "j + 1 \<le> i" "i < n" for i
  proof (cases "h1 ! sl_ptr rng = h ! sl_ptr rng")
    case True
    then show ?thesis using Suc.prems(8) that by simp
  next
    case False
    then have p: "sl_ptr rng = sl_ptr all1" using e(4) [OF Suc.prems(2)] by blast
    have len: "i < sl_len all1" using length_elems [OF e(1)] that Suc.prems(3,4) m by (simp add: el)
    have "h1 ! sl_ptr rng ! i = elems h1 all1 ! i" using len by (simp add: p elems_def)
    also have "\<dots> = drop m xs ! (i - (j + 1))" using that Suc.prems(3,4) m by (simp add: el nth_append)
    also have "\<dots> \<in> set (drop m xs)" using that Suc.prems(3,4) by (intro nth_mem) simp
    finally show ?thesis .
  qed
  have "\<exists>all' h'. overlap_loop grow c rng k (j + 1) all1 h1 = Some (all', h') \<and> slice_ok h' all' \<and>
      elems h' all' = take m xs @ replicate (n - m) c @ drop m xs"
    using Suc.prems(2,4,5) e(3) by (intro Suc.IH [OF e(1) _ Suc.prems(3) _ _ Suc.prems(6) el tl Suc.prems(9)]) simp_all
  then show ?case using v(2) ncmp i by simp
qed


lemma ports_sorted_drop:
  assumes "ports_sorted xs" "j < length xs" "port_End c < port_Start (xs ! j)" "x \<in> set (drop j xs)"
  shows "wf_port x \<and> port_End c < port_Start x"
proof -
  have d: "drop j xs = xs ! j # drop (Suc j) xs" using assms(2) by (simp add: Cons_nth_drop_Suc)
  have "ports_sorted (drop j xs)"
    using assms(1) by (auto simp: ports_sorted_def intro: sorted_wrt_drop dest: in_set_dropD)
  then have "wf_port (xs ! j)" "wf_port x" "x = xs ! j \<or> port_End (xs ! j) < port_Start x"
    using assms(4) by (auto simp: ports_sorted_def d)
  then show ?thesis using assms(3) by (auto simp: wf_port_def)
qed

text \<open>Where the candidate goes, and how often.\<close>

definition placed :: "Ports list \<Rightarrow> Ports \<Rightarrow> Ports list \<Rightarrow> bool" where
  "placed xs c ys \<longleftrightarrow>
     (\<exists>m \<le> length xs. ys = take m xs @ replicate (if m = length xs then 1 else length xs - m) c @ drop m xs \<and>
        (\<forall>x \<in> set (take m xs). port_End x < port_Start c) \<and> (\<forall>x \<in> set (drop m xs). port_End c < port_Start x))"

lemma overlap_loop_result:
  assumes "slice_ok h rng" "xs = elems h rng" "ports_sorted xs" "wf_port c" "j + k = length xs" "0 < k"
    "\<forall>x \<in> set (take j xs). port_End x < port_Start c"
  shows "if \<exists>x \<in> set (drop j xs). port_set x \<inter> port_set c \<noteq> {} then overlap_loop grow c rng k j rng h = None
    else \<exists>all' h'. overlap_loop grow c rng k j rng h = Some (all', h') \<and> slice_ok h' all' \<and> placed xs c (elems h' all')"
  using assms(5-7)
proof (induction k arbitrary: j)
  case (Suc k)
  let ?v = "xs ! j"
  have n: "sl_len rng = length xs" "j < length xs" using length_elems [OF assms(1)] assms(2) Suc.prems(1) by simp_all
  have "j < sl_len rng" using n by simp
  then have v: "h ! sl_ptr rng ! j = ?v" unfolding assms(2) elems_def by simp
  have d: "drop j xs = ?v # drop (j + 1) xs" using n(2) by (simp add: Cons_nth_drop_Suc)
  have wv: "wf_port ?v" using assms(3) n(2) by (simp add: ports_sorted_def)
  consider (below) "port_End ?v < port_Start c" | (above) "port_End c < port_Start ?v" | (meet) "port_set ?v \<inter> port_set c \<noteq> {}"
    using port_sets_disjoint [OF wv assms(4)] by blast
  then show ?case
  proof cases
    case below
    then have no: "port_set ?v \<inter> port_set c = {}" using port_sets_disjoint [OF wv assms(4)] by blast
    have tk: "\<forall>x \<in> set (take (j + 1) xs). port_End x < port_Start c"
      using Suc.prems(3) below n(2) by (auto simp: take_Suc_conv_app_nth)
    show ?thesis
    proof (cases k)
      case 0
      obtain all1 h1 where i: "insertPortList grow rng (sl_len rng) c h = (all1, h1)" by fastforce
      note e = insert_elems [OF assms(1) le_refl i]
      have len: "length xs = j + 1" using Suc.prems(1) 0 by simp
      have "elems h1 all1 = xs @ [c]" using e(2) n(1) by (simp add: assms(2) [symmetric])
      then have "placed xs c (elems h1 all1)" unfolding placed_def using tk len by (intro exI [of _ "length xs"]) simp
      then show ?thesis using below v i n(1) len e(1) 0 no d by simp
    next
      case k': (Suc k')
      have "j + 1 \<noteq> sl_len rng" using Suc.prems(1) n(1) k' by simp
      then have st: "overlap_loop grow c rng (Suc k) j rng h = overlap_loop grow c rng k (j + 1) rng h" using below v by simp
      have ex: "(\<exists>x \<in> set (drop j xs). port_set x \<inter> port_set c \<noteq> {}) \<longleftrightarrow> (\<exists>x \<in> set (drop (j + 1) xs). port_set x \<inter> port_set c \<noteq> {})"
        using no by (simp add: d)
      have "j + 1 + k = length xs" "0 < k" using Suc.prems(1) k' by simp_all
      from Suc.IH [OF this tk] show ?thesis unfolding st ex .
    qed
  next
    case above
    note dr = ports_sorted_drop [OF assms(3) n(2) above]
    have "x \<in> set (drop j xs) \<Longrightarrow> port_set x \<inter> port_set c = {}" for x
      using dr [of x] port_sets_disjoint [of x c] assms(4) by blast
    then have no: "\<not> (\<exists>x \<in> set (drop j xs). port_set x \<inter> port_set c \<noteq> {})" by blast
    have tl: "h ! sl_ptr rng ! i \<in> set (drop j xs)" if "j \<le> i" "i < length xs" for i
    proof -
      have "i < sl_len rng" using that n(1) by simp
      then have "xs ! i = h ! sl_ptr rng ! i" unfolding assms(2) elems_def by simp
      then have "h ! sl_ptr rng ! i = drop j xs ! (i - j)" using that by simp
      moreover have "drop j xs ! (i - j) \<in> set (drop j xs)" using that by (intro nth_mem) simp
      ultimately show ?thesis by simp
    qed
    have el: "elems h rng = take j xs @ replicate (j - j) c @ drop j xs" using assms(2) by simp
    have p: "sl_ptr rng < length h" using assms(1) by (simp add: slice_ok_def)
    obtain all' h' where r: "overlap_loop grow c rng (Suc k) j rng h = Some (all', h')" "slice_ok h' all'"
        "elems h' all' = take j xs @ replicate (length xs - j) c @ drop j xs"
      using overlap_loop_above [OF assms(1) p refl le_refl Suc.prems(1) assms(4) el tl dr] by blast
    have "placed xs c (elems h' all')"
      unfolding placed_def using r(3) Suc.prems(3) dr n(2) by (intro exI [of _ j]) auto
    with r(1,2) show ?thesis unfolding if_not_P [OF no] by blast
  next
    case meet
    then have "\<not> port_End ?v < port_Start c" "\<not> port_End c < port_Start ?v" using port_sets_disjoint [OF wv assms(4)] by blast+
    then have "overlap_loop grow c rng (Suc k) j rng h = None" using v by simp
    moreover have "\<exists>x \<in> set (drop j xs). port_set x \<inter> port_set c \<noteq> {}" using meet by (simp add: d)
    ultimately show ?thesis by simp
  qed
qed simp

lemma check_ports_result:
  assumes "slice_ok h s" "ports_sorted (elems h s)" "wf_port c"
  shows "if \<exists>x \<in> set (elems h s). port_set x \<inter> port_set c \<noteq> {} then checkPortsOverlapping grow s c h = None
    else \<exists>s' h'. checkPortsOverlapping grow s c h = Some (s', h') \<and> slice_ok h' s' \<and> placed (elems h s) c (elems h' s')"
proof (cases "sl_len s = 0")
  case True
  then have e: "elems h s = []" by (simp add: elems_def)
  obtain s1 h1 where i: "insertPortList grow s 0 c h = (s1, h1)" by fastforce
  note r = insert_elems [OF assms(1) _ i]
  have "placed [] c [c]" by (simp add: placed_def)
  then show ?thesis using True i r e by (simp add: checkPortsOverlapping_def)
next
  case False
  then show ?thesis
    using overlap_loop_result [OF assms(1) refl assms(2,3), of 0 "sl_len s"] length_elems [OF assms(1)]
    by (simp add: checkPortsOverlapping_def)
qed

lemma placed_sorted:
  assumes "placed xs c ys" "ports_sorted xs" "wf_port c"
  shows "ports_sorted ys" "set ys = insert c (set xs)"
proof -
  obtain m where m: "m \<le> length xs" "ys = take m xs @ replicate (if m = length xs then 1 else length xs - m) c @ drop m xs"
      "\<forall>x \<in> set (take m xs). port_End x < port_Start c" "\<forall>x \<in> set (drop m xs). port_End c < port_Start x"
    using assms(1) unfolding placed_def by blast
  define k where "k = (if m = length xs then 1 else length xs - m)"
  have k: "0 < k" using m(1) by (auto simp: k_def)
  let ?R = "\<lambda>p q. p = q \<or> port_End p < port_Start q"
  have "sorted_wrt ?R (take m xs @ drop m xs)" using assms(2) by (simp add: ports_sorted_def)
  then have so: "sorted_wrt ?R (take m xs)" "sorted_wrt ?R (drop m xs)" "\<forall>x \<in> set (take m xs). \<forall>y \<in> set (drop m xs). ?R x y"
    unfolding sorted_wrt_append by blast+
  have rep: "sorted_wrt ?R (replicate k c)" for k
    by (induction k) auto
  have "sorted_wrt ?R ys"
    unfolding m(2) k_def [symmetric] sorted_wrt_append using m(3,4) so rep by auto
  moreover have "set (take m xs) \<union> set (drop m xs) = set xs" by (metis append_take_drop_id set_append)
  then show set: "set ys = insert c (set xs)" unfolding m(2) k_def [symmetric] using k by auto
  ultimately show "ports_sorted ys" using assms(2,3) by (simp add: ports_sorted_def)
qed


lemma validPortsFormat_wf: "validPortsFormat p = Some c \<Longrightarrow> wf_port c"
  by (auto simp: validPortsFormat_def NewPortFromString_def NewPort_def wf_port_def split: if_splits list.splits option.splits)

definition port_of :: "string \<Rightarrow> Ports" where
  "port_of p = the (validPortsFormat p)"

lemma ports_disjoint_Cons:
  "ports_disjoint (c # ps) \<longleftrightarrow> (\<forall>p \<in> set ps. port_set c \<inter> port_set p = {}) \<and> ports_disjoint ps"
proof -
  have "ports_disjoint qs \<longleftrightarrow> sorted_wrt (\<lambda>p q. port_set p \<inter> port_set q = {}) qs" for qs
    by (auto simp: ports_disjoint_def sorted_wrt_iff_nth_less)
  then show ?thesis by simp
qed

lemma ports_disjoint_Nil [simp]: "ports_disjoint []"
  by (simp add: ports_disjoint_def)

lemma validate_ports_result:
  assumes "slice_ok h s" "ports_sorted (elems h s)"
  shows "(\<exists>r. validate_ports grow i ps s h = Inr r) \<longleftrightarrow>
    (\<forall>p \<in> set ps. validPortsFormat p \<noteq> None) \<and> ports_disjoint (map port_of ps) \<and>
    (\<forall>p \<in> set ps. \<forall>x \<in> set (elems h s). port_set x \<inter> port_set (port_of p) = {})"
  using assms
proof (induction ps arbitrary: i s h)
  case Nil
  then show ?case by (simp add: ports_disjoint_def)
next
  case (Cons p ps)
  show ?case
  proof (cases "validPortsFormat p")
    case None
    then show ?thesis by simp
  next
    case (Some c)
    then have c: "wf_port c" "port_of p = c" using validPortsFormat_wf by (simp_all add: port_of_def)
    note r = check_ports_result [OF Cons.prems c(1), of grow]
    show ?thesis
    proof (cases "\<exists>x \<in> set (elems h s). port_set x \<inter> port_set c \<noteq> {}")
      case True
      then have "checkPortsOverlapping grow s c h = None" using r by (simp only: if_True)
      then show ?thesis using Some True c(2) by auto
    next
      case False
      then obtain s' h' where s': "checkPortsOverlapping grow s c h = Some (s', h')" "slice_ok h' s'" "placed (elems h s) c (elems h' s')"
        using r by (simp only: if_False) blast
      note e = placed_sorted [OF s'(3) Cons.prems(2) c(1)]
      have st: "validate_ports grow i (p # ps) s h = validate_ports grow (i + 1) ps s' h'" using Some s'(1) by simp
      have no: "\<forall>x \<in> set (elems h s). port_set x \<inter> port_set c = {}" using False by blast
      show ?thesis
        unfolding st Cons.IH [OF s'(2) e(1)] e(2)
        by (simp add: Some c(2) no ports_disjoint_Cons ball_conj_distrib del: split_paired_Ex) blast
    qed
  qed
qed

lemma nil_slice: "slice_ok [[]] \<lparr>sl_ptr = 0, sl_len = 0\<rparr>" "elems [[]] \<lparr>sl_ptr = 0, sl_len = 0\<rparr> = []"
  by (simp_all add: slice_ok_def elems_def)

lemma validatePorts_exact:
  "validatePorts grow ports = None \<longleftrightarrow> (\<forall>p \<in> set ports. validPortsFormat p \<noteq> None) \<and> ports_disjoint (map port_of ports)"
proof -
  have "validatePorts grow ports = None \<longleftrightarrow> (\<exists>r. validate_ports grow 0 ports \<lparr>sl_ptr = 0, sl_len = 0\<rparr> [[]] = Inr r)"
    by (auto simp: validatePorts_def split: sum.splits)
  also have "\<dots> \<longleftrightarrow> (\<forall>p \<in> set ports. validPortsFormat p \<noteq> None) \<and> ports_disjoint (map port_of ports)"
    using validate_ports_result [OF nil_slice(1)] by (simp add: nil_slice(2) ports_sorted_def)
  finally show ?thesis .
qed

text \<open>A port below all others doubles the list.\<close>

lemma placed_doubles:
  assumes "placed xs c ys" "xs \<noteq> []" "wf_port c" "\<forall>x \<in> set xs. port_End c < port_Start x \<and> wf_port x"
  shows "length ys = 2 * length xs" "set ys = insert c (set xs)"
proof -
  obtain m where m: "m \<le> length xs" "ys = take m xs @ replicate (if m = length xs then 1 else length xs - m) c @ drop m xs"
      "\<forall>x \<in> set (take m xs). port_End x < port_Start c"
    using assms(1) unfolding placed_def by blast
  have "m = 0"
  proof (rule ccontr)
    assume "m \<noteq> 0"
    then have "hd xs \<in> set (take m xs)" using assms(2) by (cases xs; cases m) simp_all
    then show False using m(3) assms(2,3,4) by (fastforce simp: wf_port_def dest: in_set_takeD)
  qed
  then show "length ys = 2 * length xs" "set ys = insert c (set xs)" using m(2) assms(2) by auto
qed

lemma validate_ports_doubles:
  assumes "slice_ok h s" "ports_sorted (elems h s)" "elems h s \<noteq> []" "sorted_wrt (>) ns"
    "\<forall>n \<in> set ns. validPortsFormat (f n) = Some \<lparr>port_Start = n, port_End = n\<rparr>"
    "\<forall>n \<in> set ns. \<forall>x \<in> set (elems h s). n < port_Start x"
  shows "\<exists>s' h'. validate_ports grow i (map f ns) s h = Inr (s', h') \<and> slice_ok h' s' \<and> sl_len s' = 2 ^ length ns * sl_len s"
  using assms
proof (induction ns arbitrary: i s h)
  case (Cons n ns)
  let ?c = "\<lparr>port_Start = n, port_End = n\<rparr>"
  have c: "wf_port ?c" by (simp add: wf_port_def)
  have wf: "\<forall>x \<in> set (elems h s). wf_port x" using Cons.prems(2) by (simp add: ports_sorted_def)
  have "x \<in> set (elems h s) \<Longrightarrow> port_set x \<inter> port_set ?c = {}" for x
    using Cons.prems(6) wf port_sets_disjoint [of x ?c] c by auto
  then obtain s' h' where s': "checkPortsOverlapping grow s ?c h = Some (s', h')" "slice_ok h' s'" "placed (elems h s) ?c (elems h' s')"
    using check_ports_result [OF Cons.prems(1,2) c, of grow] by (auto split: if_splits)
  have ab: "\<forall>x \<in> set (elems h s). port_End ?c < port_Start x \<and> wf_port x" using Cons.prems(6) wf by simp
  note d = placed_doubles [OF s'(3) Cons.prems(3) c ab]
  have "elems h' s' \<noteq> []" using d(2) by auto
  moreover have "\<forall>m \<in> set ns. \<forall>x \<in> set (elems h' s'). m < port_Start x" using Cons.prems(4,6) by (auto simp: d(2))
  ultimately obtain s'' h'' where "validate_ports grow (i + 1) (map f ns) s' h' = Inr (s'', h'')" "slice_ok h'' s''"
      "sl_len s'' = 2 ^ length ns * sl_len s'"
    using Cons.IH [OF s'(2) placed_sorted(1) [OF s'(3) Cons.prems(2) c], of "i + 1"] Cons.prems(4,5) by auto
  moreover have "sl_len s' = 2 * sl_len s" using d(1) length_elems [OF s'(2)] length_elems [OF Cons.prems(1)] by simp
  ultimately show ?case using Cons.prems(5) s'(1) by simp
qed simp


section \<open>Lemmas: subnets, protocols, byte matches\<close>

lemma validatePrefix_wf: "validatePrefix s = Some n \<Longrightarrow> wf_net n"
  by (auto simp: validatePrefix_def dest: parse_cidr_wf split: option.splits if_splits)

lemma ip_equal_plain: "plain a \<Longrightarrow> plain b \<Longrightarrow> ip_equal a b \<longleftrightarrow> a = b"
  by (auto simp: ip_equal_def to16_def plain_def v4mapped_def)

lemma subnetContains_overlap:
  assumes "wf_net a" "wf_net b" "plain (net_ip a)" "plain (net_ip b)" "subnetContainsSubnet a b"
  shows "overlap a b"
  using assms contains_self [of b] by (auto simp: subnetContainsSubnet_def overlap_def Let_def ip_equal_plain split: if_splits)

lemma overlap_subnetContains:
  assumes "wf_net a" "wf_net b" "plain (net_ip a)" "plain (net_ip b)" "overlap a b" "net_ones a \<le> net_ones b"
  shows "subnetContainsSubnet a b"
proof -
  have len: "length (net_ip a) = length (net_ip b)" using assms overlap_iff [OF assms(1,2)] by simp
  then have w: "wild b \<le> wild a" using assms(6) by (simp add: wild_def net_bits_def)
  have c: "contains a (net_ip b)"
    using overlap_inside [OF assms(2,1) _ w contains_self [OF assms(2)]] assms(5) overlap_sym by blast
  show ?thesis
  proof (cases "net_ones a = net_ones b")
    case True
    then have "wild a = wild b" using len by (simp add: wild_def net_bits_def)
    then have "ip_val (net_ip a) = ip_val (net_ip b)"
      using assms(1-5) overlap_iff [OF assms(1,2)] by (auto simp: wf_net_def elim!: dvdE)
    then show ?thesis using True ip_val_inj [OF len] by (simp add: subnetContainsSubnet_def ip_equal_def)
  next
    case False
    then show ?thesis using c assms(6) by (simp add: subnetContainsSubnet_def Let_def)
  qed
qed

lemma subnetsOverlap_shared:
  assumes "wf_net a" "wf_net b" "plain (net_ip a)" "plain (net_ip b)"
  shows "subnetsOverlap a b \<longleftrightarrow> (\<exists>x. contains a x \<and> contains b x)"
proof -
  have "subnetsOverlap a b \<longleftrightarrow> overlap a b"
    using assms subnetContains_overlap overlap_subnetContains overlap_sym nat_le_linear [of "net_ones a" "net_ones b"]
    unfolding subnetsOverlap_def by metis
  then show ?thesis using overlap_shared [OF assms(1,2)] by simp
qed

lemma overlapping_subnet_None: "overlapping_subnet j n ms = None \<longleftrightarrow> (\<forall>m \<in> set ms. \<not> subnetsOverlap n m)"
  by (induction ms arbitrary: j) auto

lemma overlapping_subnet_Some: "overlapping_subnet j n ms = Some k \<Longrightarrow> \<exists>m \<in> set ms. subnetsOverlap n m"
  by (induction ms arbitrary: j) (auto split: if_splits)

definition subnet_of :: "string \<Rightarrow> ipnet" where
  "subnet_of s = the (validatePrefix s)"

lemma validate_subnets_None:
  "validate_subnets i ss ns = None \<longleftrightarrow>
     (\<forall>s \<in> set ss. validatePrefix s \<noteq> None) \<and> sorted_wrt (\<lambda>m n. \<not> subnetsOverlap n m) (map subnet_of ss) \<and>
     (\<forall>s \<in> set ss. \<forall>n \<in> set ns. \<not> subnetsOverlap (subnet_of s) n)"
proof (induction ss arbitrary: i ns)
  case (Cons s ss)
  then show ?case by (auto simp: overlapping_subnet_None subnet_of_def dest: overlapping_subnet_Some split: option.splits)
qed simp

text \<open>No address is in two of the subnets.\<close>

definition subnets_disjoint :: "ipnet list \<Rightarrow> bool" where
  "subnets_disjoint ns \<longleftrightarrow> (\<forall>i j. i < j \<longrightarrow> j < length ns \<longrightarrow> \<not> (\<exists>a. contains (ns ! i) a \<and> contains (ns ! j) a))"

lemma validateSubnets_exact:
  assumes "\<forall>s \<in> set ss. \<forall>n. validatePrefix s = Some n \<longrightarrow> plain (net_ip n)"
  shows "validateSubnets ss = None \<longleftrightarrow> (\<forall>s \<in> set ss. validatePrefix s \<noteq> None) \<and> subnets_disjoint (map subnet_of ss)"
proof -
  have "sorted_wrt (\<lambda>m n. \<not> subnetsOverlap n m) (map subnet_of ss) \<longleftrightarrow> subnets_disjoint (map subnet_of ss)"
    if v: "\<forall>s \<in> set ss. validatePrefix s \<noteq> None"
  proof -
    have "wf_net n \<and> plain (net_ip n)" if "n \<in> set (map subnet_of ss)" for n
      using that v assms validatePrefix_wf by (auto simp: subnet_of_def)
    then have eq: "subnetsOverlap n m \<longleftrightarrow> (\<exists>a. contains m a \<and> contains n a)"
      if "m \<in> set (map subnet_of ss)" "n \<in> set (map subnet_of ss)" for m n
      using subnetsOverlap_shared [of n m] that by blast
    have "\<not> subnetsOverlap (map subnet_of ss ! j) (map subnet_of ss ! i) \<longleftrightarrow>
        \<not> (\<exists>a. contains (map subnet_of ss ! i) a \<and> contains (map subnet_of ss ! j) a)"
      if "i < j" "j < length (map subnet_of ss)" for i j
      using eq [OF nth_mem nth_mem] that by simp
    then show ?thesis unfolding subnets_disjoint_def sorted_wrt_iff_nth_less by blast
  qed
  then show ?thesis by (auto simp: validateSubnets_def validate_subnets_None)
qed

lemma duplicated_protocol_iff: "duplicated_protocol ps seen \<longleftrightarrow> \<not> distinct ps \<or> set ps \<inter> seen \<noteq> {}"
  by (induction ps arbitrary: seen) auto

lemma validate_byte_matches_None: "validate_byte_matches i bms = None \<longleftrightarrow> (\<forall>bm \<in> set bms. ValidByteMatch bm)"
  by (induction bms arbitrary: i) auto

section \<open>Lemmas: VIPs\<close>

text \<open>The stream of a name, the last one in the list.\<close>

definition stream_named :: "v1_Stream list \<Rightarrow> string \<rightharpoonup> v1_Stream" where
  "stream_named sl name = find (\<lambda>s. meta_Name (v1s_meta s) = name) (rev sl)"

lemma stream_named_append:
  "stream_named (sl @ [s]) name = (if meta_Name (v1s_meta s) = name then Some s else stream_named sl name)"
  by (simp add: stream_named_def)

lemma stream_index_snoc:
  "stream_index name (sl @ [s]) m c =
     (let (m', c') = stream_index name sl m c
      in (m'(meta_Name (v1s_meta s) \<mapsto> s), if meta_Name (v1s_meta s) = name then v1s_Conduit s else c'))"
  by (induction sl arbitrary: m c) (simp_all add: Let_def)

lemma stream_index_named:
  "stream_index name sl Map.empty [] = (stream_named sl, case stream_named sl name of None \<Rightarrow> [] | Some s \<Rightarrow> v1s_Conduit s)"
proof (induction sl rule: rev_induct)
  case Nil
  have "stream_named [] = Map.empty" by (simp add: fun_eq_iff stream_named_def)
  then show ?case by simp
next
  case (snoc s sl)
  have "stream_named (sl @ [s]) = (stream_named sl)(meta_Name (v1s_meta s) \<mapsto> s)" by (auto simp: fun_eq_iff stream_named_append)
  with snoc show ?case by (auto simp: stream_index_snoc fun_eq_iff)
qed

text \<open>Another flow conflicts if both streams are known, their conduits differ, and a VIP is shared.\<close>

definition vip_conflict :: "v1_Stream list \<Rightarrow> v1_Flow \<Rightarrow> v1_Flow \<Rightarrow> bool" where
  "vip_conflict sl r flow \<longleftrightarrow>
     (meta_Name (v1f_meta flow) \<noteq> meta_Name (v1f_meta r) \<or> meta_Namespace (v1f_meta flow) \<noteq> meta_Namespace (v1f_meta r)) \<and>
     (\<exists>s t. stream_named sl (v1f_Stream r) = Some s \<and> stream_named sl (v1f_Stream flow) = Some t \<and>
        v1s_Conduit s \<noteq> [] \<and> v1s_Conduit t \<noteq> v1s_Conduit s) \<and>
     set (v1f_Vips r) \<inter> set (v1f_Vips flow) \<noteq> {}"

lemma vip_conflicts_Nil:
  assumes "c = (case stream_named sl (v1f_Stream r) of None \<Rightarrow> [] | Some s \<Rightarrow> v1s_Conduit s)"
  shows "vip_conflicts r (stream_named sl) c fl hard = [] \<longleftrightarrow> hard = [] \<and> (\<forall>flow \<in> set fl. \<not> vip_conflict sl r flow)"
proof (induction fl arbitrary: hard)
  case (Cons flow fl)
  then show ?case using assms
    by (auto simp: vip_conflict_def filter_empty_conv Let_def split: option.splits if_splits)
qed simp

lemma validateVips_Nil:
  "validateVips cl r = [] \<longleftrightarrow>
     (\<exists>fl sl. cl_Flows cl (meta_Namespace (v1f_meta r)) (label_trench (v1f_meta r)) = Some fl \<and>
        cl_Streams cl (meta_Namespace (v1f_meta r)) (label_trench (v1f_meta r)) = Some sl \<and>
        (\<forall>flow \<in> set fl. \<not> vip_conflict sl r flow))"
  by (auto simp: validateVips_def stream_index_named vip_conflicts_Nil [OF refl] split: option.splits if_splits)


section \<open>Properties\<close>

lemma show_nat_port:
  assumes "n < 65536"
  shows "validPortsFormat (show_nat n) = Some \<lparr>port_Start = n, port_End = n\<rparr>"
proof -
  have r: "read_base 10 (show_nat n) = Some n" by (simp add: show_nat_def)
  moreover have "read_base 10 ''any'' = None" by code_simp
  ultimately have "show_nat n \<noteq> ''any''" by (metis option.distinct(1))
  then show ?thesis using r assms show_nat_chars(4)
    by (simp add: validPortsFormat_def NewPortFromString_def parse_uint16_def NewPort_def)
qed

text \<open>
  C31: whatever the growth policy of slices, \<open>validatePorts\<close> accepts a list exactly when
  every entry is a port, a range or "any", and no port is in two entries. The loop inserts into the array
  that it reads and goes on after it has inserted.
\<close>

theorem validate_ports_exact:
  "validatePorts grow ports = None \<longleftrightarrow>
     list_all (\<lambda>p. validPortsFormat p \<noteq> None) ports \<and> ports_disjoint (map port_of ports)"
  by (simp add: validatePorts_exact list_all_iff)

text \<open>
  C36: the loop of \<open>checkPortsOverlapping\<close> does not stop after it has inserted the new
  range, so \<open>n\<close> valid ports in descending order make a list of 2 to the power of \<open>n - 1\<close> ranges.
\<close>

theorem validate_ports_doubles_list:
  assumes "sorted_wrt (>) (n # ns)" "n < 65536"
  shows "\<exists>s h. validate_ports grow 0 (map show_nat (n # ns)) \<lparr>sl_ptr = 0, sl_len = 0\<rparr> [[]] = Inr (s, h) \<and>
    length (elems h s) = 2 ^ length ns"
proof -
  let ?c = "\<lparr>port_Start = n, port_End = n\<rparr>" and ?nil = "\<lparr>sl_ptr = 0, sl_len = 0\<rparr>"
  have f: "m \<in> set (n # ns) \<Longrightarrow> validPortsFormat (show_nat m) = Some \<lparr>port_Start = m, port_End = m\<rparr>" for m
    using assms by (intro show_nat_port) auto
  obtain s h where s: "insertPortList grow ?nil 0 ?c [[]] = (s, h)" by fastforce
  note e = insert_elems [OF nil_slice(1) _ s]
  have el: "elems h s = [?c]" using e(2) nil_slice by simp
  have so: "ports_sorted (elems h s)" by (simp add: el ports_sorted_def wf_port_def)
  have le: "sl_len s = 1" using length_elems [OF e(1)] el by simp
  obtain s' h' where r: "validate_ports grow 1 (map show_nat ns) s h = Inr (s', h')" "slice_ok h' s'" "sl_len s' = 2 ^ length ns * sl_len s"
    using validate_ports_doubles [OF e(1) so, of ns show_nat grow 1] assms(1) f by (auto simp: el)
  have "validate_ports grow 0 (map show_nat (n # ns)) ?nil [[]] = Inr (s', h')"
    using r(1) f s by (simp add: checkPortsOverlapping_def)
  then show ?thesis using length_elems [OF r(2)] r(3) le by auto
qed

theorem validate_ports_doubles_list_witness:
  "\<exists>s h. validate_ports (\<lambda>_ n. 2 * n) 0 (map show_nat [40, 30, 20, 10]) \<lparr>sl_ptr = 0, sl_len = 0\<rparr> [[]] = Inr (s, h) \<and>
     length (elems h s) = 8"
  using validate_ports_doubles_list [of 40 "[30, 20, 10]" "\<lambda>_ n. 2 * n"] by simp


text \<open>A flow of a stream of the conduit c, and a flow of a stream of another conduit with another VIP.\<close>

definition ex_meta :: "string \<Rightarrow> ObjectMeta" where
  "ex_meta name = \<lparr>meta_Name = name, meta_Namespace = ''default'', meta_Labels = [''trench'' \<mapsto> ''t'']\<rparr>"

definition ex_flow :: v1_Flow where
  "ex_flow = \<lparr>v1f_meta = ex_meta ''f'', v1f_Stream = ''s'', v1f_Vips = [''vip1''], v1f_SourceSubnets = [''10.0.0.0/8'', ''192.168.0.0/16''],
     v1f_SourcePorts = [''any''], v1f_DestinationPorts = [''443'', ''80-90''], v1f_Protocols = [''tcp''], v1f_Priority = 1,
     v1f_ByteMatches = [''tcp[4 : 2] & 0xff = 0x1f'']\<rparr>"

definition ex_streams :: "v1_Stream list" where
  "ex_streams = [\<lparr>v1s_meta = ex_meta ''s'', v1s_Conduit = ''c'', v1s_MaxTargets = Some 100\<rparr>,
     \<lparr>v1s_meta = ex_meta ''s2'', v1s_Conduit = ''c2'', v1s_MaxTargets = None\<rparr>]"

definition ex_v1_client :: v1_client where
  "ex_v1_client = \<lparr>cl_Trench = (\<lambda>_ _. True), cl_Flows = (\<lambda>_ _. Some [ex_flow\<lparr>v1f_meta := ex_meta ''g'', v1f_Stream := ''s2'', v1f_Vips := [''vip2'']\<rparr>]),
     cl_Streams = (\<lambda>_ _. Some ex_streams), cl_Attractors = (\<lambda>_ _. Some [])\<rparr>"

lemma ex_flow_prefixes:
  "validatePrefix ''10.0.0.0/8'' = Some \<lparr>net_ip = [10, 0, 0, 0], net_ones = 8\<rparr>"
  "validatePrefix ''192.168.0.0/16'' = Some \<lparr>net_ip = [192, 168, 0, 0], net_ones = 16\<rparr>"
  by (simp_all add: validatePrefix_def ip_equal_def net_eval)

lemma ex_flow_subnets: "validateSubnets (v1f_SourceSubnets ex_flow) = None"
  by (simp add: validateSubnets_def ex_flow_def ex_flow_prefixes subnetsOverlap_def subnetContainsSubnet_def ip_equal_def net_eval)

lemma ex_flow_ports:
  "validatePorts (\<lambda>_ n. n) (v1f_SourcePorts ex_flow) = None" "validatePorts (\<lambda>_ n. n) (v1f_DestinationPorts ex_flow) = None"
proof -
  have "validPortsFormat ''any'' = Some \<lparr>port_Start = 0, port_End = 65535\<rparr>" by (simp add: validPortsFormat_def NewPort_def)
  moreover have "validPortsFormat ''443'' = Some \<lparr>port_Start = 443, port_End = 443\<rparr>"
    "validPortsFormat ''80-90'' = Some \<lparr>port_Start = 80, port_End = 90\<rparr>"
    by (simp_all add: validPortsFormat_def NewPortFromString_def parse_uint16_def NewPort_def read_base_def char_digit_def undigits_def)
  ultimately show "validatePorts (\<lambda>_ n. n) (v1f_SourcePorts ex_flow) = None" "validatePorts (\<lambda>_ n. n) (v1f_DestinationPorts ex_flow) = None"
    by (simp_all add: validatePorts_exact ex_flow_def port_of_def ports_disjoint_Cons port_set_def)
qed

lemma ex_flow_valid: "validateFlow (\<lambda>_ n. n) ex_v1_client ex_flow = None"
proof -
  have "ValidByteMatch ''tcp[4 : 2] & 0xff = 0x1f''"
    by (simp add: ValidByteMatch_def match_position_def match_mask_def match_value_def match_number_def skip_spaces_def dec_char_def hex_char_def)
  then have "validateByteMatches (v1f_ByteMatches ex_flow) = None" by (simp add: validateByteMatches_def ex_flow_def)
  moreover have "validateVips ex_v1_client ex_flow = []"
    by (simp add: validateVips_Nil ex_v1_client_def vip_conflict_def) (simp add: ex_flow_def)
  ultimately show ?thesis using ex_flow_subnets ex_flow_ports
    by (simp add: validateFlow_def NewInvalid_def flow_errors_def) (simp add: ex_flow_def ex_meta_def)
qed


end
