(* ===== verification/AdmissionResources.thy ===== *)
theory AdmissionResources
  imports Admission
begin

text \<open>
  The webhooks of the other resources: conduits with their port NATs, streams, trenches, VIPs and attractors
  (\<open>api/v1/*_webhook.go\<close>). The webhook of gateways parses durations with floating point arithmetic and is not modelled.
\<close>

section \<open>Definitions\<close>

subsection \<open>Conduits\<close>

text \<open>The loop over the VIPs of one port NAT; the maps go from the text of a key to the index of its port NAT.\<close>

datatype nat_error = MustMerge nat nat | Colliding nat nat

definition port_key :: "nat \<Rightarrow> string \<Rightarrow> string \<Rightarrow> string" where
  "port_key port vip protocol = show_nat port @ ''-'' @ vip @ ''-'' @ protocol"

fun nat_vips ::
  "nat \<Rightarrow> PortNatSpec \<Rightarrow> string list \<Rightarrow> (string \<rightharpoonup> nat) \<Rightarrow> (string \<rightharpoonup> nat) \<Rightarrow> nat_error + (string \<rightharpoonup> nat) \<times> (string \<rightharpoonup> nat)" where
  "nat_vips i pn [] targetPortVip portVip = Inr (targetPortVip, portVip)"
| "nat_vips i pn (vip # vips) targetPortVip portVip =
     (let targetPortVipProtocol = port_key (pns_TargetPort pn) vip (pns_Protocol pn);
          portVipProtocol = port_key (pns_Port pn) vip (pns_Protocol pn)
      in case targetPortVip targetPortVipProtocol of
           Some index \<Rightarrow> Inl (Colliding index i)
         | None \<Rightarrow>
         (case targetPortVip portVipProtocol of
            Some index \<Rightarrow> Inl (Colliding index i)
          | None \<Rightarrow>
          (case portVip targetPortVipProtocol of
             Some index \<Rightarrow> Inl (Colliding index i)
           | None \<Rightarrow>
           (case portVip portVipProtocol of
              Some index \<Rightarrow> Inl (Colliding index i)
            | None \<Rightarrow> nat_vips i pn vips (targetPortVip(targetPortVipProtocol \<mapsto> i)) (portVip(portVipProtocol \<mapsto> i))))))"

fun validate_port_nat ::
  "nat \<Rightarrow> PortNatSpec list \<Rightarrow> (string \<rightharpoonup> nat) \<Rightarrow> (string \<rightharpoonup> nat) \<Rightarrow> (string \<rightharpoonup> nat) \<Rightarrow> nat_error option" where
  "validate_port_nat i [] targetPortVip portVip portTargetPort = None"
| "validate_port_nat i (pn # pns) targetPortVip portVip portTargetPort =
     (let portTargetPortProtocol = show_nat (pns_Port pn) @ ''-'' @ show_nat (pns_TargetPort pn) @ ''-'' @ pns_Protocol pn
      in case portTargetPort portTargetPortProtocol of
           Some index \<Rightarrow> Some (MustMerge index i)
         | None \<Rightarrow>
             (case nat_vips i pn (pns_Vips pn) targetPortVip portVip of
                Inl err \<Rightarrow> Some err
              | Inr (targetPortVip', portVip') \<Rightarrow>
                  validate_port_nat (i + 1) pns targetPortVip' portVip' (portTargetPort(portTargetPortProtocol \<mapsto> i))))"

definition validatePortNat :: "v1_Conduit \<Rightarrow> nat_error option" where
  "validatePortNat r = validate_port_nat 0 (v1c_DestinationPortNats r) Map.empty Map.empty Map.empty"

definition validateConduit :: "v1_Conduit \<Rightarrow> v1_error option" where
  "validateConduit r =
     NewInvalid
       ((if meta_Labels (v1c_meta r) ''trench'' = None then [FInvalid [''metadata'', ''labels'']] else []) @
        (if v1c_Type r = [] then [FInvalid [''metadata'', ''spec'', ''type'']] else []) @
        (if validatePortNat r \<noteq> None then [FInvalid [''metadata'', ''spec'', ''destination-port-nats'']] else []))"

definition conduit_validateUpdate :: "v1_Conduit \<Rightarrow> v1_object \<Rightarrow> v1_error option" where
  "conduit_validateUpdate r oldObj =
     (case oldObj of
        OConduit old \<Rightarrow>
          if label_trench (v1c_meta r) \<noteq> label_trench (v1c_meta old) then Some (Forbidden [''metadata'', ''labels'', ''trench'']) else None
      | _ \<Rightarrow> Some BadRequest)"

definition conduit_ValidateCreate :: "v1_client \<Rightarrow> v1_Conduit \<Rightarrow> v1_error option" where
  "conduit_ValidateCreate cl r =
     (if \<not> cl_Trench cl (meta_Namespace (v1c_meta r)) (label_trench (v1c_meta r)) then Some TrenchNotFound else validateConduit r)"

definition conduit_ValidateUpdate :: "v1_Conduit \<Rightarrow> v1_object \<Rightarrow> v1_error option" where
  "conduit_ValidateUpdate r old = (case conduit_validateUpdate r old of Some err \<Rightarrow> Some err | None \<Rightarrow> validateConduit r)"

subsection \<open>Streams\<close>

definition validateStream :: "v1_Stream \<Rightarrow> v1_error option" where
  "validateStream r =
     NewInvalid
       ((if meta_Labels (v1s_meta r) ''trench'' = None then [FInvalid [''metadata'', ''labels'']] else []) @
        (case v1s_MaxTargets r of
           None \<Rightarrow> []
         | Some m \<Rightarrow> if m < 1 \<or> m > 10000 then [FInvalid [''spec'', ''max-targets'']] else []))"

definition stream_validateUpdate :: "v1_Stream \<Rightarrow> v1_object \<Rightarrow> v1_error option" where
  "stream_validateUpdate r oldObj =
     (case oldObj of
        OStream old \<Rightarrow>
          if label_trench (v1s_meta r) \<noteq> label_trench (v1s_meta old) then Some (Forbidden [''metadata'', ''labels'', ''trench''])
          else if v1s_MaxTargets r \<noteq> v1s_MaxTargets old then Some (Forbidden [''metadata'', ''spec'', ''max-targets''])
          else None
      | _ \<Rightarrow> Some BadRequest)"

definition stream_ValidateCreate :: "v1_client \<Rightarrow> v1_Stream \<Rightarrow> v1_error option" where
  "stream_ValidateCreate cl r =
     (if \<not> cl_Trench cl (meta_Namespace (v1s_meta r)) (label_trench (v1s_meta r)) then Some TrenchNotFound else validateStream r)"

definition stream_ValidateUpdate :: "v1_Stream \<Rightarrow> v1_object \<Rightarrow> v1_error option" where
  "stream_ValidateUpdate r old = (case stream_validateUpdate r old of Some err \<Rightarrow> Some err | None \<Rightarrow> validateStream r)"

subsection \<open>Trenches and VIPs\<close>

definition trench_validateSpec :: "v1_Trench \<Rightarrow> field_error list" where
  "trench_validateSpec r = (if v1t_IPFamily r = [] then [FInvalid [''spec'', ''ip-family'']] else [])"

definition validateTrench :: "v1_Trench \<Rightarrow> v1_error option" where
  "validateTrench r = NewInvalid (trench_validateSpec r)"

definition trench_validateUpdate :: "v1_Trench \<Rightarrow> v1_object \<Rightarrow> v1_error option" where
  "trench_validateUpdate r oldObj =
     (case oldObj of
        OTrench old \<Rightarrow> if v1t_IPFamily r \<noteq> v1t_IPFamily old then Some (Forbidden [''spec'', ''ip-family'']) else None
      | _ \<Rightarrow> Some BadRequest)"

definition trench_ValidateCreate :: "v1_Trench \<Rightarrow> v1_error option" where
  "trench_ValidateCreate r = validateTrench r"

definition trench_ValidateUpdate :: "v1_Trench \<Rightarrow> v1_object \<Rightarrow> v1_error option" where
  "trench_ValidateUpdate r old = (case trench_validateUpdate r old of Some err \<Rightarrow> Some err | None \<Rightarrow> validateTrench r)"

definition validateVip :: "v1_Vip \<Rightarrow> v1_error option" where
  "validateVip r =
     NewInvalid
       ((if validatePrefix (v1v_Address r) = None then [FInvalid [''spec'', ''address'']] else []) @
        (if meta_Labels (v1v_meta r) ''trench'' = None then [FInvalid [''metadata'', ''labels'']] else []))"

definition vip_validateLabelUpdate :: "v1_Vip \<Rightarrow> v1_object \<Rightarrow> v1_error option" where
  "vip_validateLabelUpdate r oldObj =
     (case oldObj of
        OVip old \<Rightarrow>
          if label_trench (v1v_meta r) \<noteq> label_trench (v1v_meta old) then Some (Forbidden [''metadata'', ''labels'', ''trench'']) else None
      | _ \<Rightarrow> Some BadRequest)"

definition vip_ValidateCreate :: "v1_client \<Rightarrow> v1_Vip \<Rightarrow> v1_error option" where
  "vip_ValidateCreate cl r =
     (if \<not> cl_Trench cl (meta_Namespace (v1v_meta r)) (label_trench (v1v_meta r)) then Some TrenchNotFound else validateVip r)"

definition vip_ValidateUpdate :: "v1_Vip \<Rightarrow> v1_object \<Rightarrow> v1_error option" where
  "vip_ValidateUpdate r old = (case vip_validateLabelUpdate r old of Some err \<Rightarrow> Some err | None \<Rightarrow> validateVip r)"

subsection \<open>Attractors\<close>

text \<open>The outer None is the panic of a nil pointer.\<close>

fun nad_errors :: "NetworkAttachmentSpec option list \<Rightarrow> field_error list option" where
  "nad_errors [] = Some []"
| "nad_errors (None # nas) = None"
| "nad_errors (Some na # nas) =
     map_option (\<lambda>errs.
       (if nad_Name na = [] then [FRequired [''spec'', ''interface'', ''network-attachments'', ''name'']] else []) @
       (if nad_Namespace na = [] then [FRequired [''spec'', ''interface'', ''network-attachments'', ''namespace'']] else []) @ errs)
     (nad_errors nas)"

definition interface_errors :: "InterfaceSpec \<Rightarrow> field_error list option" where
  "interface_errors i =
     (if if_Type i = ''nsm-vlan'' then
        Some ((if validatePrefix (if_PrefixIPv4 i) = None then [FInvalid [''spec'', ''ipv4-prefix'']] else []) @
              (if validatePrefix (if_PrefixIPv6 i) = None then [FInvalid [''spec'', ''ipv6-prefix'']] else []) @
              (if if_BaseInterface i = [] \<or> if_VlanID i = None then [FInvalid [''spec'', ''interface'', ''nsm-vlan'']] else []))
      else if if_Type i = ''network-attachment'' then
        map_option (\<lambda>errs.
          (if if_PrefixIPv4 i \<noteq> [] then [FForbidden [''spec'', ''ipv4-prefix'']] else []) @
          (if if_PrefixIPv6 i \<noteq> [] then [FForbidden [''spec'', ''ipv6-prefix'']] else []) @
          (if length (if_NetworkAttachments i) \<noteq> 1 then [FInvalid [''spec'', ''interface'', ''multus-interface'']] else []) @ errs)
        (nad_errors (if_NetworkAttachments i))
      else Some [FInvalid [''spec'', ''interface'', ''type'']])"

text \<open>The errors that one attractor of the list gives: one for each shared VIP and each shared conduit.\<close>

definition shared_errors :: "v1_Attractor \<Rightarrow> v1_Attractor \<Rightarrow> field_error list" where
  "shared_errors r attractor =
     (if meta_Name (v1a_meta attractor) = meta_Name (v1a_meta r) \<and> meta_Namespace (v1a_meta attractor) = meta_Namespace (v1a_meta r)
      then []
      else map (\<lambda>_. FInvalid [''spec'', ''vips'']) (filter (\<lambda>vip. vip \<in> set (v1a_Vips r)) (v1a_Vips attractor)) @
           map (\<lambda>_. FInvalid [''spec'', ''composites'']) (filter (\<lambda>c. c \<in> set (v1a_Composites r)) (v1a_Composites attractor)))"

definition validateAttractor :: "v1_client \<Rightarrow> v1_Attractor \<Rightarrow> v1_error option option" where
  "validateAttractor cl r =
     map_option (\<lambda>errs.
       NewInvalid
         ((if meta_Labels (v1a_meta r) ''trench'' = None then [FInvalid [''metadata'', ''labels'']] else []) @ errs @
          (if length (v1a_Composites r) > 1 then [FInvalid [''spec'', ''composites'']] else []) @
          (case cl_Attractors cl (meta_Namespace (v1a_meta r)) (label_trench (v1a_meta r)) of
             None \<Rightarrow> [FInvalid [''spec'', ''composites'']]
           | Some al \<Rightarrow> concat (map (shared_errors r) al))))
     (interface_errors (v1a_Interface r))"

text \<open>\<open>strings.ToLower\<close> on ASCII text.\<close>

definition lower_char :: "char \<Rightarrow> char" where
  "lower_char c = (let k = (of_char c :: nat) in if 65 \<le> k \<and> k \<le> 90 then char_of (k + 32) else c)"

definition ToLower :: "string \<Rightarrow> string" where
  "ToLower s = map lower_char s"

fun nads_update :: "NetworkAttachmentSpec option list \<Rightarrow> NetworkAttachmentSpec option list \<Rightarrow> v1_error option option" where
  "nads_update (Some n # nads) (Some old # olds) =
     (if nad_Namespace n \<noteq> nad_Namespace old then Some (Some (Forbidden [''spec'', ''interface'', ''network-attachments'', ''namespace'']))
      else if nad_Name n \<noteq> nad_Name old then Some (Some (Forbidden [''spec'', ''interface'', ''network-attachments'', ''name'']))
      else if nad_InterfaceRequest n \<noteq> nad_InterfaceRequest old
      then Some (Some (Forbidden [''spec'', ''interface'', ''network-attachments'', ''interface'']))
      else nads_update nads olds)"
| "nads_update [] olds = Some None"
| "nads_update _ _ = None"

definition interface_update :: "InterfaceSpec \<Rightarrow> InterfaceSpec \<Rightarrow> v1_error option option" where
  "interface_update i old =
     (if if_Type i = ''nsm-vlan'' then
        (case (if_VlanID i, if_VlanID old) of
           (Some v, Some w) \<Rightarrow>
             if v \<noteq> w then Some (Some (Forbidden [''spec'', ''interface'', ''nsm-vlan'', ''vlan-id'']))
             else if if_BaseInterface i \<noteq> if_BaseInterface old
             then Some (Some (Forbidden [''spec'', ''interface'', ''nsm-vlan'', ''base-interface'']))
             else Some None
         | _ \<Rightarrow> None)
      else if if_Type i = ''network-attachment'' then
        (if length (if_NetworkAttachments i) \<noteq> length (if_NetworkAttachments old)
         then Some (Some (Forbidden [''spec'', ''interface'', ''network-attachments'']))
         else nads_update (if_NetworkAttachments i) (if_NetworkAttachments old))
      else Some None)"

definition attractor_validateUpdate :: "v1_Attractor \<Rightarrow> v1_object \<Rightarrow> v1_error option option" where
  "attractor_validateUpdate r oldObj =
     (case oldObj of
        OAttractor attrOld \<Rightarrow>
          (let i = v1a_Interface r; old = v1a_Interface attrOld in
           if label_trench (v1a_meta r) \<noteq> label_trench (v1a_meta attrOld) then Some (Some (Forbidden [''metadata'', ''labels'', ''trench'']))
           else if if_Type i \<noteq> ToLower (if_Type old) then Some (Some (Forbidden [''spec'', ''interface'', ''type'']))
           else case interface_update i old of
                  None \<Rightarrow> None
                | Some (Some err) \<Rightarrow> Some (Some err)
                | Some None \<Rightarrow>
                    if if_PrefixIPv4 i \<noteq> if_PrefixIPv4 old then Some (Some (Forbidden [''spec'', ''ipv4-prefix'']))
                    else if if_PrefixIPv6 i \<noteq> if_PrefixIPv6 old then Some (Some (Forbidden [''spec'', ''ipv6-prefix'']))
                    else Some None)
      | _ \<Rightarrow> Some (Some BadRequest))"

definition attractor_ValidateCreate :: "v1_client \<Rightarrow> v1_Attractor \<Rightarrow> v1_error option option" where
  "attractor_ValidateCreate cl r =
     (if \<not> cl_Trench cl (meta_Namespace (v1a_meta r)) (label_trench (v1a_meta r)) then Some (Some TrenchNotFound)
      else let r' = (case v1a_Replicas r of None \<Rightarrow> r\<lparr>v1a_Replicas := Some 1\<rparr> | Some _ \<Rightarrow> r) in validateAttractor cl r')"

definition attractor_ValidateUpdate :: "v1_client \<Rightarrow> v1_Attractor \<Rightarrow> v1_object \<Rightarrow> v1_error option option" where
  "attractor_ValidateUpdate cl r old =
     (case attractor_validateUpdate r old of
        None \<Rightarrow> None
      | Some (Some err) \<Rightarrow> Some (Some err)
      | Some None \<Rightarrow> validateAttractor cl r)"


subsection \<open>Vocabulary of the specification\<close>

text \<open>Two rules for one VIP and protocol that use the same port, before or after translation.\<close>

type_synonym nat_entry = "PortNatSpec \<times> string"

definition nat_clash :: "nat_entry \<Rightarrow> nat_entry \<Rightarrow> bool" where
  "nat_clash e f \<longleftrightarrow> snd e = snd f \<and> pns_Protocol (fst e) = pns_Protocol (fst f) \<and>
     {pns_Port (fst e), pns_TargetPort (fst e)} \<inter> {pns_Port (fst f), pns_TargetPort (fst f)} \<noteq> {}"

definition nat_entries :: "PortNatSpec list \<Rightarrow> nat_entry list" where
  "nat_entries pns = concat (map (\<lambda>pn. map (Pair pn) (pns_Vips pn)) pns)"

text \<open>What the API server lets through: protocols have no hyphen.\<close>

definition nat_protocol_ok :: "PortNatSpec \<Rightarrow> bool" where
  "nat_protocol_ok pn \<longleftrightarrow> CHR ''-'' \<notin> set (pns_Protocol pn)"

section \<open>Lemmas: port NATs\<close>

lemma split_last:
  assumes "c \<notin> set ys" "c \<notin> set ys'" "xs @ c # ys = xs' @ c # ys'"
  shows "xs = xs' \<and> ys = ys'"
proof -
  have "rev ys @ c # rev xs = rev ys' @ c # rev xs'" using arg_cong [OF assms(3), of rev] by simp
  from split_first [OF this] assms(1,2) show ?thesis by simp
qed

lemma port_key_inj:
  assumes "CHR ''-'' \<notin> set q" "CHR ''-'' \<notin> set q'"
  shows "port_key p v q = port_key p' v' q' \<longleftrightarrow> p = p' \<and> v = v' \<and> q = q'"
proof
  assume "port_key p v q = port_key p' v' q'"
  then have "show_nat p @ CHR ''-'' # (v @ CHR ''-'' # q) = show_nat p' @ CHR ''-'' # (v' @ CHR ''-'' # q')"
    by (simp add: port_key_def)
  from split_first [OF this show_nat_chars(4) show_nat_chars(4)]
  have "p = p'" "v @ CHR ''-'' # q = v' @ CHR ''-'' # q'" by auto
  with split_last [OF assms] show "p = p' \<and> v = v' \<and> q = q'" by blast
qed simp

definition target_key_of :: "nat_entry \<Rightarrow> string" where
  "target_key_of e = port_key (pns_TargetPort (fst e)) (snd e) (pns_Protocol (fst e))"

definition port_key_of :: "nat_entry \<Rightarrow> string" where
  "port_key_of e = port_key (pns_Port (fst e)) (snd e) (pns_Protocol (fst e))"

lemma clash_keys:
  assumes "nat_protocol_ok (fst e)" "nat_protocol_ok (fst f)"
  shows "nat_clash e f \<longleftrightarrow> {target_key_of e, port_key_of e} \<inter> {target_key_of f, port_key_of f} \<noteq> {}"
proof -
  note inj = port_key_inj [OF assms [unfolded nat_protocol_ok_def]] port_key_inj [OF assms(2,1) [unfolded nat_protocol_ok_def]]
  show ?thesis by (auto simp: nat_clash_def target_key_of_def port_key_of_def inj)
qed

lemma nat_vips_result:
  assumes "dom tm = target_key_of ` D" "dom pm = port_key_of ` D" "\<forall>e \<in> D. nat_protocol_ok (fst e)" "nat_protocol_ok pn"
  shows "case nat_vips i pn vips tm pm of
      Inl _ \<Rightarrow> \<not> (sorted_wrt (\<lambda>e f. \<not> nat_clash e f) (map (Pair pn) vips) \<and> (\<forall>e \<in> D. \<forall>v \<in> set vips. \<not> nat_clash e (pn, v)))
    | Inr (tm', pm') \<Rightarrow>
        sorted_wrt (\<lambda>e f. \<not> nat_clash e f) (map (Pair pn) vips) \<and> (\<forall>e \<in> D. \<forall>v \<in> set vips. \<not> nat_clash e (pn, v)) \<and>
        dom tm' = target_key_of ` (D \<union> Pair pn ` set vips) \<and> dom pm' = port_key_of ` (D \<union> Pair pn ` set vips)"
  using assms
proof (induction vips arbitrary: tm pm D)
  case (Cons v vips)
  let ?e = "(pn, v)" and ?T = "target_key_of (pn, v)" and ?P = "port_key_of (pn, v)"
  have keys: "port_key (pns_TargetPort pn) v (pns_Protocol pn) = ?T" "port_key (pns_Port pn) v (pns_Protocol pn) = ?P"
    by (simp_all add: target_key_of_def port_key_of_def)
  have free: "(\<forall>e \<in> D. \<not> nat_clash e ?e) \<longleftrightarrow> tm ?T = None \<and> tm ?P = None \<and> pm ?T = None \<and> pm ?P = None"
  proof -
    have "(\<forall>e \<in> D. \<not> nat_clash e ?e) \<longleftrightarrow> (\<forall>e \<in> D. {target_key_of e, port_key_of e} \<inter> {?T, ?P} = {})"
      using clash_keys [of _ ?e] Cons.prems(3,4) by auto
    also have "\<dots> \<longleftrightarrow> {?T, ?P} \<inter> (dom tm \<union> dom pm) = {}" unfolding Cons.prems(1,2) by auto
    finally show ?thesis by auto
  qed
  show ?case
  proof (cases "tm ?T = None \<and> tm ?P = None \<and> pm ?T = None \<and> pm ?P = None")
    case False
    then have "\<exists>err. nat_vips i pn (v # vips) tm pm = Inl err" by (auto simp: keys Let_def split: option.split)
    then show ?thesis using False free by auto
  next
    case True
    let ?D = "insert ?e D"
    have st: "nat_vips i pn (v # vips) tm pm = nat_vips i pn vips (tm(?T \<mapsto> i)) (pm(?P \<mapsto> i))"
      using True by (simp add: keys Let_def)
    have d: "dom (tm(?T \<mapsto> i)) = target_key_of ` ?D" "dom (pm(?P \<mapsto> i)) = port_key_of ` ?D" "\<forall>e \<in> ?D. nat_protocol_ok (fst e)"
      using Cons.prems by auto
    have u: "?D \<union> Pair pn ` set vips = D \<union> Pair pn ` set (v # vips)" by auto
    have ok: "sorted_wrt (\<lambda>e f. \<not> nat_clash e f) (map (Pair pn) vips) \<and> (\<forall>e \<in> ?D. \<forall>w \<in> set vips. \<not> nat_clash e (pn, w)) \<longleftrightarrow>
      sorted_wrt (\<lambda>e f. \<not> nat_clash e f) (map (Pair pn) (v # vips)) \<and> (\<forall>e \<in> D. \<forall>w \<in> set (v # vips). \<not> nat_clash e (pn, w))"
      using True free by auto
    define R where "R = nat_vips i pn vips (tm(?T \<mapsto> i)) (pm(?P \<mapsto> i))"
    note IH = Cons.IH [OF d Cons.prems(4), folded R_def, unfolded u]
    show ?thesis unfolding st [folded R_def] using IH ok by (cases R) (simp_all only: sum.case prod.case split: prod.splits, blast+)
  qed
qed simp


lemma nat_entries_Cons: "nat_entries (pn # pns) = map (Pair pn) (pns_Vips pn) @ nat_entries pns"
  by (simp add: nat_entries_def)

definition merge_key :: "PortNatSpec \<Rightarrow> nat \<times> nat \<times> string" where
  "merge_key pn = (pns_Port pn, pns_TargetPort pn, pns_Protocol pn)"

definition merge_text :: "PortNatSpec \<Rightarrow> string" where
  "merge_text pn = show_nat (pns_Port pn) @ ''-'' @ show_nat (pns_TargetPort pn) @ ''-'' @ pns_Protocol pn"

lemma merge_text_inj: "merge_text pn = merge_text qn \<longleftrightarrow> merge_key pn = merge_key qn"
proof
  assume "merge_text pn = merge_text qn"
  then have "show_nat (pns_Port pn) @ CHR ''-'' # (show_nat (pns_TargetPort pn) @ CHR ''-'' # pns_Protocol pn) =
      show_nat (pns_Port qn) @ CHR ''-'' # (show_nat (pns_TargetPort qn) @ CHR ''-'' # pns_Protocol qn)"
    by (simp add: merge_text_def)
  from split_first [OF this show_nat_chars(4) show_nat_chars(4)]
  have p: "pns_Port pn = pns_Port qn" and t: "show_nat (pns_TargetPort pn) @ CHR ''-'' # pns_Protocol pn =
      show_nat (pns_TargetPort qn) @ CHR ''-'' # pns_Protocol qn" by auto
  from split_first [OF t show_nat_chars(4) show_nat_chars(4)] p show "merge_key pn = merge_key qn" by (simp add: merge_key_def)
qed (simp add: merge_key_def merge_text_def)

lemma validate_port_nat_None:
  assumes "dom tm = target_key_of ` D" "dom pm = port_key_of ` D" "\<forall>e \<in> D. nat_protocol_ok (fst e)" "\<forall>pn \<in> set pns. nat_protocol_ok pn"
    "dom mm = merge_text ` M"
  shows "validate_port_nat i pns tm pm mm = None \<longleftrightarrow>
    distinct (map merge_key pns) \<and> (\<forall>pn \<in> set pns. merge_key pn \<notin> merge_key ` M) \<and>
    sorted_wrt (\<lambda>e f. \<not> nat_clash e f) (nat_entries pns) \<and> (\<forall>e \<in> D. \<forall>f \<in> set (nat_entries pns). \<not> nat_clash e f)"
  using assms
proof (induction pns arbitrary: i tm pm mm D M)
  case Nil
  then show ?case by (simp add: nat_entries_def)
next
  case (Cons pn pns)
  let ?vs = "map (Pair pn) (pns_Vips pn)" and ?D = "D \<union> Pair pn ` set (pns_Vips pn)"
  have ok: "nat_protocol_ok pn" "\<forall>q \<in> set pns. nat_protocol_ok q" using Cons.prems(4) by simp_all
  have merged: "mm (merge_text pn) = None \<longleftrightarrow> merge_key pn \<notin> merge_key ` M"
  proof -
    have "mm (merge_text pn) = None \<longleftrightarrow> merge_text pn \<notin> merge_text ` M" unfolding Cons.prems(5) [symmetric] by (simp add: domIff)
    also have "\<dots> \<longleftrightarrow> merge_key pn \<notin> merge_key ` M" by (simp only: image_iff merge_text_inj)
    finally show ?thesis .
  qed
  note r = nat_vips_result [OF Cons.prems(1-3) ok(1), where i = i and vips = "pns_Vips pn"]
  show ?case
  proof (cases "mm (merge_text pn)")
    case (Some k)
    then show ?thesis using merged by (simp add: merge_text_def)
  next
    case None
    show ?thesis
    proof (cases "nat_vips i pn (pns_Vips pn) tm pm")
      case (Inl err)
      then have "validate_port_nat i (pn # pns) tm pm mm \<noteq> None" using None by (simp add: merge_text_def)
      moreover have "\<not> (sorted_wrt (\<lambda>e f. \<not> nat_clash e f) ?vs \<and> (\<forall>e \<in> D. \<forall>v \<in> set (pns_Vips pn). \<not> nat_clash e (pn, v)))"
        using r Inl by simp
      ultimately show ?thesis by (auto simp: nat_entries_Cons sorted_wrt_append)
    next
      case (Inr x)
      obtain tm' pm' where x: "x = (tm', pm')" by fastforce
      have v: "sorted_wrt (\<lambda>e f. \<not> nat_clash e f) ?vs" "\<forall>e \<in> D. \<forall>v \<in> set (pns_Vips pn). \<not> nat_clash e (pn, v)"
          "dom tm' = target_key_of ` ?D" "dom pm' = port_key_of ` ?D"
        using r Inr x by simp_all
      have st: "validate_port_nat i (pn # pns) tm pm mm = validate_port_nat (i + 1) pns tm' pm' (mm(merge_text pn \<mapsto> i))"
        using None Inr x by (simp add: merge_text_def)
      have D: "\<forall>e \<in> ?D. nat_protocol_ok (fst e)" and M: "dom (mm(merge_text pn \<mapsto> i)) = merge_text ` insert pn M"
        using Cons.prems(3,5) ok(1) by auto
      show ?thesis
        unfolding st Cons.IH [OF v(3,4) D ok(2) M]
        using v(1,2) merged None by (auto simp: nat_entries_Cons sorted_wrt_append dest: image_eqI [OF sym])
    qed
  qed
qed

section \<open>Properties\<close>

text \<open>
  C32: if the protocols have no hyphen, which the API server ensures, the port NATs of a conduit are
  accepted exactly when no two have the same ports and protocol, and no two rules for the same VIP and
  protocol have a port in common, before or after translation.
\<close>

theorem port_nat_admitted:
  assumes "\<forall>pn \<in> set (v1c_DestinationPortNats r). nat_protocol_ok pn"
  shows "validatePortNat r = None \<longleftrightarrow>
    distinct (map merge_key (v1c_DestinationPortNats r)) \<and>
    sorted_wrt (\<lambda>e f. \<not> nat_clash e f) (nat_entries (v1c_DestinationPortNats r))"
  using validate_port_nat_None [of Map.empty "{}" Map.empty "v1c_DestinationPortNats r" Map.empty "{}" 0] assms
  by (simp add: validatePortNat_def)

definition ex_nats :: "PortNatSpec list" where
  "ex_nats = [\<lparr>pns_Port = 80, pns_TargetPort = 8080, pns_Vips = [''v1'', ''v2''], pns_Protocol = ''tcp''\<rparr>,
     \<lparr>pns_Port = 8080, pns_TargetPort = 9090, pns_Vips = [''v1''], pns_Protocol = ''udp''\<rparr>]"

theorem port_nat_admitted_witness:
  "validatePortNat \<lparr>v1c_meta = ex_meta ''c'', v1c_Type = ''stateless-lb'', v1c_DestinationPortNats = ex_nats\<rparr> = None"
proof -
  let ?r = "\<lparr>v1c_meta = ex_meta ''c'', v1c_Type = ''stateless-lb'', v1c_DestinationPortNats = ex_nats\<rparr>"
  have "\<forall>pn \<in> set (v1c_DestinationPortNats ?r). nat_protocol_ok pn" by (simp add: ex_nats_def nat_protocol_ok_def)
  from port_nat_admitted [OF this] show ?thesis
    by (simp add: ex_nats_def nat_entries_def nat_clash_def merge_key_def)
qed

text \<open>An update of an attractor without its VLAN id makes the webhook panic: the comparison with the old id
  comes before the check that the id is there.\<close>

theorem attractor_update_panics:
  assumes "if_Type (v1a_Interface r) = ''nsm-vlan''" "if_VlanID (v1a_Interface r) = None"
    "if_Type (v1a_Interface old) = ''nsm-vlan''" "label_trench (v1a_meta r) = label_trench (v1a_meta old)"
  shows "attractor_ValidateUpdate cl r (OAttractor old) = None"
proof -
  have "ToLower ''nsm-vlan'' = ''nsm-vlan''" by code_simp
  then show ?thesis
    using assms by (simp add: attractor_ValidateUpdate_def attractor_validateUpdate_def interface_update_def Let_def)
qed

text \<open>An accepted update of a stream keeps the number of targets and its bounds.\<close>

theorem stream_update_keeps_max:
  assumes "stream_ValidateUpdate r (OStream old) = None"
  shows "v1s_MaxTargets r = v1s_MaxTargets old \<and> (\<forall>m. v1s_MaxTargets r = Some m \<longrightarrow> 1 \<le> m \<and> m \<le> 10000)"
  using assms by (auto simp: stream_ValidateUpdate_def stream_validateUpdate_def validateStream_def NewInvalid_def split: if_splits option.splits)

end
