(* ===== verification/TargetRegistry.thy ===== *)
theory TargetRegistry
  imports NspApi
begin

text \<open>
  The target registry of the NSP: the watchers (\<open>pkg/nsp/registry/common\<close>), the registry in
  memory (\<open>pkg/nsp/registry/memory\<close>) and the gRPC handlers (\<open>pkg/nsp/server.go\<close>). Every method
  holds the mutex and is one step. A watcher is its selector, the channel of capacity one and the
  stop flag; the map of watcher pointers is an association list from watcher numbers. The registry
  is a refinement of a finite map from keys to context and status (\<open>registry_abs\<close>).
\<close>

section \<open>Definitions\<close>

subsection \<open>Watchers\<close>

definition Filter :: "Target option \<Rightarrow> Target list \<Rightarrow> Target list" where
  "Filter target targets =
     (case target of None \<Rightarrow> targets | Some _ \<Rightarrow> filter (\<lambda>t. TargetFilter target (Some t)) targets)"

definition channelBufferSize :: nat where
  "channelBufferSize = 1"

record RegistryWatcher =
  targetSelector :: "Target option"
  rw_c :: "Target list list"
  stopped :: bool

definition NewRegistryWatcher :: "Target option \<Rightarrow> RegistryWatcher" where
  "NewRegistryWatcher target = \<lparr>targetSelector = target, rw_c = [], stopped = False\<rparr>"

text \<open>None is the panic of closing a closed channel.\<close>

definition rw_Stop :: "RegistryWatcher \<Rightarrow> RegistryWatcher option" where
  "rw_Stop rw = (if stopped rw then None else Some (rw\<lparr>stopped := True\<rparr>))"

definition rw_ResultChan :: "RegistryWatcher \<Rightarrow> Target list list option" where
  "rw_ResultChan rw = (if stopped rw then None else Some (rw_c rw))"

definition IsStopped :: "RegistryWatcher \<Rightarrow> bool" where
  "IsStopped rw = stopped rw"

text \<open>\<open>Notify\<close> empties the channel and sends; None would be a send that blocks on a full channel.\<close>

definition chan_send :: "Target list \<Rightarrow> RegistryWatcher \<Rightarrow> RegistryWatcher option" where
  "chan_send v rw = (if length (rw_c rw) < channelBufferSize then Some (rw\<lparr>rw_c := rw_c rw @ [v]\<rparr>) else None)"

definition Notify :: "Target list \<Rightarrow> RegistryWatcher \<Rightarrow> RegistryWatcher option" where
  "Notify targets rw =
     (if IsStopped rw then Some rw
      else let result = Filter (targetSelector rw) targets;
               rw = rw\<lparr>rw_c := tl (rw_c rw)\<rparr>
           in chan_send result rw)"

text \<open>A receive on the channel by the consumer.\<close>

definition rw_Recv :: "RegistryWatcher \<Rightarrow> (Target list \<times> RegistryWatcher) option" where
  "rw_Recv rw = (case rw_c rw of [] \<Rightarrow> None | v # vs \<Rightarrow> Some (v, rw\<lparr>rw_c := vs\<rparr>))"

subsection \<open>Keys\<close>

record targetKey =
  key_Ips :: "string list"
  key_Stream :: "Stream option"
  key_Type :: TargetType

definition getTargetKey :: "Target \<Rightarrow> targetKey" where
  "getTargetKey target =
     \<lparr>key_Ips = target_ips target, key_Stream = target_stream target, key_Type = target_type target\<rparr>"

definition CompareIps :: "string list \<Rightarrow> string list \<Rightarrow> bool" where
  "CompareIps ips1 ips2 =
     (if length ips1 \<noteq> length ips2 then False
      else let ips1Map = set ips1 in \<forall>ip \<in> set ips2. ip \<in> ips1Map)"

definition key_Equals :: "targetKey \<Rightarrow> targetKey \<Rightarrow> bool" where
  "key_Equals tk tk2 =
     (let stream = (if key_Stream tk \<noteq> None \<and> key_Stream tk2 \<noteq> None
                    then stream_Equals (key_Stream tk) (key_Stream tk2) else True)
      in CompareIps (key_Ips tk) (key_Ips tk2) \<and> stream \<and> key_Type tk = key_Type tk2)"

subsection \<open>The registry\<close>

record TargetRegistryMemory =
  trm_targets :: "Target list"
  trm_watchers :: "(nat \<times> RegistryWatcher) list"

definition trm_New :: TargetRegistryMemory where
  "trm_New = \<lparr>trm_targets = [], trm_watchers = []\<rparr>"

definition trm_getIndex :: "Target list \<Rightarrow> Target \<Rightarrow> nat option" where
  "trm_getIndex targets target =
     find_index (\<lambda>t. key_Equals (getTargetKey target) (getTargetKey t)) targets"

fun notify_watchers :: "Target list \<Rightarrow> (nat \<times> RegistryWatcher) list \<Rightarrow> (nat \<times> RegistryWatcher) list option" where
  "notify_watchers targets [] = Some []"
| "notify_watchers targets ((w, rw) # ws) =
     Option.bind (Notify targets rw) (\<lambda>rw.
       Option.bind (notify_watchers targets ws) (\<lambda>ws.
         Some (if IsStopped rw then ws else (w, rw) # ws)))"

definition notifyAllWatchers :: "TargetRegistryMemory \<Rightarrow> TargetRegistryMemory option" where
  "notifyAllWatchers trm =
     map_option (\<lambda>ws. trm\<lparr>trm_watchers := ws\<rparr>) (notify_watchers (trm_targets trm) (trm_watchers trm))"

definition trm_Set :: "Target \<Rightarrow> TargetRegistryMemory \<Rightarrow> TargetRegistryMemory option" where
  "trm_Set target trm =
     (case trm_getIndex (trm_targets trm) target of
        None \<Rightarrow> notifyAllWatchers (trm\<lparr>trm_targets := trm_targets trm @ [target]\<rparr>)
      | Some index \<Rightarrow>
          notifyAllWatchers (trm\<lparr>trm_targets := (trm_targets trm)
            [index := (trm_targets trm ! index)\<lparr>target_context := target_context target,
                                               target_status := target_status target\<rparr>]\<rparr>))"

definition trm_Remove :: "Target \<Rightarrow> TargetRegistryMemory \<Rightarrow> TargetRegistryMemory option" where
  "trm_Remove target trm =
     (case trm_getIndex (trm_targets trm) target of
        None \<Rightarrow> Some trm
      | Some index \<Rightarrow> notifyAllWatchers (trm\<lparr>trm_targets := remove_index index (trm_targets trm)\<rparr>))"

text \<open>The new watcher's pointer is a number no watcher has.\<close>

definition trm_Watch :: "nat \<Rightarrow> Target option \<Rightarrow> TargetRegistryMemory \<Rightarrow> TargetRegistryMemory option" where
  "trm_Watch w target trm =
     map_option (\<lambda>rw. trm\<lparr>trm_watchers := trm_watchers trm @ [(w, rw)]\<rparr>)
       (Notify (trm_targets trm) (NewRegistryWatcher target))"

definition trm_Get :: "Target option \<Rightarrow> TargetRegistryMemory \<Rightarrow> Target list" where
  "trm_Get target trm = Filter target (trm_targets trm)"

subsection \<open>Server\<close>

definition nsp_Register :: "(Target \<Rightarrow> 'r \<Rightarrow> 'e option \<times> 'r) \<Rightarrow> Target \<Rightarrow> 'r \<Rightarrow> 'e option \<times> 'r" where
  "nsp_Register reg_Set target r = (case reg_Set target r of (Some err, r) \<Rightarrow> (Some err, r) | (None, r) \<Rightarrow> (None, r))"

definition nsp_Unregister :: "(Target \<Rightarrow> 'r \<Rightarrow> 'e option \<times> 'r) \<Rightarrow> Target \<Rightarrow> 'r \<Rightarrow> 'e option \<times> 'r" where
  "nsp_Unregister reg_Remove target r = (case reg_Remove target r of (Some err, r) \<Rightarrow> (Some err, r) | (None, r) \<Rightarrow> (None, r))"

definition GetService :: "string \<Rightarrow> string \<Rightarrow> string \<Rightarrow> int \<Rightarrow> string" where
  "GetService prefix trench namespace port = prefix @ ''-'' @ trench @ ''.'' @ namespace @ '':'' @ itoa port"

subsection \<open>Vocabulary of the specification\<close>

text \<open>A target as the clients register it: distinct addresses and a complete stream.\<close>

definition wf_target :: "Target \<Rightarrow> bool" where
  "wf_target t \<longleftrightarrow> distinct (target_ips t) \<and>
     (case target_stream t of None \<Rightarrow> False | Some s \<Rightarrow> stream_path s \<noteq> None)"

type_synonym target_id = "string set \<times> (string \<times> string \<times> string) \<times> TargetType"

definition target_key :: "Target \<Rightarrow> target_id" where
  "target_key t = (set (target_ips t), the (stream_path (the (target_stream t))), target_type t)"

definition registry_abs :: "TargetRegistryMemory \<Rightarrow> target_id \<rightharpoonup> (string \<rightharpoonup> string) \<times> TargetStatus" where
  "registry_abs trm = map_of (map (\<lambda>t. (target_key t, target_context t, target_status t)) (trm_targets trm))"

definition registry_inv :: "TargetRegistryMemory \<Rightarrow> bool" where
  "registry_inv trm \<longleftrightarrow> (\<forall>t \<in> set (trm_targets trm). wf_target t) \<and> distinct (map target_key (trm_targets trm)) \<and>
     distinct (map fst (trm_watchers trm)) \<and> (\<forall>(w, rw) \<in> set (trm_watchers trm). length (rw_c rw) \<le> 1)"

text \<open>The registry with its consumers: \<open>seen w\<close> is the last list the consumer of watcher \<open>w\<close> received.\<close>

inductive registry_step ::
  "TargetRegistryMemory \<times> (nat \<rightharpoonup> Target list) \<Rightarrow> TargetRegistryMemory \<times> (nat \<rightharpoonup> Target list) \<Rightarrow> bool" where
  set: "wf_target t \<Longrightarrow> trm_Set t trm = Some trm' \<Longrightarrow> registry_step (trm, seen) (trm', seen)"
| remove: "wf_target t \<Longrightarrow> trm_Remove t trm = Some trm' \<Longrightarrow> registry_step (trm, seen) (trm', seen)"
| watch: "w \<notin> fst ` set (trm_watchers trm) \<Longrightarrow> trm_Watch w sel trm = Some trm' \<Longrightarrow>
    registry_step (trm, seen) (trm', seen(w := None))"
| stop: "trm_watchers trm = ws @ (w, rw) # ws' \<Longrightarrow> rw_Stop rw = Some rw' \<Longrightarrow>
    registry_step (trm, seen) (trm\<lparr>trm_watchers := ws @ (w, rw') # ws'\<rparr>, seen)"
| recv: "trm_watchers trm = ws @ (w, rw) # ws' \<Longrightarrow> rw_Recv rw = Some (v, rw') \<Longrightarrow>
    registry_step (trm, seen) (trm\<lparr>trm_watchers := ws @ (w, rw') # ws'\<rparr>, seen(w \<mapsto> v))"

text \<open>The consumer of a watcher that is not stopped has the current list or will receive it next.\<close>

definition watcher_ok :: "Target list \<Rightarrow> Target list option \<Rightarrow> RegistryWatcher \<Rightarrow> bool" where
  "watcher_ok ts got rw \<longleftrightarrow> (\<not> stopped rw \<longrightarrow>
     rw_c rw = [Filter (targetSelector rw) ts] \<or>
     (rw_c rw = [] \<and> got = Some (Filter (targetSelector rw) ts)))"

definition up_to_date :: "TargetRegistryMemory \<Rightarrow> (nat \<rightharpoonup> Target list) \<Rightarrow> bool" where
  "up_to_date trm seen \<longleftrightarrow> (\<forall>(w, rw) \<in> set (trm_watchers trm). watcher_ok (trm_targets trm) (seen w) rw)"

inductive registry_reach :: "TargetRegistryMemory \<times> (nat \<rightharpoonup> Target list) \<Rightarrow> bool" where
  start: "registry_reach (trm_New, Map.empty)"
| step: "registry_reach st \<Longrightarrow> registry_step st st' \<Longrightarrow> registry_reach st'"


text \<open>A target with two addresses, for the examples.\<close>

definition ex_target :: Target where
  "ex_target = \<lparr>target_ips = [''10.0.0.1/32'', ''fd00::1/128''], target_context = Map.empty, target_status = ENABLED,
     target_type = DEFAULT, target_stream = Some \<lparr>stream_name = ''s'', stream_conduit = Some \<lparr>conduit_name = ''c'',
       conduit_trench = Some \<lparr>trench_name = ''t''\<rparr>, conduit_portNats = []\<rparr>, stream_maxTargets = 2\<rparr>\<rparr>"

text \<open>A watcher whose channel holds the current list.\<close>

definition notified :: "Target list \<Rightarrow> RegistryWatcher \<Rightarrow> RegistryWatcher" where
  "notified ts rw = rw\<lparr>rw_c := [Filter (targetSelector rw) ts]\<rparr>"

definition all_notified :: "Target list \<Rightarrow> (nat \<times> RegistryWatcher) list \<Rightarrow> (nat \<times> RegistryWatcher) list" where
  "all_notified ts ws = map (\<lambda>(w, rw). (w, notified ts rw)) (filter (\<lambda>(w, rw). \<not> stopped rw) ws)"

section \<open>Lemmas: association lists\<close>

lemma map_of_append_new: "k \<notin> fst ` set xs \<Longrightarrow> map_of (xs @ [(k, v)]) = (map_of xs)(k \<mapsto> v)"
  by (induction xs) (auto simp: fun_eq_iff)

lemma map_of_update_at:
  assumes "distinct (map fst xs)" "i < length xs" "fst (xs ! i) = k"
  shows "map_of (xs[i := (k, v)]) = (map_of xs)(k \<mapsto> v)"
  using assms
proof (induction xs arbitrary: i)
  case (Cons x xs)
  show ?case
  proof (cases i)
    case 0
    with Cons.prems show ?thesis by (cases x) (auto simp: fun_eq_iff)
  next
    case (Suc j)
    have "map_of (xs[j := (k, v)]) = (map_of xs)(k \<mapsto> v)"
      by (rule Cons.IH) (use Cons.prems Suc in auto)
    moreover have "fst x \<noteq> k"
      using Cons.prems Suc nth_mem [of j xs] by (metis Suc_less_eq distinct.simps(2) image_eqI length_Cons list.set_map list.simps(9) nth_Cons_Suc)
    ultimately show ?thesis using Suc by (cases x) (auto simp: fun_eq_iff)
  qed
qed simp

lemma map_of_remove_index:
  assumes "distinct (map fst xs)" "i < length xs" "fst (xs ! i) = k"
  shows "map_of (remove_index i xs) = (map_of xs)(k := None)"
  using assms
proof (induction xs arbitrary: i)
  case (Cons x xs)
  show ?case
  proof (cases i)
    case 0
    then have "map_of xs k = None" using Cons.prems by (auto simp: map_of_eq_None_iff)
    with 0 Cons.prems show ?thesis by (cases x) (auto simp: fun_eq_iff)
  next
    case (Suc j)
    have "map_of (remove_index j xs) = (map_of xs)(k := None)"
      by (rule Cons.IH) (use Cons.prems Suc in auto)
    moreover have "fst x \<noteq> k"
      using Cons.prems Suc nth_mem [of j xs] by (metis Suc_less_eq distinct.simps(2) image_eqI length_Cons list.set_map list.simps(9) nth_Cons_Suc)
    ultimately show ?thesis using Suc by (cases x) (auto simp: fun_eq_iff)
  qed
qed simp

section \<open>Lemmas: watchers\<close>

lemma notified_simps [simp]:
  "stopped (notified ts rw) = stopped rw" "targetSelector (notified ts rw) = targetSelector rw"
  "rw_c (notified ts rw) = [Filter (targetSelector rw) ts]"
  by (simp_all add: notified_def)

text \<open>With at most one pending list, notifying never blocks.\<close>

lemma Notify_returns: "length (rw_c rw) \<le> 1 \<Longrightarrow> Notify ts rw = Some (if stopped rw then rw else notified ts rw)"
  by (cases "rw_c rw") (auto simp: Notify_def IsStopped_def chan_send_def channelBufferSize_def notified_def Let_def)

lemma notify_watchers_returns:
  "\<forall>(w, rw) \<in> set ws. length (rw_c rw) \<le> 1 \<Longrightarrow>
     notify_watchers ts ws = Some (map (\<lambda>(w, rw). (w, notified ts rw)) (filter (\<lambda>(w, rw). \<not> stopped rw) ws))"
  by (induction ts ws rule: notify_watchers.induct) (auto simp: Notify_returns IsStopped_def)

lemma notifyAllWatchers_returns:
  "registry_inv trm \<Longrightarrow> notifyAllWatchers trm = Some (trm\<lparr>trm_watchers :=
     map (\<lambda>(w, rw). (w, notified (trm_targets trm) rw)) (filter (\<lambda>(w, rw). \<not> stopped rw) (trm_watchers trm))\<rparr>)"
  by (simp add: notifyAllWatchers_def registry_inv_def notify_watchers_returns)

lemma notified_inv:
  assumes "registry_inv trm"
  shows "registry_inv (trm\<lparr>trm_watchers :=
    map (\<lambda>(w, rw). (w, notified ts rw)) (filter (\<lambda>(w, rw). \<not> stopped rw) (trm_watchers trm))\<rparr>)"
proof -
  let ?ws = "trm_watchers trm"
  have eq: "map fst (map (\<lambda>(w, rw). (w, notified ts rw)) (filter (\<lambda>(w, rw). \<not> stopped rw) ?ws)) =
      map fst (filter (\<lambda>(w, rw). \<not> stopped rw) ?ws)"
    by (induction ?ws) auto
  have "distinct (map fst (map (\<lambda>(w, rw). (w, notified ts rw)) (filter (\<lambda>(w, rw). \<not> stopped rw) ?ws)))"
    unfolding eq using assms by (simp add: registry_inv_def distinct_map_filter)
  with assms show ?thesis unfolding registry_inv_def by (auto split: prod.splits)
qed

section \<open>Lemmas: keys\<close>

lemma CompareIps_distinct:
  assumes "distinct a" "distinct b"
  shows "CompareIps a b \<longleftrightarrow> set a = set b"
proof -
  have "set a = set b" if "length a = length b" "set b \<subseteq> set a"
    using that assms card_seteq [of "set a" "set b"] by (simp add: distinct_card)
  moreover have "length a = length b" if "set a = set b"
    using that assms by (metis distinct_card)
  ultimately show ?thesis by (auto simp: CompareIps_def)
qed

lemma key_Equals_iff:
  assumes "wf_target t" "wf_target u"
  shows "key_Equals (getTargetKey t) (getTargetKey u) \<longleftrightarrow> target_key t = target_key u"
proof -
  from assms obtain s p where s: "target_stream t = Some s" "stream_path s = Some p"
    by (auto simp: wf_target_def split: option.splits)
  from assms obtain s' p' where s': "target_stream u = Some s'" "stream_path s' = Some p'"
    by (auto simp: wf_target_def split: option.splits)
  have "CompareIps (target_ips t) (target_ips u) \<longleftrightarrow> set (target_ips t) = set (target_ips u)"
    using assms by (simp add: CompareIps_distinct wf_target_def)
  then show ?thesis
    using s s' stream_filter_path(2) [OF s(2) s'(2)]
    by (auto simp: key_Equals_def getTargetKey_def target_key_def)
qed

lemma getIndex_None:
  assumes "registry_inv trm" "wf_target t"
  shows "trm_getIndex (trm_targets trm) t = None \<longleftrightarrow> target_key t \<notin> target_key ` set (trm_targets trm)"
  using assms by (auto simp: trm_getIndex_def key_Equals_iff registry_inv_def)

lemma getIndex_Some:
  assumes "registry_inv trm" "wf_target t" "trm_getIndex (trm_targets trm) t = Some i"
  shows "i < length (trm_targets trm)" "target_key (trm_targets trm ! i) = target_key t"
proof -
  show i: "i < length (trm_targets trm)"
    using assms(3) by (auto simp: trm_getIndex_def dest: find_index_SomeD)
  then have "wf_target (trm_targets trm ! i)" using assms(1) by (auto simp: registry_inv_def)
  then show "target_key (trm_targets trm ! i) = target_key t"
    using find_index_SomeD [OF assms(3) [unfolded trm_getIndex_def]] key_Equals_iff [OF assms(2)] by auto
qed


section \<open>Lemmas: operations\<close>

lemma abs_list:
  "registry_abs trm = map_of (map (\<lambda>t. (target_key t, target_context t, target_status t)) (trm_targets trm))"
  by (simp add: registry_abs_def)

lemma set_targets:
  assumes "registry_inv trm" "wf_target t"
  defines "ts \<equiv> (case trm_getIndex (trm_targets trm) t of
      None \<Rightarrow> trm_targets trm @ [t]
    | Some i \<Rightarrow> (trm_targets trm)[i := (trm_targets trm ! i)\<lparr>target_context := target_context t, target_status := target_status t\<rparr>])"
  shows "registry_inv (trm\<lparr>trm_targets := ts\<rparr>)"
    and "registry_abs (trm\<lparr>trm_targets := ts\<rparr>) = (registry_abs trm)(target_key t \<mapsto> (target_context t, target_status t))"
proof -
  let ?f = "\<lambda>t. (target_key t, target_context t, target_status t)"
  have keys: "distinct (map target_key (trm_targets trm))" and wf: "\<forall>t \<in> set (trm_targets trm). wf_target t"
    using assms(1) by (auto simp: registry_inv_def)
  have fst: "map fst (map ?f xs) = map target_key xs" for xs by simp
  show "registry_inv (trm\<lparr>trm_targets := ts\<rparr>)"
  proof (cases "trm_getIndex (trm_targets trm) t")
    case None
    with getIndex_None [OF assms(1,2)] assms show ?thesis by (auto simp: registry_inv_def)
  next
    case (Some i)
    note i = getIndex_Some [OF assms(1,2) Some]
    let ?u = "(trm_targets trm ! i)\<lparr>target_context := target_context t, target_status := target_status t\<rparr>"
    have "map target_key ((trm_targets trm)[i := ?u]) = map target_key (trm_targets trm)"
      using i(1) by (simp add: map_update target_key_def list_update_same_conv)
    moreover have "wf_target ?u" using i(1) wf by (auto simp: wf_target_def)
    ultimately show ?thesis
      using Some assms(1) wf unfolding ts_def registry_inv_def by (auto dest: set_update_subset_insert [THEN subsetD])
  qed
  show "registry_abs (trm\<lparr>trm_targets := ts\<rparr>) = (registry_abs trm)(target_key t \<mapsto> (target_context t, target_status t))"
  proof (cases "trm_getIndex (trm_targets trm) t")
    case None
    then have "target_key t \<notin> fst ` set (map ?f (trm_targets trm))"
      using getIndex_None [OF assms(1,2)] by force
    from map_of_append_new [OF this] None show ?thesis by (simp add: ts_def abs_list)
  next
    case (Some i)
    note i = getIndex_Some [OF assms(1,2) Some]
    have "map ?f ts = (map ?f (trm_targets trm))[i := (target_key t, target_context t, target_status t)]"
      using Some i by (simp add: ts_def map_update target_key_def)
    then show ?thesis
      using map_of_update_at [of "map ?f (trm_targets trm)" i "target_key t" "(target_context t, target_status t)"] i keys
      unfolding fst by (simp add: abs_list comp_def)
  qed
qed

lemma remove_targets:
  assumes "registry_inv trm" "trm_getIndex (trm_targets trm) t = Some i" "wf_target t"
  shows "registry_inv (trm\<lparr>trm_targets := remove_index i (trm_targets trm)\<rparr>)"
    and "registry_abs (trm\<lparr>trm_targets := remove_index i (trm_targets trm)\<rparr>) = (registry_abs trm)(target_key t := None)"
proof -
  let ?f = "\<lambda>t. (target_key t, target_context t, target_status t)"
  note i = getIndex_Some [OF assms(1,3,2)]
  have keys: "distinct (map target_key (trm_targets trm))" using assms(1) by (simp add: registry_inv_def)
  show "registry_inv (trm\<lparr>trm_targets := remove_index i (trm_targets trm)\<rparr>)"
    using assms(1) distinct_map_remove_index [OF keys] set_remove_index_subset [of i "trm_targets trm"]
    by (auto simp: registry_inv_def)
  have "map ?f (remove_index i (trm_targets trm)) = remove_index i (map ?f (trm_targets trm))"
    by (simp add: remove_index_def take_map drop_map)
  then show "registry_abs (trm\<lparr>trm_targets := remove_index i (trm_targets trm)\<rparr>) = (registry_abs trm)(target_key t := None)"
    using map_of_remove_index [of "map ?f (trm_targets trm)" i "target_key t"] i keys
    by (simp add: abs_list comp_def)
qed

lemma trm_Set_returns:
  assumes "registry_inv trm" "wf_target t"
  obtains trm' where "trm_Set t trm = Some trm'" "registry_inv trm'"
    "registry_abs trm' = (registry_abs trm)(target_key t \<mapsto> (target_context t, target_status t))"
    "trm_watchers trm' = all_notified (trm_targets trm') (trm_watchers trm)"
proof -
  define ts where "ts = (case trm_getIndex (trm_targets trm) t of
      None \<Rightarrow> trm_targets trm @ [t]
    | Some i \<Rightarrow> (trm_targets trm)[i := (trm_targets trm ! i)\<lparr>target_context := target_context t, target_status := target_status t\<rparr>])"
  let ?trm = "trm\<lparr>trm_targets := ts\<rparr>"
  note st = set_targets [OF assms, folded ts_def]
  have "trm_Set t trm = notifyAllWatchers ?trm"
    by (simp add: trm_Set_def ts_def split: option.split)
  with notifyAllWatchers_returns [OF st(1)]
  have "trm_Set t trm = Some (?trm\<lparr>trm_watchers := all_notified ts (trm_watchers trm)\<rparr>)"
    by (simp add: all_notified_def)
  with st notified_inv [OF st(1), of ts] show ?thesis
    by (intro that [of "?trm\<lparr>trm_watchers := all_notified ts (trm_watchers trm)\<rparr>"]) (simp_all add: all_notified_def registry_abs_def)
qed

lemma trm_Remove_returns:
  assumes "registry_inv trm" "wf_target t"
  obtains trm' where "trm_Remove t trm = Some trm'" "registry_inv trm'"
    "registry_abs trm' = (registry_abs trm)(target_key t := None)"
    "trm' = trm \<or> trm_watchers trm' = all_notified (trm_targets trm') (trm_watchers trm)"
proof (cases "trm_getIndex (trm_targets trm) t")
  case None
  then have "registry_abs trm (target_key t) = None"
    using getIndex_None [OF assms] by (auto simp: registry_abs_def map_of_eq_None_iff)
  then have "(registry_abs trm)(target_key t := None) = registry_abs trm" by auto
  with None assms(1) show ?thesis by (intro that [of trm]) (simp_all add: trm_Remove_def)
next
  case (Some i)
  let ?ts = "remove_index i (trm_targets trm)"
  let ?trm = "trm\<lparr>trm_targets := ?ts\<rparr>"
  note st = remove_targets [OF assms(1) Some assms(2)]
  have "trm_Remove t trm = Some (?trm\<lparr>trm_watchers := all_notified ?ts (trm_watchers trm)\<rparr>)"
    using Some notifyAllWatchers_returns [OF st(1)] by (simp add: trm_Remove_def all_notified_def)
  with st notified_inv [OF st(1), of ?ts] show ?thesis
    by (intro that [of "?trm\<lparr>trm_watchers := all_notified ?ts (trm_watchers trm)\<rparr>"]) (simp_all add: all_notified_def registry_abs_def)
qed


lemma up_to_date_notified:
  "trm_watchers trm' = all_notified (trm_targets trm') ws \<Longrightarrow> up_to_date trm' seen"
  by (auto simp: up_to_date_def all_notified_def watcher_ok_def)

lemma up_to_date_other:
  assumes "trm_watchers trm = ws @ (w, rw) # ws'" "distinct (map fst (trm_watchers trm))" "up_to_date trm seen"
    and ok: "watcher_ok (trm_targets trm) l rw'"
  shows "up_to_date (trm\<lparr>trm_watchers := ws @ (w, rw') # ws'\<rparr>) (seen(w := l))"
proof -
  have "watcher_ok (trm_targets trm) ((seen(w := l)) x) r" if "(x, r) \<in> set ws \<union> set ws'" for x r
  proof -
    have "x \<noteq> w" using that assms(1,2) by (auto simp: image_iff)
    with that assms(1,3) show ?thesis by (auto simp: up_to_date_def)
  qed
  with ok show ?thesis by (auto simp: up_to_date_def)
qed

lemma registry_step_keeps:
  assumes "registry_step (trm, seen) (trm', seen')" "registry_inv trm" "up_to_date trm seen"
  shows "registry_inv trm' \<and> up_to_date trm' seen'"
  using assms(1)
proof cases
  case (set t)
  then show ?thesis
    using trm_Set_returns [OF assms(2), of t] up_to_date_notified by (metis option.inject)
next
  case (remove t)
  then show ?thesis
    using trm_Remove_returns [OF assms(2), of t] up_to_date_notified assms(3) by (metis option.inject)
next
  case (watch w sel)
  let ?rw = "notified (trm_targets trm) (NewRegistryWatcher sel)"
  have trm': "trm' = trm\<lparr>trm_watchers := trm_watchers trm @ [(w, ?rw)]\<rparr>"
    using watch by (simp add: trm_Watch_def Notify_returns NewRegistryWatcher_def)
  then have "registry_inv trm'"
    using watch(2) assms(2) by (auto simp: registry_inv_def)
  moreover have "up_to_date trm' seen'"
  proof -
    have "watcher_ok (trm_targets trm) (seen' x) r" if "(x, r) \<in> set (trm_watchers trm)" for x r
    proof -
      have "x \<noteq> w" using that watch(2) by (auto simp: image_iff)
      with that watch(1) assms(3) show ?thesis by (auto simp: up_to_date_def)
    qed
    moreover have "watcher_ok (trm_targets trm) (seen' w) ?rw" by (simp add: watcher_ok_def)
    ultimately show ?thesis unfolding trm' by (auto simp: up_to_date_def)
  qed
  ultimately show ?thesis by blast
next
  case (stop ws w rw ws' rw')
  then have rw': "rw' = rw\<lparr>stopped := True\<rparr>" by (auto simp: rw_Stop_def split: if_splits)
  then have "registry_inv trm'" using stop assms(2) by (auto simp: registry_inv_def)
  moreover have "up_to_date trm' seen'"
    using up_to_date_other [OF stop(3) _ assms(3), of "seen w" rw'] assms(2) rw' stop(1,2)
    by (auto simp: registry_inv_def watcher_ok_def)
  ultimately show ?thesis by blast
next
  case (recv ws w rw ws' v rw')
  then have rw': "rw_c rw = v # rw_c rw'" "stopped rw' = stopped rw" "targetSelector rw' = targetSelector rw"
    by (auto simp: rw_Recv_def split: list.splits)
  have mem: "(w, rw) \<in> set (trm_watchers trm)" using recv by simp
  then have len: "rw_c rw' = []" using rw'(1) assms(2) by (auto simp: registry_inv_def)
  have v: "v = Filter (targetSelector rw') (trm_targets trm)" if "\<not> stopped rw'"
    using mem assms(3) rw' len that by (auto simp: up_to_date_def watcher_ok_def)
  have "registry_inv trm'" using recv assms(2) len by (auto simp: registry_inv_def)
  moreover have "up_to_date trm' seen'"
    unfolding recv(1,2) using assms(2) v len
    by (intro up_to_date_other [OF recv(3) _ assms(3)]) (auto simp: registry_inv_def watcher_ok_def)
  ultimately show ?thesis by blast
qed

lemma registry_reach_keeps: "registry_reach st \<Longrightarrow> registry_inv (fst st) \<and> up_to_date (fst st) (snd st)"
proof (induction rule: registry_reach.induct)
  case start
  then show ?case by (simp add: registry_inv_def up_to_date_def trm_New_def)
next
  case (step st st')
  then show ?case using registry_step_keeps by (metis prod.collapse)
qed


lemma Get_iff: "t \<in> set (trm_Get sel trm) \<longleftrightarrow> t \<in> set (trm_targets trm) \<and> (sel = None \<or> TargetFilter sel (Some t))"
  by (auto simp: trm_Get_def Filter_def split: option.splits)

lemma abs_Some:
  "registry_inv trm \<Longrightarrow> registry_abs trm k = Some (c, st) \<longleftrightarrow>
     (\<exists>t \<in> set (trm_targets trm). target_key t = k \<and> target_context t = c \<and> target_status t = st)"
  unfolding registry_abs_def registry_inv_def
  by (subst map_of_eq_Some_iff) (auto simp: comp_def image_iff)

section \<open>Properties\<close>

text \<open>
  C39: for targets with distinct addresses and a complete stream, the registry in
  memory implements a finite map: \<open>Set\<close> writes the context and status under the target's key
  (addresses as a set, stream, type), \<open>Remove\<close> erases the key, both always return, and
  \<open>Get\<close> of everything lists exactly the entries of the map.
\<close>

theorem registry_refines_map:
  assumes "registry_inv trm" "wf_target t"
  shows "\<exists>trm1 trm2. trm_Set t trm = Some trm1 \<and> trm_Remove t trm = Some trm2 \<and>
    registry_inv trm1 \<and> registry_inv trm2 \<and>
    registry_abs trm1 = (registry_abs trm)(target_key t \<mapsto> (target_context t, target_status t)) \<and>
    registry_abs trm2 = (registry_abs trm)(target_key t := None) \<and>
    (\<forall>k c st. registry_abs trm k = Some (c, st) \<longleftrightarrow>
       (\<exists>u \<in> set (trm_Get None trm). target_key u = k \<and> target_context u = c \<and> target_status u = st))"
proof -
  obtain trm1 where "trm_Set t trm = Some trm1" "registry_inv trm1"
      "registry_abs trm1 = (registry_abs trm)(target_key t \<mapsto> (target_context t, target_status t))"
    using trm_Set_returns [OF assms] by blast
  moreover obtain trm2 where "trm_Remove t trm = Some trm2" "registry_inv trm2"
      "registry_abs trm2 = (registry_abs trm)(target_key t := None)"
    using trm_Remove_returns [OF assms] by blast
  moreover have "registry_abs trm k = Some (c, st) \<longleftrightarrow>
      (\<exists>u \<in> set (trm_Get None trm). target_key u = k \<and> target_context u = c \<and> target_status u = st)" for k c st
    using abs_Some [OF assms(1)] by (auto simp: Get_iff)
  ultimately show ?thesis by blast
qed

lemma ex_target_wf: "wf_target ex_target"
  by (simp add: ex_target_def wf_target_def stream_path_def)

theorem registry_refines_map_witness:
  "\<exists>trm1. registry_inv trm_New \<and> wf_target ex_target \<and> trm_Set ex_target trm_New = Some trm1 \<and>
     registry_abs trm1 (target_key ex_target) = Some (Map.empty, ENABLED)"
proof -
  have i: "registry_inv trm_New" by (simp add: registry_inv_def trm_New_def)
  from registry_refines_map [OF i ex_target_wf] i ex_target_wf show ?thesis
    by (auto simp: ex_target_def)
qed

text \<open>
  C40: after any interleaving of \<open>Set\<close>, \<open>Remove\<close>, \<open>Watch\<close>, \<open>Stop\<close> and receives by the
  consumers, a watcher that is not stopped either has the current selection waiting in its
  channel or its consumer has already received it: notifications that are overtaken are dropped,
  the latest never is.
\<close>

theorem watchers_up_to_date:
  assumes "registry_reach (trm, seen)" "(w, rw) \<in> set (trm_watchers trm)" "\<not> stopped rw"
  shows "rw_c rw = [Filter (targetSelector rw) (trm_targets trm)] \<or>
    (rw_c rw = [] \<and> seen w = Some (Filter (targetSelector rw) (trm_targets trm)))"
  using registry_reach_keeps [OF assms(1)] assms(2,3) by (auto simp: up_to_date_def watcher_ok_def)

theorem watchers_up_to_date_witness:
  "\<exists>trm rw. registry_reach (trm, Map.empty) \<and> (0, rw) \<in> set (trm_watchers trm) \<and> \<not> stopped rw \<and>
     trm_targets trm = [ex_target] \<and> rw_c rw = [[ex_target]]"
proof -
  let ?w = "\<lparr>targetSelector = None, rw_c = [[]], stopped = False\<rparr>"
  let ?s1 = "\<lparr>trm_targets = [], trm_watchers = [(0, ?w)]\<rparr>"
  let ?s2 = "\<lparr>trm_targets = [ex_target], trm_watchers = [(0, ?w\<lparr>rw_c := [[ex_target]]\<rparr>)]\<rparr>"
  have "registry_step (trm_New, Map.empty) (?s1, Map.empty(0 := None))"
    by (rule registry_step.watch [where sel = None])
      (simp_all add: trm_New_def trm_Watch_def NewRegistryWatcher_def Notify_returns notified_def Filter_def)
  then have r1: "registry_reach (?s1, Map.empty)"
    using registry_reach.step [OF registry_reach.start] by simp
  have "registry_step (?s1, Map.empty) (?s2, Map.empty)"
    by (rule registry_step.set [OF ex_target_wf])
      (simp add: trm_Set_def trm_getIndex_def notifyAllWatchers_def Notify_returns notified_def Filter_def IsStopped_def)
  from registry_reach.step [OF r1 this] have r: "registry_reach (?s2, Map.empty)" .
  from watchers_up_to_date [OF r, of 0 "?w\<lparr>rw_c := [[ex_target]]\<rparr>"] r show ?thesis
    by (intro exI [of _ ?s2] exI [of _ "?w\<lparr>rw_c := [[ex_target]]\<rparr>"]) simp
qed

end
