(* ===== verification/KeepAlive.thy ===== *)
theory KeepAlive
  imports TargetRegistry
begin

text \<open>
  The middleware that expires targets: \<open>pkg/nsp/registry/keepalive\<close>, with the identifiers of targets it
  takes from \<open>pkg/nsp/registry/sqlite\<close> (\<open>model.go\<close>, \<open>serialize.go\<close>). The registry behind it is the interface
  \<open>TargetRegistry\<close>, a record of operations on a state. Every target has a goroutine that waits for its
  timeout or the cancellation of its context; which of them comes first is not determined, so a timer may
  fire at any moment.
\<close>

section \<open>Definitions\<close>

subsection \<open>Identifiers\<close>

definition SerializeIPs :: "string list \<Rightarrow> string" where
  "SerializeIPs ips = join '';'' ips"

definition DeserializeIPs :: "string \<Rightarrow> string list" where
  "DeserializeIPs ips = split_on (CHR '';'') ips"

definition SerializeType :: "TargetType \<Rightarrow> int" where
  "SerializeType t = (case t of DEFAULT \<Rightarrow> 0 | FRONTEND \<Rightarrow> 1)"

definition getTargetStream :: "Target \<Rightarrow> string" where
  "getTargetStream target = (case target_stream target of None \<Rightarrow> [] | Some s \<Rightarrow> stream_name s)"

definition getTargetConduit :: "Target \<Rightarrow> string" where
  "getTargetConduit target =
     (case target_stream target of
        None \<Rightarrow> []
      | Some s \<Rightarrow> (case stream_conduit s of None \<Rightarrow> [] | Some c \<Rightarrow> conduit_name c))"

definition getTargetTrench :: "Target \<Rightarrow> string" where
  "getTargetTrench target =
     (case target_stream target of
        None \<Rightarrow> []
      | Some s \<Rightarrow>
          (case stream_conduit s of
             None \<Rightarrow> []
           | Some c \<Rightarrow> (case conduit_trench c of None \<Rightarrow> [] | Some t \<Rightarrow> trench_name t)))"

definition GetTargetID :: "Target \<Rightarrow> string" where
  "GetTargetID target =
     SerializeIPs (target_ips target) @ ''-'' @ itoa (SerializeType (target_type target)) @ ''-'' @
     getTargetStream target @ ''.'' @ getTargetConduit target @ ''.'' @ getTargetTrench target"

subsection \<open>The middleware\<close>

record ('r, 'e) registry_api =
  ra_Set :: "Target \<Rightarrow> 'r \<Rightarrow> 'e option \<times> 'r"
  ra_Remove :: "Target \<Rightarrow> 'r \<Rightarrow> 'e option \<times> 'r"
  ra_Get :: "Target \<Rightarrow> 'r \<Rightarrow> 'e + Target list"

text \<open>A context is a number; \<open>ka_timers\<close> are the goroutines that wait, each with its context and target.\<close>

record 'r KeepAlive =
  ka_TargetRegistry :: "'r option"
  ka_targets :: "string \<rightharpoonup> nat \<times> Target"
  ka_timers :: "(nat \<times> Target) list"
  ka_cancelled :: "nat set"
  ka_next :: nat

definition ka_add :: "Target \<Rightarrow> 'r KeepAlive \<Rightarrow> 'r KeepAlive" where
  "ka_add target ka =
     (let ka1 = (case ka_targets ka (GetTargetID target) of
                   None \<Rightarrow> ka
                 | Some (ctx, _) \<Rightarrow> ka\<lparr>ka_cancelled := insert ctx (ka_cancelled ka)\<rparr>)
      in ka1\<lparr>ka_targets := (ka_targets ka1)(GetTargetID target \<mapsto> (ka_next ka1, target)),
             ka_timers := ka_timers ka1 @ [(ka_next ka1, target)], ka_next := ka_next ka1 + 1\<rparr>)"

definition ka_Set :: "('r, 'e) registry_api \<Rightarrow> Target \<Rightarrow> 'r KeepAlive \<Rightarrow> 'e option \<times> 'r KeepAlive" where
  "ka_Set api target ka =
     (let t = (if ka_targets ka (GetTargetID target) = None then target\<lparr>target_status := DISABLED\<rparr> else target)
      in case ka_TargetRegistry ka of
           None \<Rightarrow> (None, ka_add t ka)
         | Some r \<Rightarrow>
             (case ra_Set api t r of
                (Some err, r') \<Rightarrow> (Some err, ka\<lparr>ka_TargetRegistry := Some r'\<rparr>)
              | (None, r') \<Rightarrow> (None, ka_add t (ka\<lparr>ka_TargetRegistry := Some r'\<rparr>))))"

definition ka_remove :: "('r, 'e) registry_api \<Rightarrow> Target \<Rightarrow> 'r KeepAlive \<Rightarrow> 'e option \<times> 'r KeepAlive" where
  "ka_remove api target ka =
     (let ka1 = ka\<lparr>ka_targets := (ka_targets ka)(GetTargetID target := None)\<rparr>
      in case ka_TargetRegistry ka1 of
           None \<Rightarrow> (None, ka1)
         | Some r \<Rightarrow> (case ra_Remove api target r of (e, r') \<Rightarrow> (e, ka1\<lparr>ka_TargetRegistry := Some r'\<rparr>)))"

definition ka_Remove :: "('r, 'e) registry_api \<Rightarrow> Target \<Rightarrow> 'r KeepAlive \<Rightarrow> 'e option \<times> 'r KeepAlive" where
  "ka_Remove api target ka = ka_remove api target ka"

definition ka_Get :: "('r, 'e) registry_api \<Rightarrow> Target \<Rightarrow> 'r KeepAlive \<Rightarrow> 'e + Target list" where
  "ka_Get api target ka = (case ka_TargetRegistry ka of None \<Rightarrow> Inr [] | Some r \<Rightarrow> ra_Get api target r)"

text \<open>The goroutine of a target: its timeout has come.\<close>

definition ka_timeout :: "('r, 'e) registry_api \<Rightarrow> nat \<Rightarrow> Target \<Rightarrow> 'r KeepAlive \<Rightarrow> 'e option \<times> 'r KeepAlive" where
  "ka_timeout api ctx target ka =
     (let ka1 = ka\<lparr>ka_timers := remove1 (ctx, target) (ka_timers ka)\<rparr>
      in case ka_targets ka1 (GetTargetID target) of
           None \<Rightarrow> (None, ka1)
         | Some (c, _) \<Rightarrow> if ctx \<noteq> c then (None, ka1) else ka_remove api target ka1)"

definition any_target :: "TargetType \<Rightarrow> Target" where
  "any_target ty = \<lparr>target_ips = [], target_context = Map.empty, target_status = ANY, target_type = ty, target_stream = None\<rparr>"

definition ka_restore :: "('r, 'e) registry_api \<Rightarrow> 'r KeepAlive \<Rightarrow> 'e + 'r KeepAlive" where
  "ka_restore api ka =
     (case ka_Get api (any_target DEFAULT) ka of
        Inl err \<Rightarrow> Inl err
      | Inr defaultTargets \<Rightarrow>
          (case ka_Get api (any_target FRONTEND) ka of
             Inl err \<Rightarrow> Inl err
           | Inr frontEndTargets \<Rightarrow> Inr (foldl (\<lambda>ka t. ka_add t ka) ka (defaultTargets @ frontEndTargets))))"

definition ka_New :: "('r, 'e) registry_api \<Rightarrow> 'r option \<Rightarrow> 'e + 'r KeepAlive" where
  "ka_New api registry =
     ka_restore api \<lparr>ka_TargetRegistry = registry, ka_targets = Map.empty, ka_timers = [], ka_cancelled = {}, ka_next = 0\<rparr>"

subsection \<open>Runs\<close>

text \<open>The middleware with its clients and its timers, over targets that satisfy \<open>ok\<close>. The set records the
  identifiers of targets whose removal from the registry failed.\<close>

inductive ka_reach :: "('r, 'e) registry_api \<Rightarrow> (Target \<Rightarrow> bool) \<Rightarrow> ('r \<Rightarrow> bool) \<Rightarrow> 'r KeepAlive \<Rightarrow> string set \<Rightarrow> bool"
  for api ok start where
  new: "start r \<Longrightarrow> ka_New api (Some r) = Inr ka \<Longrightarrow> ka_reach api ok start ka {}"
| set: "ka_reach api ok start ka lost \<Longrightarrow> ok t \<Longrightarrow> ka_Set api t ka = (e, ka') \<Longrightarrow> ka_reach api ok start ka' lost"
| remove: "ka_reach api ok start ka lost \<Longrightarrow> ok t \<Longrightarrow> ka_Remove api t ka = (e, ka') \<Longrightarrow>
    ka_reach api ok start ka' (if e = None then lost else insert (GetTargetID t) lost)"
| timeout: "ka_reach api ok start ka lost \<Longrightarrow> (ctx, t) \<in> set (ka_timers ka) \<Longrightarrow> ka_timeout api ctx t ka = (e, ka') \<Longrightarrow>
    ka_reach api ok start ka' (if e = None then lost else insert (GetTargetID t) lost)"
| cancelled: "ka_reach api ok start ka lost \<Longrightarrow> (ctx, t) \<in> set (ka_timers ka) \<Longrightarrow> ctx \<in> ka_cancelled ka \<Longrightarrow>
    ka_reach api ok start (ka\<lparr>ka_timers := remove1 (ctx, t) (ka_timers ka)\<rparr>) lost"

definition ka_inv :: "'r KeepAlive \<Rightarrow> bool" where
  "ka_inv ka \<longleftrightarrow>
     (\<forall>n c t. ka_targets ka n = Some (c, t) \<longrightarrow> GetTargetID t = n \<and> (c, t) \<in> set (ka_timers ka) \<and> c \<notin> ka_cancelled ka) \<and>
     distinct (map fst (ka_timers ka)) \<and> (\<forall>(c, t) \<in> set (ka_timers ka). c < ka_next ka) \<and> (\<forall>c \<in> ka_cancelled ka. c < ka_next ka)"

text \<open>The registry in memory behind the middleware: its calls always return and never fail.\<close>

definition memory_api :: "(TargetRegistryMemory, unit) registry_api" where
  "memory_api = \<lparr>ra_Set = (\<lambda>t r. (None, case trm_Set t r of Some r' \<Rightarrow> r' | None \<Rightarrow> r)),
     ra_Remove = (\<lambda>t r. (None, case trm_Remove t r of Some r' \<Rightarrow> r' | None \<Rightarrow> r)),
     ra_Get = (\<lambda>t r. Inr (trm_Get (Some t) r))\<rparr>"

text \<open>Targets whose identifier can be read back: a complete stream with names without dots, and at least one
  address, each without a semicolon or a hyphen, as in the text of addresses.\<close>

definition plain_target :: "Target \<Rightarrow> bool" where
  "plain_target t \<longleftrightarrow> wf_target t \<and> target_ips t \<noteq> [] \<and> (\<forall>ip \<in> set (target_ips t). CHR '';'' \<notin> set ip \<and> CHR ''-'' \<notin> set ip) \<and>
     CHR ''.'' \<notin> set (getTargetStream t) \<and> CHR ''.'' \<notin> set (getTargetConduit t) \<and> CHR ''.'' \<notin> set (getTargetTrench t)"

definition memory_ok :: "TargetRegistryMemory \<Rightarrow> bool" where
  "memory_ok trm \<longleftrightarrow> registry_inv trm \<and> (\<forall>t \<in> set (trm_targets trm). plain_target t)"

definition memory_ids :: "TargetRegistryMemory \<Rightarrow> string set" where
  "memory_ids trm = GetTargetID ` set (trm_targets trm)"

text \<open>The middleware over an empty registry, and after a first registration.\<close>

definition ex_ka :: "TargetRegistryMemory KeepAlive" where
  "ex_ka = \<lparr>ka_TargetRegistry = Some trm_New, ka_targets = Map.empty, ka_timers = [], ka_cancelled = {}, ka_next = 0\<rparr>"

definition ex_stored :: TargetRegistryMemory where
  "ex_stored = \<lparr>trm_targets = [ex_target\<lparr>target_status := DISABLED\<rparr>], trm_watchers = []\<rparr>"

definition ex_ka1 :: "TargetRegistryMemory KeepAlive" where
  "ex_ka1 = \<lparr>ka_TargetRegistry = Some ex_stored, ka_targets = [GetTargetID ex_target \<mapsto> (0, ex_target\<lparr>target_status := DISABLED\<rparr>)],
     ka_timers = [(0, ex_target\<lparr>target_status := DISABLED\<rparr>)], ka_cancelled = {}, ka_next = 1\<rparr>"

section \<open>Lemmas: identifiers\<close>

lemma GetTargetID_update [simp]:
  "GetTargetID (t\<lparr>target_status := s\<rparr>) = GetTargetID t" "GetTargetID (t\<lparr>target_context := x\<rparr>) = GetTargetID t"
  by (simp_all add: GetTargetID_def getTargetStream_def getTargetConduit_def getTargetTrench_def)

lemma ips_roundtrip: "ips \<noteq> [] \<Longrightarrow> \<forall>ip \<in> set ips. CHR '';'' \<notin> set ip \<Longrightarrow> DeserializeIPs (SerializeIPs ips) = ips"
  by (simp add: SerializeIPs_def DeserializeIPs_def split_on_join)

lemma set_join: "set (join sep xs) \<subseteq> set sep \<union> \<Union> (set ` set xs)"
  by (induction sep xs rule: join.induct) auto

lemma SerializeType_eq [simp]: "SerializeType a = SerializeType b \<longleftrightarrow> a = b"
  by (cases a; cases b) (simp_all add: SerializeType_def)

lemma type_digit: "CHR ''-'' \<notin> set (itoa (SerializeType a))"
  by (cases a) (simp_all only: SerializeType_def TargetType.case, code_simp+)

lemma GetTargetID_eqD:
  assumes "plain_target t" "plain_target u" "GetTargetID t = GetTargetID u"
  shows "target_ips t = target_ips u \<and> target_type t = target_type u \<and> getTargetStream t = getTargetStream u \<and>
         getTargetConduit t = getTargetConduit u \<and> getTargetTrench t = getTargetTrench u"
proof -
  have hy: "CHR ''-'' \<notin> set (SerializeIPs (target_ips x))" if "plain_target x" for x
    using that set_join [of "'';''" "target_ips x"] by (auto simp: plain_target_def SerializeIPs_def)
  let ?rest = "\<lambda>x. itoa (SerializeType (target_type x)) @ CHR ''-'' # getTargetStream x @ CHR ''.'' # getTargetConduit x @ CHR ''.'' # getTargetTrench x"
  have "SerializeIPs (target_ips t) @ CHR ''-'' # ?rest t = SerializeIPs (target_ips u) @ CHR ''-'' # ?rest u"
    using assms(3) by (simp add: GetTargetID_def)
  note f1 = split_first [OF this hy [OF assms(1)] hy [OF assms(2)]]
  note f2 = split_first [OF conjunct2 [OF f1] type_digit type_digit]
  have ty: "target_type t = target_type u" using conjunct1 [OF f2] by (simp only: itoa_inj SerializeType_eq)
  have nd: "CHR ''.'' \<notin> set (getTargetStream t)" "CHR ''.'' \<notin> set (getTargetStream u)" "CHR ''.'' \<notin> set (getTargetConduit t)" "CHR ''.'' \<notin> set (getTargetConduit u)"
    using assms(1,2) by (simp_all add: plain_target_def)
  note f3 = split_first [OF conjunct2 [OF f2] nd(1,2)]
  note f4 = split_first [OF conjunct2 [OF f3] nd(3,4)]
  have s: "getTargetStream t = getTargetStream u" using f3 by (rule conjunct1)
  have "getTargetConduit t = getTargetConduit u" "getTargetTrench t = getTargetTrench u" using f4 by blast+
  moreover have "target_ips t = target_ips u"
  proof -
    have "DeserializeIPs (SerializeIPs (target_ips x)) = target_ips x" if "plain_target x" for x :: Target
    proof (rule ips_roundtrip)
      show "target_ips x \<noteq> []" using that unfolding plain_target_def by blast
      show "\<forall>ip \<in> set (target_ips x). CHR '';'' \<notin> set ip" using that unfolding plain_target_def by blast
    qed
    from this [OF assms(1)] this [OF assms(2)] conjunct1 [OF f1] show ?thesis by metis
  qed
  ultimately show ?thesis using ty s by simp
qed

lemma plain_key:
  assumes "plain_target t" "plain_target u" "GetTargetID t = GetTargetID u"
  shows "target_key t = target_key u"
proof -
  have p: "stream_path (the (target_stream x)) = Some (getTargetStream x, getTargetConduit x, getTargetTrench x)" if "plain_target x" for x
    using that by (auto simp: plain_target_def wf_target_def stream_path_def getTargetStream_def getTargetConduit_def getTargetTrench_def split: option.splits if_splits)
  show ?thesis using GetTargetID_eqD [OF assms] p [OF assms(1)] p [OF assms(2)] by (simp add: target_key_def)
qed

lemma plain_update [simp]:
  "plain_target (t\<lparr>target_status := s\<rparr>) = plain_target t" "plain_target (t\<lparr>target_context := x\<rparr>) = plain_target t"
  by (simp_all add: plain_target_def wf_target_def getTargetStream_def getTargetConduit_def getTargetTrench_def)

section \<open>Lemmas: timers\<close>

lemma ka_add_fields [simp]:
  "ka_TargetRegistry (ka_add t ka) = ka_TargetRegistry ka"
  "ka_targets (ka_add t ka) = (ka_targets ka)(GetTargetID t \<mapsto> (ka_next ka, t))"
  "ka_timers (ka_add t ka) = ka_timers ka @ [(ka_next ka, t)]"
  "ka_next (ka_add t ka) = ka_next ka + 1"
  by (auto simp: ka_add_def Let_def split: option.split)

lemma ka_add_cancelled:
  "ka_cancelled (ka_add t ka) = (case ka_targets ka (GetTargetID t) of None \<Rightarrow> ka_cancelled ka | Some (c, _) \<Rightarrow> insert c (ka_cancelled ka))"
  by (auto simp: ka_add_def Let_def split: option.split)

lemma ka_inv_entry:
  "ka_inv ka \<Longrightarrow> ka_targets ka n = Some (c, t) \<Longrightarrow> GetTargetID t = n \<and> (c, t) \<in> set (ka_timers ka) \<and> c \<notin> ka_cancelled ka \<and> c < ka_next ka"
  unfolding ka_inv_def by fast

text \<open>Entries of different targets have different contexts.\<close>

lemma ka_inv_context:
  assumes "ka_inv ka" "ka_targets ka n = Some (c, t)" "ka_targets ka m = Some (c, u)"
  shows "n = m"
proof -
  have "(c, t) \<in> set (ka_timers ka)" "(c, u) \<in> set (ka_timers ka)" using ka_inv_entry [OF assms(1)] assms(2,3) by auto
  then have "t = u" using assms(1) by (auto simp: ka_inv_def dest: eq_key_imp_eq_value)
  then show ?thesis using ka_inv_entry [OF assms(1,2)] ka_inv_entry [OF assms(1,3)] by simp
qed

lemma ka_add_inv:
  assumes "ka_inv ka"
  shows "ka_inv (ka_add t ka)"
proof -
  let ?n = "GetTargetID t"
  have bound: "\<And>c u. (c, u) \<in> set (ka_timers ka) \<Longrightarrow> c < ka_next ka" "\<And>c. c \<in> ka_cancelled ka \<Longrightarrow> c < ka_next ka"
    using assms by (auto simp: ka_inv_def)
  have canc: "c \<in> ka_cancelled (ka_add t ka) \<Longrightarrow> c \<in> ka_cancelled ka \<or> (\<exists>u. ka_targets ka ?n = Some (c, u))" for c
    by (auto simp: ka_add_cancelled split: option.splits)
  have entry: "GetTargetID u = n \<and> (c, u) \<in> set (ka_timers (ka_add t ka)) \<and> c \<notin> ka_cancelled (ka_add t ka)"
    if "ka_targets (ka_add t ka) n = Some (c, u)" for n c u
  proof (cases "n = ?n")
    case True
    then have "c = ka_next ka" "u = t" using that by auto
    moreover have "ka_next ka \<notin> ka_cancelled (ka_add t ka)"
      using canc [of "ka_next ka"] bound(2) ka_inv_entry [OF assms] by fastforce
    ultimately show ?thesis using True by simp
  next
    case False
    then have e: "ka_targets ka n = Some (c, u)" using that by simp
    then have "\<not> (\<exists>w. ka_targets ka ?n = Some (c, w))" using ka_inv_context [OF assms e] False by blast
    then show ?thesis using ka_inv_entry [OF assms e] canc [of c] by auto
  qed
  have "distinct (map fst (ka_timers (ka_add t ka)))" using assms bound(1) by (fastforce simp: ka_inv_def)
  moreover have "\<forall>(c, u) \<in> set (ka_timers (ka_add t ka)). c < ka_next (ka_add t ka)" using bound(1) by fastforce
  moreover have "\<forall>c \<in> ka_cancelled (ka_add t ka). c < ka_next (ka_add t ka)" using canc bound(2) ka_inv_entry [OF assms] by fastforce
  ultimately show ?thesis using entry unfolding ka_inv_def by blast
qed

lemma ka_inv_registry [simp]: "ka_inv (ka\<lparr>ka_TargetRegistry := r\<rparr>) = ka_inv ka"
  by (simp add: ka_inv_def)

lemma ka_inv_forget: "ka_inv ka \<Longrightarrow> ka_inv (ka\<lparr>ka_targets := (ka_targets ka)(n := None)\<rparr>)"
  unfolding ka_inv_def by (simp split: if_splits)

lemma ka_inv_timer:
  assumes "ka_inv ka" "\<And>n u. ka_targets ka n = Some (c, u) \<Longrightarrow> False"
  shows "ka_inv (ka\<lparr>ka_timers := remove1 (c, t) (ka_timers ka)\<rparr>)"
  using assms unfolding ka_inv_def by (auto simp: distinct_map dest: in_set_remove1 inj_on_subset [OF _ set_remove1_subset])

lemma ka_restore_fold:
  "ka_inv ka \<Longrightarrow> ka_inv (foldl (\<lambda>ka t. ka_add t ka) ka ts) \<and>
     ka_TargetRegistry (foldl (\<lambda>ka t. ka_add t ka) ka ts) = ka_TargetRegistry ka \<and>
     dom (ka_targets (foldl (\<lambda>ka t. ka_add t ka) ka ts)) = dom (ka_targets ka) \<union> GetTargetID ` set ts \<and>
     snd ` set (ka_timers (foldl (\<lambda>ka t. ka_add t ka) ka ts)) = snd ` set (ka_timers ka) \<union> set ts"
  by (induction ts arbitrary: ka) (auto simp: ka_add_inv)

lemma ka_New_cases:
  assumes "ka_New api (Some r) = Inr ka"
  obtains ds fs where "ra_Get api (any_target DEFAULT) r = Inr ds" "ra_Get api (any_target FRONTEND) r = Inr fs"
    "ka_inv ka" "ka_TargetRegistry ka = Some r" "dom (ka_targets ka) = GetTargetID ` set (ds @ fs)" "snd ` set (ka_timers ka) = set (ds @ fs)"
proof -
  let ?ka = "\<lparr>ka_TargetRegistry = Some r, ka_targets = Map.empty, ka_timers = [], ka_cancelled = {}, ka_next = 0\<rparr>"
  obtain ds fs where g: "ra_Get api (any_target DEFAULT) r = Inr ds" "ra_Get api (any_target FRONTEND) r = Inr fs"
      "ka = foldl (\<lambda>ka t. ka_add t ka) ?ka (ds @ fs)"
    using assms by (auto simp: ka_New_def ka_restore_def ka_Get_def simp del: foldl_append split: sum.splits)
  have "ka_inv ?ka" by (simp add: ka_inv_def)
  note f = ka_restore_fold [OF this, of "ds @ fs", folded g(3)]
  show ?thesis by (rule that [OF g(1,2)]) (use f in simp_all)
qed

lemma ka_remove_fields:
  assumes "ka_remove api t ka = (e, ka')"
  shows "ka_targets ka' = (ka_targets ka)(GetTargetID t := None)" "ka_timers ka' = ka_timers ka" "ka_inv ka \<Longrightarrow> ka_inv ka'"
  using assms ka_inv_forget [of ka "GetTargetID t"] by (auto simp: ka_remove_def Let_def split: option.splits prod.splits)

lemma ka_Set_inv:
  assumes "ka_Set api t ka = (e, ka')" "ka_inv ka"
  shows "ka_inv ka'"
  using assms by (auto simp: ka_Set_def Let_def ka_add_inv split: option.splits prod.splits if_splits)

lemma ka_timeout_cases:
  assumes "ka_timeout api ctx t ka = (e, ka')"
  shows "(e, ka') = (None, ka\<lparr>ka_timers := remove1 (ctx, t) (ka_timers ka)\<rparr>) \<or>
         ka_remove api t (ka\<lparr>ka_timers := remove1 (ctx, t) (ka_timers ka)\<rparr>) = (e, ka')"
proof (cases "ka_targets ka (GetTargetID t)")
  case None
  with assms show ?thesis by (simp add: ka_timeout_def)
next
  case (Some p)
  with assms show ?thesis by (cases p) (auto simp: ka_timeout_def Let_def split: if_splits)
qed

lemma ka_timeout_inv:
  assumes "ka_timeout api ctx t ka = (e, ka')" "ka_inv ka" "(ctx, t) \<in> set (ka_timers ka)"
  shows "ka_inv ka'"
proof -
  let ?ka = "ka\<lparr>ka_timers := remove1 (ctx, t) (ka_timers ka)\<rparr>"
  have own: "u = t" if "ka_targets ka n = Some (ctx, u)" for n u
    using ka_inv_entry [OF assms(2) that] assms(2,3) by (auto simp: ka_inv_def dest: eq_key_imp_eq_value)
  show ?thesis
  proof (cases "\<exists>u. ka_targets ka (GetTargetID t) = Some (ctx, u)")
    case True
    then have r: "ka_remove api t ?ka = (e, ka')" using assms(1) by (auto simp: ka_timeout_def Let_def)
    let ?kb = "ka\<lparr>ka_targets := (ka_targets ka)(GetTargetID t := None)\<rparr>"
    have "\<And>n u. ka_targets ?kb n = Some (ctx, u) \<Longrightarrow> False"
      using own ka_inv_entry [OF assms(2)] by (fastforce split: if_splits)
    note t = ka_inv_timer [OF ka_inv_forget [OF assms(2)] this, where t = t]
    have "?kb\<lparr>ka_timers := remove1 (ctx, t) (ka_timers ?kb)\<rparr> = ?ka\<lparr>ka_targets := (ka_targets ?ka)(GetTargetID t := None)\<rparr>"
      by (cases ka) simp
    with t have "ka_inv (?ka\<lparr>ka_targets := (ka_targets ?ka)(GetTargetID t := None)\<rparr>)" by metis
    then show ?thesis using r by (auto simp: ka_remove_def Let_def split: option.splits prod.splits)
  next
    case False
    then have "ka' = ?ka" using assms(1) by (auto simp: ka_timeout_def Let_def split: option.splits prod.splits if_splits)
    moreover have "\<And>n u. ka_targets ka n = Some (ctx, u) \<Longrightarrow> False"
      using own ka_inv_entry [OF assms(2)] False by blast
    ultimately show ?thesis using ka_inv_timer [OF assms(2)] by blast
  qed
qed

lemma ka_reach_inv: "ka_reach api ok start ka lost \<Longrightarrow> ka_inv ka"
proof (induction rule: ka_reach.induct)
  case (new r ka)
  then show ?case by (rule_tac ka_New_cases)
next
  case (set ka lost t e ka')
  then show ?case by (simp add: ka_Set_inv)
next
  case (remove ka lost t e ka')
  then show ?case by (simp add: ka_Remove_def ka_remove_fields(3))
next
  case (timeout ka lost ctx t e ka')
  then show ?case by (simp add: ka_timeout_inv)
next
  case (cancelled ka lost ctx t)
  then have "\<And>n u. ka_targets ka n = Some (ctx, u) \<Longrightarrow> False" using ka_inv_entry by blast
  from ka_inv_timer [OF cancelled(4) this] show ?case .
qed

section \<open>The registry behind the middleware\<close>

text \<open>
  What the middleware needs of a registry: \<open>Set\<close> stores at most the target it is given, \<open>Remove\<close> stores
  nothing new and, if it succeeds, the target is gone; the two calls of \<open>Get\<close> at the start list everything stored.
\<close>

locale monitored_registry =
  fixes api :: "('r, 'e) registry_api" and stored :: "'r \<Rightarrow> string set" and inv_r :: "'r \<Rightarrow> bool" and ok :: "Target \<Rightarrow> bool"
  assumes set_stored: "inv_r r \<Longrightarrow> ok t \<Longrightarrow> ra_Set api t r = (e, r') \<Longrightarrow>
      inv_r r' \<and> stored r' \<subseteq> (if e = None then insert (GetTargetID t) (stored r) else stored r)"
    and remove_stored: "inv_r r \<Longrightarrow> ok t \<Longrightarrow> ra_Remove api t r = (e, r') \<Longrightarrow>
      inv_r r' \<and> stored r' \<subseteq> stored r \<and> (e = None \<longrightarrow> GetTargetID t \<notin> stored r')"
    and get_stored: "inv_r r \<Longrightarrow> ra_Get api (any_target DEFAULT) r = Inr ds \<Longrightarrow> ra_Get api (any_target FRONTEND) r = Inr fs \<Longrightarrow>
      stored r \<subseteq> GetTargetID ` set (ds @ fs) \<and> (\<forall>t \<in> set (ds @ fs). ok t)"
    and ok_status: "ok t \<Longrightarrow> ok (t\<lparr>target_status := s\<rparr>)"
begin

lemma remove_monitored:
  assumes "ka_remove api t ka = (e, ka')" "ka_TargetRegistry ka = Some r" "inv_r r" "ok t" "stored r \<subseteq> dom (ka_targets ka) \<union> lost"
  shows "\<exists>r'. ka_TargetRegistry ka' = Some r' \<and> inv_r r' \<and>
    stored r' \<subseteq> dom (ka_targets ka') \<union> (if e = None then lost else insert (GetTargetID t) lost)"
proof -
  obtain r' where r: "ra_Remove api t r = (e, r')" "ka_TargetRegistry ka' = Some r'"
    using assms(1,2) by (auto simp: ka_remove_def Let_def split: prod.splits)
  have "stored r' \<subseteq> stored r" "inv_r r'" "e = None \<Longrightarrow> GetTargetID t \<notin> stored r'"
    using remove_stored [OF assms(3,4) r(1)] by auto
  then show ?thesis using r(2) assms(5) ka_remove_fields(1) [OF assms(1)] by auto
qed

lemma reach_monitored:
  "ka_reach api ok inv_r ka lost \<Longrightarrow>
     (\<forall>(c, t) \<in> set (ka_timers ka). ok t) \<and> (\<exists>r. ka_TargetRegistry ka = Some r \<and> inv_r r \<and> stored r \<subseteq> dom (ka_targets ka) \<union> lost)"
proof (induction rule: ka_reach.induct)
  case (new r ka)
  obtain ds fs where g: "ra_Get api (any_target DEFAULT) r = Inr ds" "ra_Get api (any_target FRONTEND) r = Inr fs"
      "ka_TargetRegistry ka = Some r" "dom (ka_targets ka) = GetTargetID ` set (ds @ fs)" "snd ` set (ka_timers ka) = set (ds @ fs)"
    using ka_New_cases [OF new(2)] by metis
  note s = get_stored [OF new(1) g(1,2)]
  have "ok t" if "(c, t) \<in> set (ka_timers ka)" for c t
    using that s g(5) by (metis image_eqI snd_conv)
  then show ?case using g s new(1) by auto
next
  case (set ka lost t e ka')
  then obtain r where r: "ka_TargetRegistry ka = Some r" "inv_r r" "stored r \<subseteq> dom (ka_targets ka) \<union> lost" by blast
  define u where "u = (if ka_targets ka (GetTargetID t) = None then t\<lparr>target_status := DISABLED\<rparr> else t)"
  have u: "ok u" "GetTargetID u = GetTargetID t" using set(2) ok_status by (simp_all add: u_def)
  obtain e' r' where s: "ra_Set api u r = (e', r')" by fastforce
  have st: "inv_r r'" "stored r' \<subseteq> (if e' = None then insert (GetTargetID t) (stored r) else stored r)"
    using set_stored [OF r(2) u(1) s] u(2) by auto
  show ?case
  proof (cases e')
    case None
    then have "ka' = ka_add u (ka\<lparr>ka_TargetRegistry := Some r'\<rparr>)" using set(3) r(1) s by (simp add: ka_Set_def u_def [symmetric])
    then have f: "ka_TargetRegistry ka' = Some r'" "dom (ka_targets ka') = insert (GetTargetID t) (dom (ka_targets ka))"
        "set (ka_timers ka') = insert (ka_next ka, u) (set (ka_timers ka))"
      using u(2) by simp_all
    have "stored r' \<subseteq> dom (ka_targets ka') \<union> lost" unfolding f(2) using st(2) r(3) None by (simp, blast)
    moreover have "\<forall>(c, t) \<in> set (ka_timers ka'). ok t" unfolding f(3) using set(4) u(1) by simp
    ultimately show ?thesis using st(1) f(1) by blast
  next
    case (Some x)
    then have "ka' = ka\<lparr>ka_TargetRegistry := Some r'\<rparr>" using set(3) r(1) s by (simp add: ka_Set_def u_def [symmetric])
    then show ?thesis using set(4) st r(3) Some by auto
  qed
next
  case (remove ka lost t e ka')
  then have m: "ka_remove api t ka = (e, ka')" by (simp add: ka_Remove_def)
  obtain r where r: "ka_TargetRegistry ka = Some r" "inv_r r" "stored r \<subseteq> dom (ka_targets ka) \<union> lost" using remove(4) by blast
  from remove_monitored [OF m r(1,2) remove(2) r(3)] remove(4) show ?case unfolding ka_remove_fields(2) [OF m] by blast
next
  case (timeout ka lost ctx t e ka')
  let ?ka = "ka\<lparr>ka_timers := remove1 (ctx, t) (ka_timers ka)\<rparr>"
  have ok: "ok t" "\<forall>(c, t) \<in> set (ka_timers ?ka). ok t" using timeout(2,4) set_remove1_subset [of "(ctx, t)" "ka_timers ka"] by auto
  obtain r where r0: "ka_TargetRegistry ka = Some r" "inv_r r" "stored r \<subseteq> dom (ka_targets ka) \<union> lost" using timeout(4) by blast
  have r: "ka_TargetRegistry ?ka = Some r" "inv_r r" "stored r \<subseteq> dom (ka_targets ?ka) \<union> lost" using r0 by simp_all
  consider "(e, ka') = (None, ?ka)" | "ka_remove api t ?ka = (e, ka')"
    using ka_timeout_cases [OF timeout(3)] by metis
  then show ?case
  proof cases
    case 1
    then show ?thesis using r ok(2) by auto
  next
    case 2
    from remove_monitored [OF 2 r(1,2) ok(1) r(3)] ok(2) show ?thesis unfolding ka_remove_fields(2) [OF 2] by blast
  qed
next
  case (cancelled ka lost ctx t)
  then show ?case using set_remove1_subset [of "(ctx, t)" "ka_timers ka"] by auto
qed

end

section \<open>The registry in memory\<close>

lemma trm_Set_targets:
  assumes "registry_inv trm" "wf_target t"
  shows "\<exists>trm'. trm_Set t trm = Some trm' \<and> registry_inv trm' \<and> trm_targets trm' = (case trm_getIndex (trm_targets trm) t of
      None \<Rightarrow> trm_targets trm @ [t]
    | Some i \<Rightarrow> (trm_targets trm)[i := (trm_targets trm ! i)\<lparr>target_context := target_context t, target_status := target_status t\<rparr>])"
proof -
  let ?ts = "case trm_getIndex (trm_targets trm) t of
      None \<Rightarrow> trm_targets trm @ [t]
    | Some i \<Rightarrow> (trm_targets trm)[i := (trm_targets trm ! i)\<lparr>target_context := target_context t, target_status := target_status t\<rparr>]"
  have "trm_Set t trm = notifyAllWatchers (trm\<lparr>trm_targets := ?ts\<rparr>)" by (simp add: trm_Set_def split: option.split)
  with notifyAllWatchers_returns [OF set_targets(1) [OF assms]] notified_inv [OF set_targets(1) [OF assms]]
  show ?thesis by (simp add: exI)
qed

lemma trm_Remove_targets:
  assumes "registry_inv trm" "wf_target t"
  shows "\<exists>trm'. trm_Remove t trm = Some trm' \<and> registry_inv trm' \<and> set (trm_targets trm') = {u \<in> set (trm_targets trm). target_key u \<noteq> target_key t}"
proof (cases "trm_getIndex (trm_targets trm) t")
  case None
  then have "target_key t \<notin> target_key ` set (trm_targets trm)" using getIndex_None [OF assms] by simp
  then have "\<And>u. u \<in> set (trm_targets trm) \<Longrightarrow> target_key u \<noteq> target_key t" by (metis imageI)
  then have "set (trm_targets trm) = {u \<in> set (trm_targets trm). target_key u \<noteq> target_key t}" by blast
  with None assms(1) show ?thesis by (simp add: trm_Remove_def)
next
  case (Some i)
  have keys: "distinct (map target_key (trm_targets trm))" using assms(1) by (simp add: registry_inv_def)
  note i = getIndex_Some [OF assms Some]
  note inv = remove_targets(1) [OF assms(1) Some assms(2)]
  have "set (remove_index i (trm_targets trm)) = {u \<in> set (trm_targets trm). target_key u \<noteq> target_key t}"
    using set_remove_index [OF keys i(1)] i(2) by simp
  with Some notifyAllWatchers_returns [OF inv] notified_inv [OF inv] show ?thesis by (simp add: trm_Remove_def exI)
qed

lemma memory_set:
  assumes "memory_ok r" "plain_target t" "ra_Set memory_api t r = (e, r')"
  shows "memory_ok r' \<and> memory_ids r' \<subseteq> (if e = None then insert (GetTargetID t) (memory_ids r) else memory_ids r)"
proof -
  have inv: "registry_inv r" "wf_target t" using assms(1,2) by (simp_all add: memory_ok_def plain_target_def)
  obtain r1 where r1: "trm_Set t r = Some r1" "registry_inv r1" "trm_targets r1 = (case trm_getIndex (trm_targets r) t of
      None \<Rightarrow> trm_targets r @ [t]
    | Some i \<Rightarrow> (trm_targets r)[i := (trm_targets r ! i)\<lparr>target_context := target_context t, target_status := target_status t\<rparr>])"
    using trm_Set_targets [OF inv] by blast
  have e: "e = None" "r' = r1" using assms(3) r1(1) by (simp_all add: memory_api_def)
  have "u \<in> set (trm_targets r1) \<Longrightarrow> plain_target u \<and> GetTargetID u \<in> insert (GetTargetID t) (memory_ids r)" for u
  proof (cases "trm_getIndex (trm_targets r) t")
    case None
    then show "u \<in> set (trm_targets r1) \<Longrightarrow> ?thesis" using assms(1,2) r1(3) by (auto simp: memory_ok_def memory_ids_def)
  next
    case (Some i)
    let ?u = "(trm_targets r ! i)\<lparr>target_context := target_context t, target_status := target_status t\<rparr>"
    assume "u \<in> set (trm_targets r1)"
    then have "u = ?u \<or> u \<in> set (trm_targets r)" using r1(3) Some set_update_subset_insert [of "trm_targets r" i ?u] by auto
    moreover have "trm_targets r ! i \<in> set (trm_targets r)" using getIndex_Some(1) [OF inv Some] by simp
    moreover have "GetTargetID ?u = GetTargetID (trm_targets r ! i)" "plain_target ?u = plain_target (trm_targets r ! i)"
      by (simp_all only: GetTargetID_update plain_update)
    ultimately show ?thesis using assms(1) by (auto simp: memory_ok_def memory_ids_def)
  qed
  then show ?thesis using e r1(2) by (auto simp: memory_ok_def memory_ids_def)
qed

lemma memory_remove:
  assumes "memory_ok r" "plain_target t" "ra_Remove memory_api t r = (e, r')"
  shows "memory_ok r' \<and> memory_ids r' \<subseteq> memory_ids r \<and> (e = None \<longrightarrow> GetTargetID t \<notin> memory_ids r')"
proof -
  have inv: "registry_inv r" "wf_target t" using assms(1,2) by (simp_all add: memory_ok_def plain_target_def)
  obtain r1 where r1: "trm_Remove t r = Some r1" "registry_inv r1" "set (trm_targets r1) = {u \<in> set (trm_targets r). target_key u \<noteq> target_key t}"
    using trm_Remove_targets [OF inv] by blast
  have e: "r' = r1" using assms(3) r1(1) by (simp add: memory_api_def)
  have "GetTargetID u \<noteq> GetTargetID t" if "u \<in> set (trm_targets r1)" for u
    using plain_key [of u t] that r1(3) assms(1,2) by (auto simp: memory_ok_def)
  then have "GetTargetID t \<notin> memory_ids r1" unfolding memory_ids_def by fastforce
  then show ?thesis using e r1 assms(1) by (auto simp: memory_ok_def memory_ids_def)
qed

lemma any_target_selects: "set (trm_Get (Some (any_target ty)) r) = {t \<in> set (trm_targets r). target_type t = ty}"
  by (auto simp: Get_iff any_target_def)

interpretation mem_monitored: monitored_registry memory_api memory_ids memory_ok plain_target
proof unfold_locales
  fix r ds fs
  assume "memory_ok r" "ra_Get memory_api (any_target DEFAULT) r = Inr ds" "ra_Get memory_api (any_target FRONTEND) r = Inr fs"
  then have "ds = trm_Get (Some (any_target DEFAULT)) r" "fs = trm_Get (Some (any_target FRONTEND)) r" and p: "\<And>t. t \<in> set (trm_targets r) \<Longrightarrow> plain_target t"
    by (auto simp: memory_api_def memory_ok_def)
  then have m: "set (ds @ fs) = {t \<in> set (trm_targets r). target_type t = DEFAULT \<or> target_type t = FRONTEND}"
    by (auto simp: any_target_selects)
  have eq: "set (ds @ fs) = set (trm_targets r)" unfolding m using TargetType.exhaust by blast
  show "memory_ids r \<subseteq> GetTargetID ` set (ds @ fs) \<and> (\<forall>t \<in> set (ds @ fs). plain_target t)"
    unfolding eq memory_ids_def using p by blast
next
  fix r r' t and e :: "unit option"
  assume "memory_ok r" "plain_target t" "ra_Set memory_api t r = (e, r')"
  then show "memory_ok r' \<and> memory_ids r' \<subseteq> (if e = None then insert (GetTargetID t) (memory_ids r) else memory_ids r)" by (rule memory_set)
next
  fix r r' t and e :: "unit option"
  assume "memory_ok r" "plain_target t" "ra_Remove memory_api t r = (e, r')"
  then show "memory_ok r' \<and> memory_ids r' \<subseteq> memory_ids r \<and> (e = None \<longrightarrow> GetTargetID t \<notin> memory_ids r')" by (rule memory_remove)
next
  fix t s
  assume "plain_target t"
  then show "plain_target (t\<lparr>target_status := s\<rparr>)" by simp
qed

lemma ex_ra_set: "ra_Set memory_api (ex_target\<lparr>target_status := DISABLED\<rparr>) trm_New = (None, ex_stored)"
  by (simp add: memory_api_def trm_Set_def trm_getIndex_def trm_New_def notifyAllWatchers_def ex_stored_def)

lemma ex_plain: "plain_target ex_target"
  using ex_target_wf by (simp add: plain_target_def getTargetStream_def getTargetConduit_def getTargetTrench_def) (simp add: ex_target_def)

lemma ex_ka1_reach: "ka_reach memory_api plain_target memory_ok ex_ka1 {}"
proof -
  have "ka_New memory_api (Some trm_New) = Inr ex_ka"
    by (simp add: ka_New_def ka_restore_def ka_Get_def memory_api_def trm_Get_def Filter_def trm_New_def ex_ka_def)
  moreover have "memory_ok trm_New" by (simp add: memory_ok_def registry_inv_def trm_New_def)
  ultimately have "ka_reach memory_api plain_target memory_ok ex_ka {}" by (intro ka_reach.new)
  moreover have "ka_Set memory_api ex_target ex_ka = (None, ex_ka1)"
    using ex_ra_set by (simp add: ka_Set_def ex_ka_def ka_add_def ex_ka1_def Let_def)
  ultimately show ?thesis using ka_reach.set ex_plain by blast
qed

section \<open>Properties\<close>





text \<open>
  A target that is not monitored is stored as disabled, whatever status it asks for; a
  monitored one with the status it asks for.
\<close>

theorem keepalive_first_disabled:
  assumes "ka_TargetRegistry ka = Some r"
    "ra_Set api (if GetTargetID t \<in> dom (ka_targets ka) then t else t\<lparr>target_status := DISABLED\<rparr>) r = (e, r')"
  shows "\<exists>ka'. ka_Set api t ka = (e, ka') \<and> ka_TargetRegistry ka' = Some r' \<and>
    dom (ka_targets ka') = (if e = None then insert (GetTargetID t) (dom (ka_targets ka)) else dom (ka_targets ka))"
proof -
  define u where "u = (if GetTargetID t \<in> dom (ka_targets ka) then t else t\<lparr>target_status := DISABLED\<rparr>)"
  have u: "(if ka_targets ka (GetTargetID t) = None then t\<lparr>target_status := DISABLED\<rparr> else t) = u" "GetTargetID u = GetTargetID t"
    by (auto simp: u_def)
  have s: "ra_Set api u r = (e, r')" using assms(2) by (simp only: u_def)
  show ?thesis
  proof (cases e)
    case None
    then have "ka_Set api t ka = (None, ka_add u (ka\<lparr>ka_TargetRegistry := Some r'\<rparr>))"
      using s by (simp add: ka_Set_def u(1) assms(1))
    then show ?thesis using None u(2) by simp
  next
    case (Some x)
    then have "ka_Set api t ka = (Some x, ka\<lparr>ka_TargetRegistry := Some r'\<rparr>)"
      using s by (simp add: ka_Set_def u(1) assms(1))
    then show ?thesis using Some by simp
  qed
qed

theorem keepalive_first_disabled_witness:
  "\<exists>ka'. ka_Set memory_api ex_target ex_ka = (None, ka') \<and> ka_TargetRegistry ka' = Some ex_stored"
  using keepalive_first_disabled [of ex_ka trm_New memory_api ex_target None ex_stored] ex_ra_set by (auto simp: ex_ka_def)



text \<open>With dots in the names, which Kubernetes allows, targets of different streams and conduits share one identifier.\<close>

theorem target_ids_collide:
  "\<exists>t u. getTargetStream t \<noteq> getTargetStream u \<and> getTargetConduit t \<noteq> getTargetConduit u \<and> GetTargetID t = GetTargetID u"
proof -
  let ?t = "\<lambda>s c. ex_target\<lparr>target_stream := Some \<lparr>stream_name = s, stream_conduit = Some \<lparr>conduit_name = c,
    conduit_trench = Some \<lparr>trench_name = ''t''\<rparr>, conduit_portNats = []\<rparr>, stream_maxTargets = 2\<rparr>\<rparr>"
  show ?thesis
    by (rule exI [of _ "?t ''a.b'' ''c''"], rule exI [of _ "?t ''a'' ''b.c''"])
      (simp add: GetTargetID_def getTargetStream_def getTargetConduit_def getTargetTrench_def)
qed

text \<open>A removal that fails when a target expires is not tried again: the entry is gone, no timer is
  left for it, and the registry keeps the target.\<close>

theorem keepalive_failed_expiry:
  assumes "ka_inv ka" "ka_targets ka (GetTargetID t) = Some (ctx, t)" "ka_TargetRegistry ka = Some r" "ra_Remove api t r = (Some err, r)"
  shows "\<exists>ka'. ka_timeout api ctx t ka = (Some err, ka') \<and> GetTargetID t \<notin> dom (ka_targets ka') \<and> ka_TargetRegistry ka' = Some r \<and>
    (ctx, t) \<notin> set (ka_timers ka')"
proof -
  have "distinct (ka_timers ka)" using assms(1) by (auto simp: ka_inv_def distinct_map)
  then show ?thesis using assms(2-4) by (auto simp: ka_timeout_def ka_remove_def Let_def)
qed

end
