(* ===== verification/TapStream.thy ===== *)
theory TapStream
  imports KeepAlive
begin

text \<open>
  A stream of the tap (\<open>pkg/ambassador/tap/stream\<close>) and the messages of \<open>api/ambassador/v1\<close>. \<open>Open\<close> registers the pod as a target
  with an identifier that no other target of the stream has. Taps of many pods do this at the same time with nothing
  shared but the target registry, so \<open>Open\<close>, \<open>refresh\<close> and \<open>Close\<close> are cut at their calls of the registry: \<open>tap_pc\<close> is the call
  a tap makes next, and \<open>tap_next\<close> makes it and runs to the next one. A call may fail before or after the
  registry has carried it out.
\<close>

section \<open>Definitions\<close>

subsection \<open>Messages\<close>

record a_Trench =
  at_name :: string

record a_Conduit =
  ac_name :: string
  ac_trench :: "a_Trench option"

record a_Stream =
  as_name :: string
  as_conduit :: "a_Conduit option"

text \<open>The getters of nil messages return the zero value.\<close>

definition at_GetName :: "a_Trench option \<Rightarrow> string" where
  "at_GetName t = (case t of None \<Rightarrow> [] | Some t \<Rightarrow> at_name t)"

definition ac_GetName :: "a_Conduit option \<Rightarrow> string" where
  "ac_GetName c = (case c of None \<Rightarrow> [] | Some c \<Rightarrow> ac_name c)"

definition ac_GetTrench :: "a_Conduit option \<Rightarrow> a_Trench option" where
  "ac_GetTrench c = (case c of None \<Rightarrow> None | Some c \<Rightarrow> ac_trench c)"

definition at_ToNSP :: "a_Trench option \<Rightarrow> Trench" where
  "at_ToNSP t = \<lparr>trench_name = at_GetName t\<rparr>"

definition ac_ToNSP :: "a_Conduit option \<Rightarrow> Conduit" where
  "ac_ToNSP c = \<lparr>conduit_name = ac_GetName c, conduit_trench = Some (at_ToNSP (ac_GetTrench c)), conduit_portNats = []\<rparr>"

definition as_ToNSP :: "a_Stream \<Rightarrow> Stream" where
  "as_ToNSP s = \<lparr>stream_name = as_name s, stream_conduit = Some (ac_ToNSP (as_conduit s)), stream_maxTargets = 0\<rparr>"

definition at_Equals :: "a_Trench option \<Rightarrow> a_Trench option \<Rightarrow> bool" where
  "at_Equals t1 t2 \<longleftrightarrow> at_GetName t1 = at_GetName t2"

definition ac_Equals :: "a_Conduit option \<Rightarrow> a_Conduit option \<Rightarrow> bool" where
  "ac_Equals c1 c2 \<longleftrightarrow> ac_GetName c1 = ac_GetName c2 \<and> at_Equals (ac_GetTrench c1) (ac_GetTrench c2)"

definition as_Equals :: "a_Stream \<Rightarrow> a_Stream \<Rightarrow> bool" where
  "as_Equals s1 s2 \<longleftrightarrow> as_name s1 = as_name s2 \<and> ac_Equals (as_conduit s1) (as_conduit s2)"

definition at_FullName :: "a_Trench option \<Rightarrow> string" where
  "at_FullName t = at_GetName t"

definition ac_FullName :: "a_Conduit option \<Rightarrow> string" where
  "ac_FullName c = ac_GetName c @ ''.'' @ at_FullName (ac_GetTrench c)"

definition as_FullName :: "a_Stream \<Rightarrow> string" where
  "as_FullName s = as_name s @ ''.'' @ ac_FullName (as_conduit s)"

subsection \<open>The stream\<close>

record tap_stream =
  ts_Stream :: a_Stream
  ts_identifier :: int
  ts_targetStatus :: TargetStatus
  ts_ips :: "string list"

definition tap_New :: "a_Stream \<Rightarrow> tap_stream" where
  "tap_New stream = \<lparr>ts_Stream = stream, ts_identifier = -1, ts_targetStatus = DISABLED, ts_ips = []\<rparr>"

definition sameIps :: "string list \<Rightarrow> string list \<Rightarrow> bool" where
  "sameIps ipsA ipsB = (if length ipsA \<noteq> length ipsB then False else let ipMap = set ipsA in \<forall>ip \<in> set ipsB. ip \<in> ipMap)"

definition isIdentifierInRange :: "int \<Rightarrow> int \<Rightarrow> tap_stream \<Rightarrow> bool" where
  "isIdentifierInRange lo hi s \<longleftrightarrow> ts_identifier s \<ge> lo \<and> ts_identifier s \<le> hi"

definition isIdentifierValid :: "string set \<Rightarrow> int \<Rightarrow> int \<Rightarrow> tap_stream \<Rightarrow> bool" where
  "isIdentifierValid exclusionList lo hi s \<longleftrightarrow> itoa (ts_identifier s) \<notin> exclusionList \<and> isIdentifierInRange lo hi s"

text \<open>The results of \<open>rand.Intn(maxTargets)\<close> are a list; None is a loop that has not found an identifier among them.\<close>

fun set_identifier :: "string set \<Rightarrow> nat \<Rightarrow> nat list \<Rightarrow> tap_stream \<Rightarrow> tap_stream option" where
  "set_identifier exclusionList maxTargets draws s =
     (if isIdentifierValid exclusionList 1 (int maxTargets) s then Some s
      else case draws of
             [] \<Rightarrow> None
           | d # ds \<Rightarrow> set_identifier exclusionList maxTargets ds (s\<lparr>ts_identifier := int d + 1\<rparr>))"

declare set_identifier.simps [simp del]

definition setIdentifier :: "string list \<Rightarrow> nat \<Rightarrow> nat list \<Rightarrow> tap_stream \<Rightarrow> tap_stream option" where
  "setIdentifier exclusionList maxTargets draws s = set_identifier (set exclusionList) maxTargets draws s"

definition checkIdentifierCollision :: "string list \<Rightarrow> tap_stream \<Rightarrow> bool" where
  "checkIdentifierCollision identifiersInUse s = list_ex (\<lambda>identifier. identifier = itoa (ts_identifier s)) identifiersInUse"

definition tap_IdentifierKey :: string where
  "tap_IdentifierKey = ''identifier''"

definition context_identifier :: "(string \<rightharpoonup> string) \<Rightarrow> string" where
  "context_identifier c = (case c tap_IdentifierKey of None \<Rightarrow> [] | Some v \<Rightarrow> v)"

definition tap_selector :: "a_Stream \<Rightarrow> Target" where
  "tap_selector s = \<lparr>target_ips = [], target_context = Map.empty, target_status = ANY, target_type = DEFAULT, target_stream = Some (as_ToNSP s)\<rparr>"

text \<open>The identifiers of the targets that the registry returned, without the own one.\<close>

definition identifiers_in_use :: "Target list \<Rightarrow> tap_stream \<Rightarrow> string list" where
  "identifiers_in_use targets s =
     map (\<lambda>t. context_identifier (target_context t)) (filter (\<lambda>t. \<not> sameIps (target_ips t) (ts_ips s)) targets)"

definition tap_getTarget :: "tap_stream \<Rightarrow> Target" where
  "tap_getTarget s =
     \<lparr>target_ips = ts_ips s, target_context = [tap_IdentifierKey \<mapsto> itoa (ts_identifier s)], target_status = ts_targetStatus s,
      target_type = DEFAULT, target_stream = Some (as_ToNSP (ts_Stream s))\<rparr>"

subsection \<open>Calls of the registry\<close>

text \<open>The registry as its clients see it; \<open>na_expire\<close> is a timer that fires.\<close>

record ('r, 'x) nsp_api =
  na_Register :: "Target \<Rightarrow> 'r \<Rightarrow> 'r"
  na_Unregister :: "Target \<Rightarrow> 'r \<Rightarrow> 'r"
  na_GetTargets :: "Target \<Rightarrow> 'r \<Rightarrow> Target list"
  na_expire :: "'x \<Rightarrow> 'r \<Rightarrow> 'r"

text \<open>A call succeeds, fails before it reaches the registry, or fails after the registry has carried it out.\<close>

datatype outcome = Done | Lost | Late

definition tap_call :: "outcome \<Rightarrow> ('r \<Rightarrow> 'r) \<Rightarrow> 'r \<Rightarrow> 'r" where
  "tap_call out f r = (case out of Lost \<Rightarrow> r | _ \<Rightarrow> f r)"

datatype tap_pc = TIdle | TGet | TRegister | TLoop | TUnregFull | TUnregister "string list" | TReregister | TEnable
  | TRefresh | TRefreshGet | TClose | TReset | TDead

record tap =
  tp_stream :: tap_stream
  tp_max :: nat
  tp_pc :: tap_pc

text \<open>The start of \<open>open\<close>, \<open>Open\<close> and \<open>Close\<close>, up to the first call.\<close>

definition tap_open :: "tap \<Rightarrow> tap" where
  "tap_open tp = (if ts_targetStatus (tp_stream tp) \<noteq> DISABLED then tp\<lparr>tp_pc := TIdle\<rparr> else tp\<lparr>tp_pc := TGet\<rparr>)"

definition tap_Open :: "string list \<Rightarrow> nat \<Rightarrow> tap \<Rightarrow> tap" where
  "tap_Open ips maxTargets tp0 =
     (let s = (tp_stream tp0)\<lparr>ts_ips := ips\<rparr>; tp = tp0\<lparr>tp_stream := s, tp_max := maxTargets\<rparr>
      in if ips = [] then tp
         else if ts_targetStatus s = ENABLED \<and> isIdentifierInRange 1 (int maxTargets) s then tp\<lparr>tp_pc := TRefresh\<rparr>
         else tap_open tp)"

definition tap_Close :: "tap \<Rightarrow> tap" where
  "tap_Close tp = (if ts_identifier (tp_stream tp) < 0 then tp\<lparr>tp_pc := TReset\<rparr> else tp\<lparr>tp_pc := TClose\<rparr>)"

text \<open>The two assignments that \<open>Close\<close> defers. The code makes them after it has unlocked the mutex; here no \<open>Open\<close>
  comes in between.\<close>

definition close_reset :: "tap \<Rightarrow> tap" where
  "close_reset tp = tp\<lparr>tp_stream := (tp_stream tp)\<lparr>ts_targetStatus := DISABLED, ts_identifier := -1\<rparr>, tp_pc := TIdle\<rparr>"

text \<open>After the first list of identifiers: give up, or choose an identifier unless there is one.\<close>

definition after_get :: "string list \<Rightarrow> nat list \<Rightarrow> tap \<Rightarrow> tap option" where
  "after_get identifiersInUse draws tp =
     (if length identifiersInUse \<ge> tp_max tp then Some (tp\<lparr>tp_pc := TIdle\<rparr>)
      else if ts_identifier (tp_stream tp) \<le> 0
      then map_option (\<lambda>s. tp\<lparr>tp_stream := s, tp_pc := TRegister\<rparr>) (setIdentifier identifiersInUse (tp_max tp) draws (tp_stream tp))
      else Some (tp\<lparr>tp_pc := TRegister\<rparr>))"

text \<open>After the list of identifiers in the loop.\<close>

definition after_loop :: "string list \<Rightarrow> tap \<Rightarrow> tap" where
  "after_loop identifiersInUse tp =
     (if length identifiersInUse \<ge> tp_max tp then tp\<lparr>tp_pc := TUnregFull\<rparr>
      else if \<not> checkIdentifierCollision identifiersInUse (tp_stream tp)
      then tp\<lparr>tp_stream := (tp_stream tp)\<lparr>ts_targetStatus := ENABLED\<rparr>, tp_pc := TEnable\<rparr>
      else tp\<lparr>tp_pc := TUnregister identifiersInUse\<rparr>)"

text \<open>After the list of targets in \<open>refresh\<close>: the first target with the own addresses decides.\<close>

definition after_refresh :: "Target list \<Rightarrow> tap \<Rightarrow> tap" where
  "after_refresh targets tp =
     (case find (\<lambda>t. sameIps (ts_ips (tp_stream tp)) (target_ips t)) targets of
        Some t \<Rightarrow>
          if target_status t = ENABLED then tp\<lparr>tp_pc := TIdle\<rparr>
          else tap_open (tp\<lparr>tp_stream := (tp_stream tp)\<lparr>ts_targetStatus := DISABLED\<rparr>\<rparr>)
      | None \<Rightarrow> tap_open (tp\<lparr>tp_stream := (tp_stream tp)\<lparr>ts_targetStatus := DISABLED\<rparr>\<rparr>))"

definition tap_next :: "('r, 'x) nsp_api \<Rightarrow> outcome \<Rightarrow> nat list \<Rightarrow> tap \<Rightarrow> 'r \<Rightarrow> (tap \<times> 'r) option" where
  "tap_next api out draws tp r =
     (let s = tp_stream tp;
          targets = na_GetTargets api (tap_selector (ts_Stream s)) r;
          registered = tap_call out (na_Register api (tap_getTarget s)) r;
          unregistered = tap_call out (na_Unregister api (tap_getTarget s)) r;
          failed = tp\<lparr>tp_pc := TIdle\<rparr>
      in case tp_pc tp of
           TGet \<Rightarrow>
             if out \<noteq> Done then Some (failed, r)
             else map_option (\<lambda>tp'. (tp', r)) (after_get (identifiers_in_use targets s) draws tp)
         | TRegister \<Rightarrow> Some (if out \<noteq> Done then failed else tp\<lparr>tp_pc := TLoop\<rparr>, registered)
         | TLoop \<Rightarrow> Some (if out \<noteq> Done then failed else after_loop (identifiers_in_use targets s) tp, r)
         | TUnregFull \<Rightarrow> Some (failed, unregistered)
         | TUnregister identifiersInUse \<Rightarrow>
             map_option (\<lambda>s'. (tp\<lparr>tp_stream := s', tp_pc := TReregister\<rparr>, unregistered))
               (setIdentifier identifiersInUse (tp_max tp) draws s)
         | TReregister \<Rightarrow> Some (if out \<noteq> Done then failed else tp\<lparr>tp_pc := TLoop\<rparr>, registered)
         | TEnable \<Rightarrow> Some (tp\<lparr>tp_pc := TIdle\<rparr>, registered)
         | TRefresh \<Rightarrow> Some (if out \<noteq> Done then failed else tp\<lparr>tp_pc := TRefreshGet\<rparr>, registered)
         | TRefreshGet \<Rightarrow> Some (if out \<noteq> Done then failed else after_refresh targets tp, r)
         | TClose \<Rightarrow> Some (tp\<lparr>tp_pc := TReset\<rparr>, unregistered)
         | TReset \<Rightarrow> Some (close_reset tp, r)
         | TIdle \<Rightarrow> None
         | TDead \<Rightarrow> None)"

end
