(* ===== verification/TapProtocol.thy ===== *)
theory TapProtocol
  imports TapStream
begin

text \<open>
  Many taps and one registry: the steps of \<open>TapStream\<close> interleaved with each other and with the timers of the registry.
  The locale \<open>tap_registry\<close> says what the taps rely on: the registry is a map from keys of targets, a target that it did not have is stored
  as disabled, and timers only remove targets. The middleware of \<open>KeepAlive\<close> over the registry in memory provides it. In it, no two
  enabled targets of a stream have the same identifier, as long as a target does not expire between a call that stores it and the answer
  its tap waits for, and the calls with which a tap refreshes an expired target do not fail; without that, they can.
\<close>

section \<open>Definitions\<close>

record tap_cfg =
  cfg_stream :: "nat \<Rightarrow> a_Stream"
  cfg_ips :: "nat \<Rightarrow> string list"
  cfg_max :: "nat \<Rightarrow> nat"

record 'r tap_sys =
  sys_taps :: "nat \<Rightarrow> tap"
  sys_nsp :: 'r
  sys_expired :: "nat \<Rightarrow> bool"

definition has_target :: "('r, 'x) nsp_api \<Rightarrow> tap_cfg \<Rightarrow> 'r \<Rightarrow> nat \<Rightarrow> bool" where
  "has_target api cfg r k = list_ex (\<lambda>u. sameIps (target_ips u) (cfg_ips cfg k)) (na_GetTargets api (tap_selector (cfg_stream cfg k)) r)"

definition tap_init :: "tap_cfg \<Rightarrow> 'r \<Rightarrow> 'r tap_sys" where
  "tap_init cfg r = \<lparr>sys_taps = (\<lambda>k. \<lparr>tp_stream = tap_New (cfg_stream cfg k), tp_max = cfg_max cfg k, tp_pc = TIdle\<rparr>),
     sys_nsp = r, sys_expired = (\<lambda>k. False)\<rparr>"

text \<open>An action of a tap or of a timer. \<open>AOpen False\<close> is an \<open>Open\<close> while the conduit has no addresses, \<open>ACancel\<close> the end of the
  context in the loop of \<open>open\<close>, \<open>ACrash\<close> the end of the process.\<close>

datatype 'x tap_act = AOpen nat bool | AClose nat | ANext nat outcome "nat list" | ACancel nat | ACrash nat | AExpire 'x

definition set_tap :: "nat \<Rightarrow> tap \<Rightarrow> 'r tap_sys \<Rightarrow> 'r tap_sys" where
  "set_tap k tp s = s\<lparr>sys_taps := (sys_taps s)(k := tp)\<rparr>"

fun tap_do :: "('r, 'x) nsp_api \<Rightarrow> tap_cfg \<Rightarrow> 'x tap_act \<Rightarrow> 'r tap_sys \<Rightarrow> 'r tap_sys option" where
  "tap_do api cfg (AOpen k ready) s =
     (if tp_pc (sys_taps s k) = TIdle
      then Some (set_tap k (tap_Open (if ready then cfg_ips cfg k else []) (cfg_max cfg k) (sys_taps s k)) s) else None)"
| "tap_do api cfg (AClose k) s =
     (if tp_pc (sys_taps s k) = TIdle then Some (set_tap k (tap_Close (sys_taps s k)) s) else None)"
| "tap_do api cfg (ANext k out draws) s =
     (if list_all (\<lambda>d. d < cfg_max cfg k) draws
      then map_option (\<lambda>(tp, r). (set_tap k tp s)\<lparr>sys_nsp := r,
             sys_expired := (if tp_pc tp = TEnable then (sys_expired s)(k := False) else sys_expired s)\<rparr>)
           (tap_next api out draws (sys_taps s k) (sys_nsp s))
      else None)"
| "tap_do api cfg (ACancel k) s =
     (if tp_pc (sys_taps s k) = TLoop then Some (set_tap k ((sys_taps s k)\<lparr>tp_pc := TIdle\<rparr>) s) else None)"
| "tap_do api cfg (ACrash k) s = Some (set_tap k ((sys_taps s k)\<lparr>tp_pc := TDead\<rparr>) s)"
| "tap_do api cfg (AExpire x) s =
     (let r = na_expire api x (sys_nsp s)
      in Some (s\<lparr>sys_nsp := r, sys_expired := (\<lambda>k. sys_expired s k \<or> (has_target api cfg (sys_nsp s) k \<and> \<not> has_target api cfg r k))\<rparr>))"

text \<open>The timing that the protocol depends on: a target does not expire while its tap waits for the answer to the call that stored it,
  or for its enabling, and the calls that refresh an expired target succeed.\<close>

fun timely :: "('r, 'x) nsp_api \<Rightarrow> tap_cfg \<Rightarrow> 'x tap_act \<Rightarrow> 'r tap_sys \<Rightarrow> bool" where
  "timely api cfg (AExpire x) s \<longleftrightarrow>
     (\<forall>k. has_target api cfg (sys_nsp s) k \<and> \<not> has_target api cfg (na_expire api x (sys_nsp s)) k \<longrightarrow>
        tp_pc (sys_taps s k) \<notin> {TLoop, TEnable, TRefreshGet})"
| "timely api cfg (ANext k out draws) s \<longleftrightarrow> (tp_pc (sys_taps s k) \<in> {TRefresh, TRefreshGet} \<and> sys_expired s k \<longrightarrow> out = Done)"
| "timely api cfg _ s \<longleftrightarrow> True"

inductive tap_reach :: "('r, 'x) nsp_api \<Rightarrow> tap_cfg \<Rightarrow> 'r \<Rightarrow> 'r tap_sys \<Rightarrow> bool" for api cfg r0 where
  start: "tap_reach api cfg r0 (tap_init cfg r0)"
| step: "tap_reach api cfg r0 s \<Longrightarrow> timely api cfg a s \<Longrightarrow> tap_do api cfg a s = Some s' \<Longrightarrow> tap_reach api cfg r0 s'"

fun tap_run :: "('r, 'x) nsp_api \<Rightarrow> tap_cfg \<Rightarrow> 'x tap_act list \<Rightarrow> 'r tap_sys \<Rightarrow> 'r tap_sys option" where
  "tap_run api cfg [] s = Some s"
| "tap_run api cfg (a # as) s = Option.bind (tap_do api cfg a s) (tap_run api cfg as)"

subsection \<open>Vocabulary of the specification\<close>

definition tap_path :: "tap_cfg \<Rightarrow> nat \<Rightarrow> string \<times> string \<times> string" where
  "tap_path cfg k = the (stream_path (as_ToNSP (cfg_stream cfg k)))"

definition tap_key :: "tap_cfg \<Rightarrow> nat \<Rightarrow> target_id" where
  "tap_key cfg k = (set (cfg_ips cfg k), tap_path cfg k, DEFAULT)"

text \<open>Every tap has a complete stream and addresses of its own.\<close>

definition cfg_ok :: "tap_cfg \<Rightarrow> bool" where
  "cfg_ok cfg \<longleftrightarrow> (\<forall>k. stream_path (as_ToNSP (cfg_stream cfg k)) \<noteq> None \<and> distinct (cfg_ips cfg k) \<and> cfg_ips cfg k \<noteq> []) \<and>
     inj (tap_key cfg)"

type_synonym nsp_view = "target_id \<rightharpoonup> (string \<rightharpoonup> string) \<times> TargetStatus"

definition view_id :: "nsp_view \<Rightarrow> target_id \<Rightarrow> string option" where
  "view_id V \<kappa> = map_option (\<lambda>(c, st). context_identifier c) (V \<kappa>)"

text \<open>A tap and its entry in the registry.\<close>

definition tap_ok :: "tap_cfg \<Rightarrow> nsp_view \<Rightarrow> nat set \<Rightarrow> nat \<Rightarrow> tap \<Rightarrow> bool" where
  "tap_ok cfg V E k tp \<longleftrightarrow>
     (let s = tp_stream tp; pc = tp_pc tp; i = ts_identifier s; st = ts_targetStatus s; e = V (tap_key cfg k);
          same = (view_id V (tap_key cfg k) = Some (itoa i))
      in ts_Stream s = cfg_stream cfg k \<and> tp_max tp = cfg_max cfg k \<and>
         (ts_ips s = cfg_ips cfg k \<or> (ts_ips s = [] \<and> pc \<in> {TIdle, TClose, TReset, TDead})) \<and>
         (i = -1 \<or> (1 \<le> i \<and> i \<le> int (cfg_max cfg k))) \<and>
         (pc \<in> {TRegister, TLoop, TReregister, TEnable, TRefresh, TRefreshGet} \<or> st = ENABLED \<longrightarrow> 1 \<le> i) \<and>
         (pc \<in> {TGet, TRegister, TLoop, TUnregFull, TReregister} \<or> (\<exists>ids. pc = TUnregister ids) \<longrightarrow> st = DISABLED) \<and>
         (pc \<in> {TEnable, TRefresh, TRefreshGet} \<longrightarrow> st = ENABLED) \<and> st \<noteq> ANY \<and>
         (pc = TLoop \<longrightarrow> same) \<and> (pc = TEnable \<longrightarrow> k \<notin> E) \<and>
         (st = ENABLED \<and> pc \<notin> {TDead, TReset} \<and> k \<notin> E \<longrightarrow> same) \<and>
         (st = ENABLED \<and> pc \<notin> {TDead, TReset} \<and> k \<in> E \<longrightarrow>
            (if pc = TRefreshGet then map_option snd e = Some DISABLED \<and> same else e = None)) \<and>
         (pc = TRefreshGet \<and> k \<notin> E \<longrightarrow> map_option snd e = Some ENABLED) \<and>
         (e \<noteq> None \<longrightarrow> (\<exists>j. 1 \<le> j \<and> j \<le> int (cfg_max cfg k) \<and> view_id V (tap_key cfg k) = Some (itoa j))))"

text \<open>A tap holds an identifier if its entry has it and is enabled, or may be enabled without another look at the others.\<close>

definition holds :: "tap_cfg \<Rightarrow> nsp_view \<Rightarrow> nat set \<Rightarrow> nat \<Rightarrow> tap \<Rightarrow> string \<Rightarrow> bool" where
  "holds cfg V E k tp i \<longleftrightarrow> view_id V (tap_key cfg k) = Some i \<and>
     (map_option snd (V (tap_key cfg k)) = Some ENABLED \<or>
      (k \<notin> E \<and> ts_targetStatus (tp_stream tp) = ENABLED \<and> tp_pc tp \<noteq> TDead))"

definition protocol_inv :: "tap_cfg \<Rightarrow> nsp_view \<Rightarrow> nat set \<Rightarrow> (nat \<Rightarrow> tap) \<Rightarrow> bool" where
  "protocol_inv cfg V E taps \<longleftrightarrow> dom V \<subseteq> range (tap_key cfg) \<and> (\<forall>k. tap_ok cfg V E k (taps k)) \<and>
     (\<forall>k j i. tap_path cfg k = tap_path cfg j \<longrightarrow> holds cfg V E k (taps k) i \<longrightarrow> holds cfg V E j (taps j) i \<longrightarrow> k = j)"

section \<open>Lemmas: steps of one tap\<close>

text \<open>The entries of the other taps with the same stream.\<close>

definition unused :: "tap_cfg \<Rightarrow> nsp_view \<Rightarrow> nat \<Rightarrow> string \<Rightarrow> bool" where
  "unused cfg V k i \<longleftrightarrow> (\<forall>j. j \<noteq> k \<longrightarrow> tap_path cfg j = tap_path cfg k \<longrightarrow> view_id V (tap_key cfg j) \<noteq> Some i)"

lemma tap_ok_frame:
  assumes "V' (tap_key cfg j) = V (tap_key cfg j)" "j \<in> E' \<longleftrightarrow> j \<in> E"
  shows "tap_ok cfg V' E' j tp = tap_ok cfg V E j tp" "holds cfg V' E' j tp i = holds cfg V E j tp i"
  using assms by (simp_all add: tap_ok_def holds_def view_id_def Let_def)

lemma protocol_step:
  assumes "protocol_inv cfg V E taps" "inj (tap_key cfg)" "\<And>\<kappa>. \<kappa> \<noteq> tap_key cfg k \<Longrightarrow> V' \<kappa> = V \<kappa>" "\<And>j. j \<noteq> k \<Longrightarrow> j \<in> E' \<longleftrightarrow> j \<in> E"
    "tap_ok cfg V' E' k tp" "\<And>i. holds cfg V' E' k tp i \<Longrightarrow> holds cfg V E k (taps k) i \<or> unused cfg V k i"
  shows "protocol_inv cfg V' E' (taps(k := tp))"
proof -
  have V: "V' (tap_key cfg j) = V (tap_key cfg j)" if "j \<noteq> k" for j
    using assms(2,3) that by (metis injD)
  have fr: "tap_ok cfg V' E' j tq = tap_ok cfg V E j tq" "holds cfg V' E' j tq i = holds cfg V E j tq i" if "j \<noteq> k" for j tq i
    using tap_ok_frame [of V' cfg j V E' E] V assms(4) that by blast+
  have "dom V' \<subseteq> range (tap_key cfg)"
    using assms(1,3) unfolding protocol_inv_def by (metis (no_types, lifting) domIff rangeI subset_iff)
  moreover have "tap_ok cfg V' E' j ((taps(k := tp)) j)" for j
    using assms(1,5) fr(1) [of j] by (simp add: protocol_inv_def)
  moreover have "l = j"
    if h: "tap_path cfg l = tap_path cfg j" "holds cfg V' E' l ((taps(k := tp)) l) i" "holds cfg V' E' j ((taps(k := tp)) j) i" for l j i
  proof -
    have one: "False" if "m \<noteq> k" "tap_path cfg m = tap_path cfg k" "holds cfg V' E' m (taps m) i" "holds cfg V' E' k tp i" for m
    proof -
      have m: "holds cfg V E m (taps m) i" using fr(2) [OF that(1)] that(3) by simp
      then have "\<not> unused cfg V k i" using that(1,2) by (auto simp: unused_def holds_def)
      then have "holds cfg V E k (taps k) i" using assms(6) that(4) by blast
      then show False using m that(1,2) assms(1) by (auto simp: protocol_inv_def)
    qed
    show ?thesis
    proof (cases "l = k \<or> j = k")
      case True
      then show ?thesis using one [of l] one [of j] h by (auto split: if_splits)
    next
      case False
      then have "holds cfg V E l (taps l) i" "holds cfg V E j (taps j) i" using h fr(2) by auto
      then show ?thesis using assms(1) h(1) by (auto simp: protocol_inv_def)
    qed
  qed
  ultimately show ?thesis unfolding protocol_inv_def by blast
qed


lemma sameIps_iff:
  assumes "distinct a" "distinct b"
  shows "sameIps a b \<longleftrightarrow> set a = set b"
proof
  assume "sameIps a b"
  then have "length a = length b" "set b \<subseteq> set a" by (auto simp: sameIps_def Let_def split: if_splits)
  then show "set a = set b" using assms by (metis card_subset_eq distinct_card List.finite_set)
next
  assume "set a = set b"
  then show "sameIps a b" using assms by (auto simp: sameIps_def distinct_card [symmetric])
qed

lemma set_identifier_Some:
  "set_identifier ex m ds s = Some s' \<Longrightarrow>
     \<exists>i. s' = s\<lparr>ts_identifier := i\<rparr> \<and> itoa i \<notin> ex \<and> 1 \<le> i \<and> i \<le> int m"
proof (induction ds arbitrary: s)
  case Nil
  then show ?case
    by (auto simp: set_identifier.simps [of _ _ "[]"] isIdentifierValid_def isIdentifierInRange_def split: if_splits
        intro!: exI [of _ "ts_identifier s"])
next
  case (Cons d ds)
  show ?case
  proof (cases "isIdentifierValid ex 1 (int m) s")
    case True
    then show ?thesis using Cons.prems
      by (auto simp: set_identifier.simps [of _ _ "d # ds"] isIdentifierValid_def isIdentifierInRange_def intro!: exI [of _ "ts_identifier s"])
  next
    case False
    then have "set_identifier ex m ds (s\<lparr>ts_identifier := int d + 1\<rparr>) = Some s'" using Cons.prems by (simp add: set_identifier.simps [of _ _ "d # ds"])
    from Cons.IH [OF this] show ?thesis by auto
  qed
qed

lemma context_identifier_tap [simp]: "context_identifier [tap_IdentifierKey \<mapsto> v] = v"
  by (simp add: context_identifier_def)

lemma tap_key_target:
  assumes "ts_Stream s = cfg_stream cfg k"
  shows "target_key (tap_getTarget s) = (set (ts_ips s), tap_path cfg k, DEFAULT)"
  using assms by (simp add: target_key_def tap_getTarget_def tap_path_def)

text \<open>The entry that a registration leaves.\<close>

definition stored_entry :: "nsp_view \<Rightarrow> target_id \<Rightarrow> tap_stream \<Rightarrow> (string \<rightharpoonup> string) \<times> TargetStatus" where
  "stored_entry V \<kappa> s = ([tap_IdentifierKey \<mapsto> itoa (ts_identifier s)], if V \<kappa> = None then DISABLED else ts_targetStatus s)"

lemma view_id_simps [simp]:
  "view_id (V(\<kappa> \<mapsto> e)) \<kappa> = Some (context_identifier (fst e))" "view_id (V(\<kappa> := None)) \<kappa> = None"
  by (simp_all add: view_id_def split: prod.split)

lemma view_id_None [simp]: "view_id V \<kappa> = None \<longleftrightarrow> V \<kappa> = None"
  by (simp add: view_id_def)

lemma stored_entry_fst [simp]: "context_identifier (fst (stored_entry V \<kappa> s)) = itoa (ts_identifier s)"
  by (simp add: stored_entry_def)

text \<open>The states of a tap by the kind of its call.\<close>

lemmas tap_ok_simps = tap_ok_def holds_def Let_def

lemma tap_ok_fail:
  "tap_ok cfg V E k tp \<Longrightarrow> tp_pc tp \<in> {TGet, TRegister, TLoop, TUnregFull, TReregister, TEnable, TRefresh} \<or> (tp_pc tp = TRefreshGet \<and> k \<notin> E) \<Longrightarrow>
     tap_ok cfg V E k (tp\<lparr>tp_pc := TIdle\<rparr>)"
  by (cases "tp_pc tp") (auto simp: tap_ok_simps)

lemma holds_pc: "holds cfg V E k (tp\<lparr>tp_pc := pc\<rparr>) i \<Longrightarrow> tp_pc tp \<noteq> TDead \<Longrightarrow> holds cfg V E k tp i"
  by (auto simp: holds_def)

text \<open>A registration as disabled: the tap holds nothing afterwards.\<close>

abbreviation registered_view :: "tap_cfg \<Rightarrow> nsp_view \<Rightarrow> nat \<Rightarrow> tap \<Rightarrow> nsp_view" where
  "registered_view cfg V k tp \<equiv> V(tap_key cfg k \<mapsto> stored_entry V (tap_key cfg k) (tp_stream tp))"

lemma register_disabled:
  assumes "tap_ok cfg V E k tp" "tp_pc tp = TRegister \<or> tp_pc tp = TReregister"
  shows "tap_ok cfg (registered_view cfg V k tp) E k (tp\<lparr>tp_pc := TLoop\<rparr>)"
    "tap_ok cfg (registered_view cfg V k tp) E k (tp\<lparr>tp_pc := TIdle\<rparr>)"
    "\<not> holds cfg (registered_view cfg V k tp) E k (tp\<lparr>tp_pc := pc\<rparr>) i"
  using assms by (elim disjE; simp add: tap_ok_simps stored_entry_def; auto)+

text \<open>A registration as enabled by a tap that is not known to have expired: the tap held the identifier before.\<close>


lemma register_enabled:
  assumes "tap_ok cfg V E k tp" "tp_pc tp = TEnable \<or> tp_pc tp = TRefresh" "k \<notin> E"
  shows "tap_ok cfg (registered_view cfg V k tp) E k (tp\<lparr>tp_pc := TIdle\<rparr>)"
    "tap_ok cfg (registered_view cfg V k tp) E k (tp\<lparr>tp_pc := TRefreshGet\<rparr>)"
    "holds cfg (registered_view cfg V k tp) E k (tp\<lparr>tp_pc := pc\<rparr>) i \<Longrightarrow> holds cfg V E k tp i"
proof -
  have st: "ts_targetStatus (tp_stream tp) = ENABLED" "view_id V (tap_key cfg k) = Some (itoa (ts_identifier (tp_stream tp)))"
    using assms by (elim disjE; simp add: tap_ok_simps)+
  then have e: "stored_entry V (tap_key cfg k) (tp_stream tp) = ([tap_IdentifierKey \<mapsto> itoa (ts_identifier (tp_stream tp))], ENABLED)"
    by (auto simp: stored_entry_def view_id_def)
  have i: "1 \<le> ts_identifier (tp_stream tp)" "ts_identifier (tp_stream tp) \<le> int (cfg_max cfg k)"
    "ts_Stream (tp_stream tp) = cfg_stream cfg k" "tp_max tp = cfg_max cfg k" "ts_ips (tp_stream tp) = cfg_ips cfg k"
    using assms(1,2) st(1) by (elim disjE; simp add: tap_ok_simps)+
  show "tap_ok cfg (registered_view cfg V k tp) E k (tp\<lparr>tp_pc := TIdle\<rparr>)"
    "tap_ok cfg (registered_view cfg V k tp) E k (tp\<lparr>tp_pc := TRefreshGet\<rparr>)"
    using i st assms(3) unfolding e by (simp_all add: tap_ok_simps exI [of _ "ts_identifier (tp_stream tp)"])
  show "holds cfg V E k tp i" if "holds cfg (registered_view cfg V k tp) E k (tp\<lparr>tp_pc := pc\<rparr>) i"
    using that st assms(2,3) unfolding e by (auto simp: holds_def)
qed
text \<open>The first registration after a target has expired.\<close>

lemma register_expired:
  assumes "tap_ok cfg V E k tp" "tp_pc tp = TRefresh" "k \<in> E"
  shows "tap_ok cfg (registered_view cfg V k tp) E k (tp\<lparr>tp_pc := TRefreshGet\<rparr>)"
    "\<not> holds cfg (registered_view cfg V k tp) E k (tp\<lparr>tp_pc := TRefreshGet\<rparr>) i"
  using assms by (simp add: tap_ok_simps stored_entry_def; auto)+

text \<open>Removals, whether they are carried out or not.\<close>

lemma unregister_ok:
  assumes "tap_ok cfg V E k tp" "V' (tap_key cfg k) = V (tap_key cfg k) \<or> V' (tap_key cfg k) = None"
  shows "tp_pc tp = TUnregFull \<Longrightarrow> tap_ok cfg V' E k (tp\<lparr>tp_pc := TIdle\<rparr>)"
    "tp_pc tp = TClose \<Longrightarrow> tap_ok cfg V' E k (tp\<lparr>tp_pc := TReset\<rparr>)"
    "tp_pc tp = TUnregister ids \<Longrightarrow> 1 \<le> i \<Longrightarrow> i \<le> int (cfg_max cfg k) \<Longrightarrow>
       tap_ok cfg V' E k (tp\<lparr>tp_stream := (tp_stream tp)\<lparr>ts_identifier := i\<rparr>, tp_pc := TReregister\<rparr>)"
    "tp_pc tp \<noteq> TDead \<Longrightarrow> ts_targetStatus s = ts_targetStatus (tp_stream tp) \<Longrightarrow>
       holds cfg V' E k (tp\<lparr>tp_stream := s, tp_pc := pc\<rparr>) j \<Longrightarrow> holds cfg V E k tp j"
proof -
  have v: "view_id V' (tap_key cfg k) = view_id V (tap_key cfg k) \<and> V' (tap_key cfg k) = V (tap_key cfg k) \<or>
      view_id V' (tap_key cfg k) = None \<and> V' (tap_key cfg k) = None"
    using assms(2) by (auto simp: view_id_def)
  have entry: "V' (tap_key cfg k) \<noteq> None \<Longrightarrow> \<exists>j. 1 \<le> j \<and> j \<le> int (cfg_max cfg k) \<and> view_id V' (tap_key cfg k) = Some (itoa j)"
    using v assms(1) by (elim disjE; simp add: tap_ok_def Let_def)
  show "tap_ok cfg V' E k (tp\<lparr>tp_pc := TIdle\<rparr>)" if "tp_pc tp = TUnregFull"
    using assms(1) that entry by (simp add: tap_ok_def Let_def del: not_None_eq)
  show "tap_ok cfg V' E k (tp\<lparr>tp_pc := TReset\<rparr>)" if "tp_pc tp = TClose"
    using assms(1) that entry by (simp add: tap_ok_def Let_def del: not_None_eq)
  show "tap_ok cfg V' E k (tp\<lparr>tp_stream := (tp_stream tp)\<lparr>ts_identifier := i\<rparr>, tp_pc := TReregister\<rparr>)"
    if "tp_pc tp = TUnregister ids" "1 \<le> i" "i \<le> int (cfg_max cfg k)"
    using assms(1) that entry by (simp add: tap_ok_def Let_def del: not_None_eq)
  show "holds cfg V E k tp j"
    if "tp_pc tp \<noteq> TDead" "ts_targetStatus s = ts_targetStatus (tp_stream tp)" "holds cfg V' E k (tp\<lparr>tp_stream := s, tp_pc := pc\<rparr>) j"
    using v that by (elim disjE conjE) (simp_all add: holds_def, blast)
qed


text \<open>Steps that leave the registry alone.\<close>

definition keeps :: "tap_cfg \<Rightarrow> nsp_view \<Rightarrow> nat set \<Rightarrow> nat \<Rightarrow> tap \<Rightarrow> tap \<Rightarrow> bool" where
  "keeps cfg V E k tp tp' \<longleftrightarrow> tap_ok cfg V E k tp' \<and> (\<forall>i. holds cfg V E k tp' i \<longrightarrow> holds cfg V E k tp i)"

lemma fail_keeps:
  "tap_ok cfg V E k tp \<Longrightarrow> tp_pc tp \<in> {TGet, TRegister, TLoop, TUnregFull, TReregister, TEnable, TRefresh} \<or> (tp_pc tp = TRefreshGet \<and> k \<notin> E) \<Longrightarrow>
     keeps cfg V E k tp (tp\<lparr>tp_pc := TIdle\<rparr>)"
  unfolding keeps_def using tap_ok_fail [of cfg V E k tp] holds_pc [where tp = tp and pc = TIdle] by fastforce

lemma after_get_keeps:
  assumes "tap_ok cfg V E k tp" "tp_pc tp = TGet" "after_get ids draws tp = Some tp'"
  shows "keeps cfg V E k tp tp'"
proof -
  have st: "ts_targetStatus (tp_stream tp) = DISABLED" "tp_max tp = cfg_max cfg k" using assms(1,2) by (simp_all add: tap_ok_def Let_def)
  consider "tp' = tp\<lparr>tp_pc := TIdle\<rparr>" | "tp' = tp\<lparr>tp_pc := TRegister\<rparr>" "\<not> ts_identifier (tp_stream tp) \<le> 0"
    | s where "tp' = tp\<lparr>tp_stream := s, tp_pc := TRegister\<rparr>" "setIdentifier ids (tp_max tp) draws (tp_stream tp) = Some s"
    using assms(3) by (auto simp: after_get_def split: if_splits)
  then show ?thesis
  proof cases
    case 1
    then show ?thesis using fail_keeps [OF assms(1)] assms(2) by simp
  next
    case 2
    then show ?thesis using assms(1,2) by (auto simp: keeps_def tap_ok_def holds_def Let_def)
  next
    case (3 s)
    then obtain i where "s = (tp_stream tp)\<lparr>ts_identifier := i\<rparr>" "1 \<le> i" "i \<le> int (cfg_max cfg k)"
      using set_identifier_Some [of "set ids" "tp_max tp" draws "tp_stream tp" s] st(2) by (auto simp: setIdentifier_def)
    with 3(1) st(1) show ?thesis using assms(1,2) by (simp add: keeps_def tap_ok_def holds_def Let_def)
  qed
qed

lemma after_loop_keeps:
  assumes "tap_ok cfg V E k tp" "tp_pc tp = TLoop" "tp' = after_loop ids tp" "\<And>i. i \<notin> set ids \<Longrightarrow> unused cfg V k i"
  shows "tap_ok cfg V (if tp_pc tp' = TEnable then E - {k} else E) k tp'"
    "holds cfg V (if tp_pc tp' = TEnable then E - {k} else E) k tp' i \<Longrightarrow> holds cfg V E k tp i \<or> unused cfg V k i"
proof -
  have st: "ts_targetStatus (tp_stream tp) = DISABLED" "view_id V (tap_key cfg k) = Some (itoa (ts_identifier (tp_stream tp)))"
    using assms(1,2) by (simp_all add: tap_ok_def Let_def)
  consider (full) "tp' = tp\<lparr>tp_pc := TUnregFull\<rparr>" | (collide) "tp' = tp\<lparr>tp_pc := TUnregister ids\<rparr>"
    | (free) "tp' = tp\<lparr>tp_stream := (tp_stream tp)\<lparr>ts_targetStatus := ENABLED\<rparr>, tp_pc := TEnable\<rparr>"
        "itoa (ts_identifier (tp_stream tp)) \<notin> set ids"
    using assms(3) by (auto simp: after_loop_def checkIdentifierCollision_def list_ex_iff split: if_splits)
  note c = this
  from c show "tap_ok cfg V (if tp_pc tp' = TEnable then E - {k} else E) k tp'"
    using assms(1,2) st by cases (simp_all add: tap_ok_def Let_def, auto)
  show "holds cfg V E k tp i \<or> unused cfg V k i" if h: "holds cfg V (if tp_pc tp' = TEnable then E - {k} else E) k tp' i"
    using c
  proof cases
    case free
    then have "i \<notin> set ids" using h st(2) by (simp add: holds_def)
    then show ?thesis using assms(4) by blast
  qed (use h st(1) in \<open>simp_all add: holds_def\<close>)
qed

text \<open>\<open>open\<close> from a tap that is idle or has just been found disabled.\<close>

lemma tap_open_keeps:
  assumes "tap_ok cfg V E k tp" "tp_pc tp = TIdle" "ts_ips (tp_stream tp) = cfg_ips cfg k"
  shows "keeps cfg V E k tp (tap_open tp)"
proof (cases "ts_targetStatus (tp_stream tp) = DISABLED")
  case True
  then show ?thesis using assms by (simp add: keeps_def tap_open_def tap_ok_def holds_def Let_def)
next
  case False
  then have "tap_open tp = tp" using assms(2) by (simp add: tap_open_def)
  then show ?thesis using assms(1) by (simp add: keeps_def)
qed

lemma after_refresh_keeps:
  assumes "tap_ok cfg V E k tp" "tp_pc tp = TRefreshGet"
    "\<And>t. find (\<lambda>t. sameIps (ts_ips (tp_stream tp)) (target_ips t)) targets = Some t \<Longrightarrow> map_option snd (V (tap_key cfg k)) = Some (target_status t)"
    "find (\<lambda>t. sameIps (ts_ips (tp_stream tp)) (target_ips t)) targets = None \<Longrightarrow> V (tap_key cfg k) = None"
  shows "keeps cfg V E k tp (after_refresh targets tp)"
proof -
  let ?f = "find (\<lambda>t. sameIps (ts_ips (tp_stream tp)) (target_ips t)) targets"
  show ?thesis
  proof (cases "k \<in> E")
    case True
    then have v: "map_option snd (V (tap_key cfg k)) = Some DISABLED" using assms(1,2) by (simp add: tap_ok_def Let_def)
    then obtain t where "?f = Some t" "target_status t = DISABLED" using assms(3,4) by (cases ?f) auto
    then have "after_refresh targets tp = tp\<lparr>tp_stream := (tp_stream tp)\<lparr>ts_targetStatus := DISABLED\<rparr>, tp_pc := TGet\<rparr>"
      by (simp add: after_refresh_def tap_open_def)
    then show ?thesis using assms(1,2) True by (simp add: keeps_def tap_ok_def holds_def Let_def) auto
  next
    case False
    then have v: "map_option snd (V (tap_key cfg k)) = Some ENABLED" using assms(1,2) by (simp add: tap_ok_def Let_def)
    then obtain t where "?f = Some t" "target_status t = ENABLED" using assms(3,4) by (cases ?f) auto
    then have "after_refresh targets tp = tp\<lparr>tp_pc := TIdle\<rparr>" by (simp add: after_refresh_def)
    then show ?thesis using fail_keeps [OF assms(1)] assms(2) False by simp
  qed
qed

lemma ips_keeps:
  assumes "tap_ok cfg V E k tp" "tp_pc tp = TIdle" "ips = cfg_ips cfg k \<or> ips = []"
  shows "tap_ok cfg V E k (tp\<lparr>tp_stream := (tp_stream tp)\<lparr>ts_ips := ips\<rparr>, tp_max := cfg_max cfg k\<rparr>)"
    "holds cfg V E k (tp\<lparr>tp_stream := (tp_stream tp)\<lparr>ts_ips := ips\<rparr>, tp_max := cfg_max cfg k\<rparr>) = holds cfg V E k tp"
  using assms by (auto simp: tap_ok_def holds_def Let_def fun_eq_iff)

lemma tap_Open_keeps:
  assumes "tap_ok cfg V E k tp" "tp_pc tp = TIdle" "ips = cfg_ips cfg k \<or> ips = []"
  shows "keeps cfg V E k tp (tap_Open ips (cfg_max cfg k) tp)"
proof -
  let ?s = "(tp_stream tp)\<lparr>ts_ips := ips\<rparr>"
  let ?tp = "tp\<lparr>tp_stream := ?s, tp_max := cfg_max cfg k\<rparr>"
  note ip = ips_keeps [OF assms]
  show ?thesis
  proof (cases "ips = []")
    case True
    then have "tap_Open ips (cfg_max cfg k) tp = ?tp" by (simp add: tap_Open_def Let_def)
    then show ?thesis using ip by (simp add: keeps_def)
  next
    case False
    then have ips: "ips = cfg_ips cfg k" using assms(3) by simp
    show ?thesis
    proof (cases "ts_targetStatus ?s = ENABLED \<and> isIdentifierInRange 1 (int (cfg_max cfg k)) ?s")
      case True
      then have o: "tap_Open ips (cfg_max cfg k) tp = ?tp\<lparr>tp_pc := TRefresh\<rparr>"
        unfolding tap_Open_def Let_def if_not_P [OF False] by (rule if_P)
      have "tap_ok cfg V E k (?tp\<lparr>tp_pc := TRefresh\<rparr>)" using ip(1) ips True assms(2) by (simp add: tap_ok_def Let_def isIdentifierInRange_def)
      moreover have "holds cfg V E k (?tp\<lparr>tp_pc := TRefresh\<rparr>) i = holds cfg V E k ?tp i" for i using assms(2) by (simp add: holds_def)
      ultimately show ?thesis unfolding o keeps_def ip(2) [symmetric] by simp
    next
      case no: False
      then have o: "tap_Open ips (cfg_max cfg k) tp = tap_open ?tp"
        unfolding tap_Open_def Let_def if_not_P [OF False] by (rule if_not_P)
      have "keeps cfg V E k ?tp (tap_open ?tp)" using tap_open_keeps [OF ip(1)] assms(2) ips by simp
      then show ?thesis unfolding o keeps_def ip(2) .
    qed
  qed
qed

lemma tap_Close_keeps: "tap_ok cfg V E k tp \<Longrightarrow> tp_pc tp = TIdle \<Longrightarrow> keeps cfg V E k tp (tap_Close tp)"
  by (simp add: keeps_def tap_Close_def tap_ok_def holds_def Let_def) auto

lemma close_reset_keeps: "tap_ok cfg V E k tp \<Longrightarrow> tp_pc tp = TReset \<Longrightarrow> keeps cfg V E k tp (close_reset tp)"
  by (simp add: keeps_def close_reset_def tap_ok_def holds_def Let_def)

lemma crash_keeps: "tap_ok cfg V E k tp \<Longrightarrow> keeps cfg V E k tp (tp\<lparr>tp_pc := TDead\<rparr>)"
  by (simp add: keeps_def tap_ok_def holds_def Let_def) auto

lemma cfg_path: "cfg_ok cfg \<Longrightarrow> stream_path (as_ToNSP (cfg_stream cfg k)) = Some (tap_path cfg k)"
  unfolding cfg_ok_def tap_path_def by (metis option.collapse)

lemma setIdentifier_Some:
  "setIdentifier ids m draws s = Some s' \<Longrightarrow> \<exists>i. s' = s\<lparr>ts_identifier := i\<rparr> \<and> 1 \<le> i \<and> i \<le> int m"
  using set_identifier_Some unfolding setIdentifier_def by blast

lemma tap_ok_fields:
  assumes "tap_ok cfg V E k tp"
  shows "ts_Stream (tp_stream tp) = cfg_stream cfg k" "tp_max tp = cfg_max cfg k"
    "ts_ips (tp_stream tp) = cfg_ips cfg k \<or> ts_ips (tp_stream tp) = []"
    "tp_pc tp \<in> {TIdle, TClose, TReset, TDead} \<or> ts_ips (tp_stream tp) = cfg_ips cfg k"
  using assms unfolding tap_ok_def Let_def by blast+

lemma tap_ok_entry:
  assumes "tap_ok cfg V E k tp" "V (tap_key cfg k) \<noteq> None"
  shows "\<exists>j. 1 \<le> j \<and> j \<le> int (cfg_max cfg k) \<and> view_id V (tap_key cfg k) = Some (itoa j)"
  using assms unfolding tap_ok_def Let_def by simp

text \<open>What a call of a tap may do to its own entry and itself.\<close>

definition call_ok :: "('r \<Rightarrow> bool) \<Rightarrow> ('r \<Rightarrow> nsp_view) \<Rightarrow> tap_cfg \<Rightarrow> nat set \<Rightarrow> nat \<Rightarrow> tap \<Rightarrow> 'r \<Rightarrow> tap \<Rightarrow> 'r \<Rightarrow> bool" where
  "call_ok inv_r view cfg E k tp r tp' r' \<longleftrightarrow> inv_r r' \<and> (\<forall>\<kappa>. \<kappa> \<noteq> tap_key cfg k \<longrightarrow> view r' \<kappa> = view r \<kappa>) \<and>
     (let E' = (if tp_pc tp' = TEnable then E - {k} else E)
      in tap_ok cfg (view r') E' k tp' \<and> (\<forall>i. holds cfg (view r') E' k tp' i \<longrightarrow> holds cfg (view r) E k tp i \<or> unused cfg (view r) k i))"

lemma Collect_upd: "Collect (P(k := False)) = Collect P - {k}"
  by (auto split: if_splits)

text \<open>A timer removes the entry of a tap.\<close>

lemma expired_ok:
  assumes "tap_ok cfg V E k tp" "V' (tap_key cfg k) = None" "tp_pc tp \<notin> {TLoop, TEnable, TRefreshGet}" "k \<in> E'"
  shows "tap_ok cfg V' E' k tp"
  using assms by (simp add: tap_ok_def Let_def)

lemma protocol_expire:
  assumes "protocol_inv cfg V E taps" "\<And>\<kappa>. V' \<kappa> = V \<kappa> \<or> V' \<kappa> = None"
    "\<And>k. V (tap_key cfg k) \<noteq> None \<Longrightarrow> V' (tap_key cfg k) = None \<Longrightarrow> tp_pc (taps k) \<notin> {TLoop, TEnable, TRefreshGet}"
    "E' = E \<union> {k. V (tap_key cfg k) \<noteq> None \<and> V' (tap_key cfg k) = None}"
  shows "protocol_inv cfg V' E' taps"
proof -
  have same: "tap_ok cfg V' E' k (taps k) = tap_ok cfg V E k (taps k)" "holds cfg V' E' k (taps k) i = holds cfg V E k (taps k) i"
    if "V' (tap_key cfg k) = V (tap_key cfg k)" for k i
  proof -
    have "k \<in> E' \<longleftrightarrow> k \<in> E" using that assms(4) by auto
    note fr = tap_ok_frame [of V' cfg k V E' E, OF that this]
    show "tap_ok cfg V' E' k (taps k) = tap_ok cfg V E k (taps k)" "holds cfg V' E' k (taps k) i = holds cfg V E k (taps k) i"
      by (fact fr)+
  qed
  have "dom V' \<subseteq> range (tap_key cfg)" using assms(1,2) unfolding protocol_inv_def by (metis domIff subset_iff)
  moreover have "tap_ok cfg V' E' k (taps k)" for k
  proof (cases "V' (tap_key cfg k) = V (tap_key cfg k)")
    case True
    then show ?thesis using same(1) assms(1) by (simp add: protocol_inv_def)
  next
    case False
    then have "V' (tap_key cfg k) = None" "V (tap_key cfg k) \<noteq> None" using assms(2) [of "tap_key cfg k"] by auto
    then show ?thesis using expired_ok [where E = E and V = V] assms(1,3,4) by (simp add: protocol_inv_def)
  qed
  moreover have "holds cfg V' E' k (taps k) i \<Longrightarrow> holds cfg V E k (taps k) i" for k i
    using same(2) assms(2) [of "tap_key cfg k"] by (metis holds_def option.distinct(1) view_id_None)
  ultimately show ?thesis using assms(1) unfolding protocol_inv_def by blast
qed

text \<open>The targets of the taps can be registered and unregistered, also while a conduit has no addresses.\<close>

definition targets_ok :: "tap_cfg \<Rightarrow> (Target \<Rightarrow> bool) \<Rightarrow> (Target \<Rightarrow> bool) \<Rightarrow> bool" where
  "targets_ok cfg okr oku \<longleftrightarrow>
     (\<forall>k s. ts_Stream s = cfg_stream cfg k \<longrightarrow>
        (ts_ips s = cfg_ips cfg k \<longrightarrow> okr (tap_getTarget s)) \<and> (ts_ips s = cfg_ips cfg k \<or> ts_ips s = [] \<longrightarrow> oku (tap_getTarget s)))"

section \<open>The registry that taps rely on\<close>

text \<open>\<open>okr\<close> and \<open>oku\<close> are the targets that may be registered and unregistered.\<close>

locale tap_registry =
  fixes api :: "('r, 'x) nsp_api" and inv_r :: "'r \<Rightarrow> bool" and view :: "'r \<Rightarrow> nsp_view" and okr :: "Target \<Rightarrow> bool" and oku :: "Target \<Rightarrow> bool"
  assumes register_view: "inv_r r \<Longrightarrow> okr t \<Longrightarrow> inv_r (na_Register api t r) \<and>
      view (na_Register api t r) =
        (view r)(target_key t \<mapsto> (target_context t, if view r (target_key t) = None then DISABLED else target_status t))"
    and unregister_view: "inv_r r \<Longrightarrow> oku t \<Longrightarrow> inv_r (na_Unregister api t r) \<and> view (na_Unregister api t r) = (view r)(target_key t := None)"
    and get_view: "inv_r r \<Longrightarrow> stream_path (as_ToNSP s) = Some p \<Longrightarrow>
      (\<exists>u \<in> set (na_GetTargets api (tap_selector s) r). target_key u = \<kappa> \<and> target_context u = c \<and> target_status u = st) \<longleftrightarrow>
      view r \<kappa> = Some (c, st) \<and> fst (snd \<kappa>) = p \<and> snd (snd \<kappa>) = DEFAULT"
    and get_distinct: "inv_r r \<Longrightarrow> u \<in> set (na_GetTargets api (tap_selector s) r) \<Longrightarrow> distinct (target_ips u)"
    and expire_view: "inv_r r \<Longrightarrow> inv_r (na_expire api x r) \<and> (\<forall>\<kappa>. view (na_expire api x r) \<kappa> = view r \<kappa> \<or> view (na_expire api x r) \<kappa> = None)"
begin

lemma get_target:
  assumes "inv_r r" "cfg_ok cfg" "u \<in> set (na_GetTargets api (tap_selector (cfg_stream cfg k)) r)"
  shows "view r (target_key u) = Some (target_context u, target_status u)"
    "sameIps (target_ips u) (cfg_ips cfg j) \<Longrightarrow> tap_path cfg j = tap_path cfg k \<Longrightarrow> target_key u = tap_key cfg j"
proof -
  obtain p where p: "stream_path (as_ToNSP (cfg_stream cfg k)) = Some p" "tap_path cfg k = p" using cfg_path [OF assms(2)] by blast
  have g: "view r (target_key u) = Some (target_context u, target_status u) \<and> fst (snd (target_key u)) = p \<and> snd (snd (target_key u)) = DEFAULT"
    using get_view [OF assms(1) p(1), of "target_key u" "target_context u" "target_status u"] assms(3) by blast
  then show "view r (target_key u) = Some (target_context u, target_status u)" by simp
  assume "sameIps (target_ips u) (cfg_ips cfg j)" "tap_path cfg j = tap_path cfg k"
  moreover have "distinct (cfg_ips cfg j)" using assms(2) by (simp add: cfg_ok_def)
  ultimately show "target_key u = tap_key cfg j"
    using g p(2) sameIps_iff [OF get_distinct [OF assms(1,3)]] by (simp add: target_key_def tap_key_def)
qed

lemma get_entry:
  assumes "inv_r r" "cfg_ok cfg" "view r (tap_key cfg j) = Some (c, st)" "tap_path cfg j = tap_path cfg k"
  obtains u where "u \<in> set (na_GetTargets api (tap_selector (cfg_stream cfg k)) r)" "target_key u = tap_key cfg j"
    "target_context u = c" "target_status u = st" "sameIps (target_ips u) (cfg_ips cfg j)" "distinct (target_ips u)"
proof -
  obtain p where p: "stream_path (as_ToNSP (cfg_stream cfg k)) = Some p" "tap_path cfg k = p" using cfg_path [OF assms(2)] by blast
  obtain u where u: "u \<in> set (na_GetTargets api (tap_selector (cfg_stream cfg k)) r)" "target_key u = tap_key cfg j" "target_context u = c" "target_status u = st"
    using get_view [OF assms(1) p(1), of "tap_key cfg j" c st] assms(3,4) p(2) by (auto simp: tap_key_def)
  have d: "distinct (target_ips u)" using get_distinct [OF assms(1) u(1)] .
  moreover have "distinct (cfg_ips cfg j)" using assms(2) by (simp add: cfg_ok_def)
  ultimately have "sameIps (target_ips u) (cfg_ips cfg j)" using sameIps_iff u(2) by (simp add: target_key_def tap_key_def)
  then show ?thesis using that u d by blast
qed

lemma has_target_view: "inv_r r \<Longrightarrow> cfg_ok cfg \<Longrightarrow> has_target api cfg r k \<longleftrightarrow> view r (tap_key cfg k) \<noteq> None"
proof
  assume "inv_r r" "cfg_ok cfg" "has_target api cfg r k"
  then show "view r (tap_key cfg k) \<noteq> None" using get_target by (fastforce simp: has_target_def list_ex_iff)
next
  assume "inv_r r" "cfg_ok cfg" "view r (tap_key cfg k) \<noteq> None"
  then obtain c st where "view r (tap_key cfg k) = Some (c, st)" by auto
  from get_entry [OF \<open>inv_r r\<close> \<open>cfg_ok cfg\<close> this refl] show "has_target api cfg r k"
    by (auto simp: has_target_def list_ex_iff)
qed

lemma in_use_complete:
  assumes "inv_r r" "cfg_ok cfg" "ts_ips s = cfg_ips cfg k"
    "i \<notin> set (identifiers_in_use (na_GetTargets api (tap_selector (cfg_stream cfg k)) r) s)"
  shows "unused cfg (view r) k i"
  unfolding unused_def
proof (intro allI impI notI)
  fix j
  assume j: "j \<noteq> k" "tap_path cfg j = tap_path cfg k" "view_id (view r) (tap_key cfg j) = Some i"
  then obtain c st where v: "view r (tap_key cfg j) = Some (c, st)" "context_identifier c = i" by (auto simp: view_id_def)
  obtain u where u: "u \<in> set (na_GetTargets api (tap_selector (cfg_stream cfg k)) r)" "target_key u = tap_key cfg j" "target_context u = c"
    using get_entry [OF assms(1,2) v(1) j(2)] by blast
  have "tap_key cfg j \<noteq> tap_key cfg k" using assms(2) j(1) by (auto simp: cfg_ok_def dest: injD)
  then have "\<not> sameIps (target_ips u) (cfg_ips cfg k)" using get_target(2) [OF assms(1,2) u(1) _ refl] u(2) by auto
  then show False using assms(3,4) u v(2) by (auto simp: identifiers_in_use_def)
qed

lemma find_own:
  assumes "inv_r r" "cfg_ok cfg" "ts_ips s = cfg_ips cfg k" "ts = na_GetTargets api (tap_selector (cfg_stream cfg k)) r"
  shows "find (\<lambda>t. sameIps (ts_ips s) (target_ips t)) ts = Some t \<Longrightarrow> map_option snd (view r (tap_key cfg k)) = Some (target_status t)"
    "find (\<lambda>t. sameIps (ts_ips s) (target_ips t)) ts = None \<Longrightarrow> view r (tap_key cfg k) = None"
proof -
  have sym: "sameIps (target_ips u) (cfg_ips cfg k) \<longleftrightarrow> sameIps (cfg_ips cfg k) (target_ips u)" if "u \<in> set ts" for u
    using sameIps_iff get_distinct [OF assms(1)] that assms(2) unfolding assms(4) cfg_ok_def by metis
  show "map_option snd (view r (tap_key cfg k)) = Some (target_status t)" if "find (\<lambda>t. sameIps (ts_ips s) (target_ips t)) ts = Some t"
  proof -
    have t: "t \<in> set ts" "sameIps (cfg_ips cfg k) (target_ips t)" using that assms(3) by (auto simp: find_Some_iff)
    then have "target_key t = tap_key cfg k" using get_target(2) [OF assms(1,2) t(1) [unfolded assms(4)] _ refl] sym by blast
    then show ?thesis using get_target(1) [OF assms(1,2) t(1) [unfolded assms(4)]] by simp
  qed
  show "view r (tap_key cfg k) = None" if "find (\<lambda>t. sameIps (ts_ips s) (target_ips t)) ts = None"
  proof (rule ccontr)
    assume "view r (tap_key cfg k) \<noteq> None"
    then obtain c st where "view r (tap_key cfg k) = Some (c, st)" by auto
    from get_entry [OF assms(1,2) this refl] obtain u where "u \<in> set ts" "sameIps (target_ips u) (cfg_ips cfg k)"
      unfolding assms(4) by blast
    then show False using that sym assms(3) by (auto simp: find_None_iff)
  qed
qed

text \<open>The effect of registering and unregistering the own target.\<close>

lemma register_own:
  assumes "inv_r r" "ts_Stream (tp_stream tp) = cfg_stream cfg k" "ts_ips (tp_stream tp) = cfg_ips cfg k" "okr (tap_getTarget (tp_stream tp))"
  shows "inv_r (na_Register api (tap_getTarget (tp_stream tp)) r)"
    "view (na_Register api (tap_getTarget (tp_stream tp)) r) = registered_view cfg (view r) k tp"
proof -
  have "target_key (tap_getTarget (tp_stream tp)) = tap_key cfg k"
    using tap_key_target [OF assms(2)] assms(3) by (simp add: tap_key_def)
  note r = register_view [OF assms(1,4), unfolded this]
  from r show "inv_r (na_Register api (tap_getTarget (tp_stream tp)) r)" by simp
  from r show "view (na_Register api (tap_getTarget (tp_stream tp)) r) = registered_view cfg (view r) k tp"
    by (simp add: stored_entry_def tap_getTarget_def)
qed

lemma unregister_own:
  assumes "inv_r r" "cfg_ok cfg" "dom (view r) \<subseteq> range (tap_key cfg)" "ts_Stream (tp_stream tp) = cfg_stream cfg k"
    "ts_ips (tp_stream tp) = cfg_ips cfg k \<or> ts_ips (tp_stream tp) = []" "oku (tap_getTarget (tp_stream tp))"
  defines "r' \<equiv> na_Unregister api (tap_getTarget (tp_stream tp)) r"
  shows "inv_r r'" "\<kappa> \<noteq> tap_key cfg k \<Longrightarrow> view r' \<kappa> = view r \<kappa>" "view r' (tap_key cfg k) = view r (tap_key cfg k) \<or> view r' (tap_key cfg k) = None"
proof -
  note u = unregister_view [OF assms(1,6), folded r'_def]
  have "target_key (tap_getTarget (tp_stream tp)) = tap_key cfg k \<or> view r (target_key (tap_getTarget (tp_stream tp))) = None"
  proof (cases "ts_ips (tp_stream tp) = cfg_ips cfg k")
    case True
    then show ?thesis using tap_key_target [OF assms(4)] by (simp add: tap_key_def)
  next
    case False
    then have "fst (target_key (tap_getTarget (tp_stream tp))) = {}" using tap_key_target [OF assms(4)] assms(5) by simp
    moreover have "fst (tap_key cfg j) \<noteq> {}" for j using assms(2) by (simp add: tap_key_def cfg_ok_def)
    ultimately show ?thesis using assms(3) by (metis domIff imageE subsetD)
  qed
  then have "view r' = (view r)(tap_key cfg k := None) \<or> view r' = view r" using u by (metis fun_upd_triv)
  then show "\<kappa> \<noteq> tap_key cfg k \<Longrightarrow> view r' \<kappa> = view r \<kappa>" "view r' (tap_key cfg k) = view r (tap_key cfg k) \<or> view r' (tap_key cfg k) = None"
    by auto
  from u show "inv_r r'" by simp
qed

lemma keeps_call: "inv_r r \<Longrightarrow> keeps cfg (view r) E k tp tp' \<Longrightarrow> tp_pc tp' \<noteq> TEnable \<Longrightarrow> call_ok inv_r view cfg E k tp r tp' r"
  by (simp add: call_ok_def keeps_def)

lemma disabled_call:
  assumes "inv_r r" "tap_ok cfg (view r) E k tp" "tp_pc tp = TRegister \<or> tp_pc tp = TReregister" "okr (tap_getTarget (tp_stream tp))"
  shows "call_ok inv_r view cfg E k tp r (if out \<noteq> Done then tp\<lparr>tp_pc := TIdle\<rparr> else tp\<lparr>tp_pc := TLoop\<rparr>) (tap_call out (na_Register api (tap_getTarget (tp_stream tp))) r)"
proof -
  have s: "ts_Stream (tp_stream tp) = cfg_stream cfg k" "ts_ips (tp_stream tp) = cfg_ips cfg k" using tap_ok_fields [OF assms(2)] assms(3) by auto
  note r = register_own [OF assms(1) s assms(4)] and d = register_disabled [OF assms(2,3)]
  have f: "call_ok inv_r view cfg E k tp r (tp\<lparr>tp_pc := TIdle\<rparr>) r" using keeps_call [OF assms(1) fail_keeps [OF assms(2)]] assms(3) by auto
  show ?thesis using f d r by (cases out) (simp_all add: tap_call_def call_ok_def)
qed

lemma enabled_call:
  assumes "inv_r r" "tap_ok cfg (view r) E k tp" "tp_pc tp = TEnable \<or> tp_pc tp = TRefresh" "okr (tap_getTarget (tp_stream tp))"
    "k \<notin> E" "tp' = tp\<lparr>tp_pc := TIdle\<rparr> \<or> tp' = tp\<lparr>tp_pc := TRefreshGet\<rparr> \<and> out = Done"
  shows "call_ok inv_r view cfg E k tp r tp' (tap_call out (na_Register api (tap_getTarget (tp_stream tp))) r)"
proof -
  have s: "ts_Stream (tp_stream tp) = cfg_stream cfg k" "ts_ips (tp_stream tp) = cfg_ips cfg k" using tap_ok_fields [OF assms(2)] assms(3) by auto
  note r = register_own [OF assms(1) s assms(4)] and d = register_enabled [OF assms(2,3,5)]
  have f: "call_ok inv_r view cfg E k tp r (tp\<lparr>tp_pc := TIdle\<rparr>) r" using keeps_call [OF assms(1) fail_keeps [OF assms(2)]] assms(3) by auto
  have c: "call_ok inv_r view cfg E k tp r tp' (na_Register api (tap_getTarget (tp_stream tp)) r)" using assms(6) d r by (auto simp: call_ok_def)
  show ?thesis using assms(6) f c by (cases out) (auto simp: tap_call_def)
qed

lemma expired_call:
  assumes "inv_r r" "tap_ok cfg (view r) E k tp" "tp_pc tp = TRefresh" "okr (tap_getTarget (tp_stream tp))" "k \<in> E"
  shows "call_ok inv_r view cfg E k tp r (tp\<lparr>tp_pc := TRefreshGet\<rparr>) (na_Register api (tap_getTarget (tp_stream tp)) r)"
proof -
  have s: "ts_Stream (tp_stream tp) = cfg_stream cfg k" "ts_ips (tp_stream tp) = cfg_ips cfg k" using tap_ok_fields [OF assms(2)] assms(3) by auto
  note r = register_own [OF assms(1) s assms(4)] and d = register_expired [OF assms(2,3,5)]
  show ?thesis using r d by (simp add: call_ok_def)
qed

lemma unregister_call:
  assumes "inv_r r" "cfg_ok cfg" "dom (view r) \<subseteq> range (tap_key cfg)" "tap_ok cfg (view r) E k tp" "oku (tap_getTarget (tp_stream tp))"
    "tp_pc tp = TUnregFull \<and> tp' = tp\<lparr>tp_pc := TIdle\<rparr> \<or> tp_pc tp = TClose \<and> tp' = tp\<lparr>tp_pc := TReset\<rparr> \<or>
     tp_pc tp = TUnregister ids \<and> tp' = tp\<lparr>tp_stream := (tp_stream tp)\<lparr>ts_identifier := i\<rparr>, tp_pc := TReregister\<rparr> \<and> 1 \<le> i \<and> i \<le> int (cfg_max cfg k)"
  shows "call_ok inv_r view cfg E k tp r tp' (tap_call out (na_Unregister api (tap_getTarget (tp_stream tp))) r)"
proof -
  have s: "ts_Stream (tp_stream tp) = cfg_stream cfg k" "ts_ips (tp_stream tp) = cfg_ips cfg k \<or> ts_ips (tp_stream tp) = []"
    using tap_ok_fields [OF assms(4)] by auto
  let ?r = "tap_call out (na_Unregister api (tap_getTarget (tp_stream tp))) r"
  note u = unregister_own [OF assms(1-3) s assms(5)]
  have r: "inv_r ?r" "\<forall>\<kappa>. \<kappa> \<noteq> tap_key cfg k \<longrightarrow> view ?r \<kappa> = view r \<kappa>" "view ?r (tap_key cfg k) = view r (tap_key cfg k) \<or> view ?r (tap_key cfg k) = None"
    using u assms(1) by (cases out; simp add: tap_call_def)+
  note o = unregister_ok [where V' = "view ?r", OF assms(4) r(3)]
  have "tp' = tp\<lparr>tp_stream := tp_stream tp', tp_pc := tp_pc tp'\<rparr>" "ts_targetStatus (tp_stream tp') = ts_targetStatus (tp_stream tp)" "tp_pc tp \<noteq> TDead" "tp_pc tp' \<noteq> TEnable"
    using assms(6) by (elim disjE; simp)+
  moreover have "tap_ok cfg (view ?r) E k tp'" using o(1-3) assms(6) by blast
  ultimately show ?thesis using r(1,2) o(4) [of "tp_stream tp'" "tp_pc tp'"] unfolding call_ok_def Let_def by simp
qed

lemma next_call:
  assumes "inv_r r" "cfg_ok cfg" "dom (view r) \<subseteq> range (tap_key cfg)" "tap_ok cfg (view r) E k tp" "tap_next api out draws tp r = Some (tp', r')"
    "tp_pc tp \<in> {TRefresh, TRefreshGet} \<and> k \<in> E \<longrightarrow> out = Done"
    "ts_ips (tp_stream tp) = cfg_ips cfg k \<Longrightarrow> okr (tap_getTarget (tp_stream tp))" "oku (tap_getTarget (tp_stream tp))"
  shows "call_ok inv_r view cfg E k tp r tp' r'"
proof -
  have s: "ts_Stream (tp_stream tp) = cfg_stream cfg k" "tp_max tp = cfg_max cfg k"
    "tp_pc tp \<in> {TIdle, TClose, TReset, TDead} \<or> ts_ips (tp_stream tp) = cfg_ips cfg k"
    using tap_ok_fields [OF assms(4)] by auto
  let ?ts = "na_GetTargets api (tap_selector (cfg_stream cfg k)) r"
  note failed = keeps_call [OF assms(1) fail_keeps [OF assms(4)]]
  show ?thesis
  proof (cases "tp_pc tp")
    case TGet
    then have "r' = r" "out \<noteq> Done \<and> tp' = tp\<lparr>tp_pc := TIdle\<rparr> \<or> after_get (identifiers_in_use ?ts (tp_stream tp)) draws tp = Some tp'"
      using assms(5) s(1) by (auto simp: tap_next_def Let_def split: if_splits)
    moreover have "tp_pc tp' \<noteq> TEnable" if "after_get ids draws tp = Some tp'" for ids
      using that by (auto simp: after_get_def split: if_splits)
    ultimately show ?thesis using failed TGet keeps_call [OF assms(1) after_get_keeps [OF assms(4) TGet]] by auto
  next
    case TRegister
    then show ?thesis using disabled_call [OF assms(1,4) _ assms(7)] s(3) assms(5) by (auto simp: tap_next_def Let_def)
  next
    case TReregister
    then show ?thesis using disabled_call [OF assms(1,4) _ assms(7)] s(3) assms(5) by (auto simp: tap_next_def Let_def)
  next
    case TLoop
    let ?ids = "identifiers_in_use ?ts (tp_stream tp)"
    have r: "r' = r" "out \<noteq> Done \<and> tp' = tp\<lparr>tp_pc := TIdle\<rparr> \<or> tp' = after_loop ?ids tp"
      using assms(5) s(1) TLoop by (auto simp: tap_next_def Let_def split: if_splits)
    have u: "i \<notin> set ?ids \<Longrightarrow> unused cfg (view r) k i" for i using in_use_complete [OF assms(1,2)] s(3) TLoop by simp
    have "call_ok inv_r view cfg E k tp r tp' r" if "tp' = after_loop ?ids tp"
      unfolding call_ok_def Let_def using after_loop_keeps [OF assms(4) TLoop that u] assms(1) by blast
    then show ?thesis using r failed TLoop by auto
  next
    case TUnregFull
    then show ?thesis using unregister_call [OF assms(1-4,8)] assms(5) by (auto simp: tap_next_def Let_def)
  next
    case TClose
    then show ?thesis using unregister_call [OF assms(1-4,8)] assms(5) by (auto simp: tap_next_def Let_def)
  next
    case (TUnregister ids)
    then obtain i where "tp' = tp\<lparr>tp_stream := (tp_stream tp)\<lparr>ts_identifier := i\<rparr>, tp_pc := TReregister\<rparr>" "1 \<le> i" "i \<le> int (cfg_max cfg k)"
        "r' = tap_call out (na_Unregister api (tap_getTarget (tp_stream tp))) r"
      using assms(5) s(2) setIdentifier_Some [of ids "cfg_max cfg k" draws "tp_stream tp"] by (auto simp: tap_next_def Let_def)
    then show ?thesis using unregister_call [OF assms(1-4,8)] TUnregister by blast
  next
    case TEnable
    then have "k \<notin> E" using assms(4) by (simp add: tap_ok_def Let_def)
    then show ?thesis using enabled_call [OF assms(1,4) _ assms(7)] TEnable s(3) assms(5) by (auto simp: tap_next_def Let_def)
  next
    case TRefresh
    show ?thesis
    proof (cases "k \<in> E")
      case True
      then show ?thesis using expired_call [OF assms(1,4) TRefresh assms(7)] TRefresh s(3) assms(5,6) by (auto simp: tap_next_def Let_def tap_call_def)
    next
      case False
      then show ?thesis using enabled_call [OF assms(1,4) _ assms(7) False] TRefresh s(3) assms(5) by (auto simp: tap_next_def Let_def split: if_splits)
    qed
  next
    case TRefreshGet
    have r: "r' = r" "out \<noteq> Done \<and> tp' = tp\<lparr>tp_pc := TIdle\<rparr> \<or> tp' = after_refresh ?ts tp"
      using assms(5) s(1) TRefreshGet by (auto simp: tap_next_def Let_def split: if_splits)
    have "ts_ips (tp_stream tp) = cfg_ips cfg k" using s(3) TRefreshGet by simp
    note k = after_refresh_keeps [OF assms(4) TRefreshGet find_own [OF assms(1,2) this refl]]
    have "tp_pc (after_refresh ?ts tp) \<noteq> TEnable" by (auto simp: after_refresh_def tap_open_def split: option.split)
    then show ?thesis using r failed TRefreshGet assms(6) keeps_call [OF assms(1) k] by auto
  next
    case TReset
    then show ?thesis using keeps_call [OF assms(1) close_reset_keeps [OF assms(4) TReset]] assms(5) by (auto simp: tap_next_def Let_def close_reset_def)
  qed (use assms(5) in \<open>simp_all add: tap_next_def Let_def\<close>)
qed

text \<open>The invariant of the taps and the registry, and that every action keeps it.\<close>

lemma own_step:
  assumes "cfg_ok cfg" "protocol_inv cfg (view r) E taps" "call_ok inv_r view cfg E k (taps k) r tp r'"
  shows "inv_r r' \<and> protocol_inv cfg (view r') (if tp_pc tp = TEnable then E - {k} else E) (taps(k := tp))"
proof -
  have "inj (tap_key cfg)" using assms(1) by (simp add: cfg_ok_def)
  from protocol_step [OF assms(2) this, of k "view r'" "if tp_pc tp = TEnable then E - {k} else E" tp] assms(3)
  show ?thesis by (auto simp: call_ok_def Let_def)
qed

lemma local_step:
  assumes "inv_r (sys_nsp s)" "cfg_ok cfg" "protocol_inv cfg (view (sys_nsp s)) (Collect (sys_expired s)) (sys_taps s)"
    "keeps cfg (view (sys_nsp s)) (Collect (sys_expired s)) k (sys_taps s k) tp" "tp_pc tp \<noteq> TEnable"
  shows "inv_r (sys_nsp (set_tap k tp s)) \<and> protocol_inv cfg (view (sys_nsp (set_tap k tp s))) (Collect (sys_expired (set_tap k tp s))) (sys_taps (set_tap k tp s))"
  using own_step [OF assms(2,3) keeps_call [OF assms(1,4,5)]] assms(5) by (simp add: set_tap_def)

lemma act_keeps:
  assumes "inv_r (sys_nsp s)" "cfg_ok cfg" "protocol_inv cfg (view (sys_nsp s)) (Collect (sys_expired s)) (sys_taps s)" "targets_ok cfg okr oku"
    "timely api cfg a s" "tap_do api cfg a s = Some s'"
  shows "inv_r (sys_nsp s') \<and> protocol_inv cfg (view (sys_nsp s')) (Collect (sys_expired s')) (sys_taps s')"
proof -
  have ok: "tap_ok cfg (view (sys_nsp s)) (Collect (sys_expired s)) k (sys_taps s k)" for k using assms(3) by (simp add: protocol_inv_def)
  note loc = local_step [OF assms(1-3)]
  show ?thesis
  proof (cases a)
    case (AOpen k ready)
    then have i: "tp_pc (sys_taps s k) = TIdle" and e: "s' = set_tap k (tap_Open (if ready then cfg_ips cfg k else []) (cfg_max cfg k) (sys_taps s k)) s"
      using assms(6) by (simp_all split: if_splits)
    have "tp_pc (tap_Open ips m (sys_taps s k)) \<noteq> TEnable" for ips m using i by (simp add: tap_Open_def tap_open_def Let_def)
    then show ?thesis unfolding e using loc [OF tap_Open_keeps [OF ok i]] by simp
  next
    case (AClose k)
    then have i: "tp_pc (sys_taps s k) = TIdle" and e: "s' = set_tap k (tap_Close (sys_taps s k)) s" using assms(6) by (simp_all split: if_splits)
    show ?thesis unfolding e using loc [OF tap_Close_keeps [OF ok i]] by (simp add: tap_Close_def)
  next
    case (ANext k out draws)
    then obtain tp r where n: "tap_next api out draws (sys_taps s k) (sys_nsp s) = Some (tp, r)"
        "s' = (set_tap k tp s)\<lparr>sys_nsp := r, sys_expired := (if tp_pc tp = TEnable then (sys_expired s)(k := False) else sys_expired s)\<rparr>"
      using assms(6) by (auto split: if_splits)
    have d: "dom (view (sys_nsp s)) \<subseteq> range (tap_key cfg)" using assms(3) by (simp add: protocol_inv_def)
    have "call_ok inv_r view cfg (Collect (sys_expired s)) k (sys_taps s k) (sys_nsp s) tp r"
      by (rule next_call [OF assms(1,2) d ok n(1)])
        (use assms(4,5) ANext tap_ok_fields [OF ok [of k]] in \<open>auto simp: targets_ok_def\<close>)
    from own_step [OF assms(2,3) this] show ?thesis unfolding n(2) by (simp add: set_tap_def Collect_upd split: if_splits)
  next
    case (ACancel k)
    then have i: "tp_pc (sys_taps s k) = TLoop" and e: "s' = set_tap k ((sys_taps s k)\<lparr>tp_pc := TIdle\<rparr>) s" using assms(6) by (simp_all split: if_splits)
    show ?thesis unfolding e using loc [OF fail_keeps [OF ok]] i by simp
  next
    case (ACrash k)
    then show ?thesis using assms(6) loc [OF crash_keeps [OF ok]] by auto
  next
    case (AExpire x)
    let ?r = "na_expire api x (sys_nsp s)"
    note x = expire_view [OF assms(1), of x]
    have h: "has_target api cfg (sys_nsp s) k \<longleftrightarrow> view (sys_nsp s) (tap_key cfg k) \<noteq> None" "has_target api cfg ?r k \<longleftrightarrow> view ?r (tap_key cfg k) \<noteq> None" for k
      using has_target_view assms(1,2) x by blast+
    have "protocol_inv cfg (view ?r) (Collect (sys_expired s) \<union> {k. view (sys_nsp s) (tap_key cfg k) \<noteq> None \<and> view ?r (tap_key cfg k) = None}) (sys_taps s)"
    proof (rule protocol_expire [OF assms(3)])
      show "view ?r \<kappa> = view (sys_nsp s) \<kappa> \<or> view ?r \<kappa> = None" for \<kappa> by (rule spec [OF conjunct2 [OF x]])
      show "tp_pc (sys_taps s k) \<notin> {TLoop, TEnable, TRefreshGet}" if "view (sys_nsp s) (tap_key cfg k) \<noteq> None" "view ?r (tap_key cfg k) = None" for k
        using assms(5) that unfolding AExpire by (simp add: h)
    qed simp
    moreover have "s' = s\<lparr>sys_nsp := ?r, sys_expired := (\<lambda>k. sys_expired s k \<or> (view (sys_nsp s) (tap_key cfg k) \<noteq> None \<and> view ?r (tap_key cfg k) = None))\<rparr>"
      using assms(6) unfolding AExpire tap_do.simps h Let_def not_not by simp
    ultimately show ?thesis using conjunct1 [OF x] by (simp add: Collect_disj_eq)
  qed
qed

lemma reach_keeps:
  assumes "tap_reach api cfg r0 s" "inv_r r0" "view r0 = Map.empty" "cfg_ok cfg" "targets_ok cfg okr oku"
  shows "inv_r (sys_nsp s) \<and> protocol_inv cfg (view (sys_nsp s)) (Collect (sys_expired s)) (sys_taps s)"
  using assms(1)
proof (induction rule: tap_reach.induct)
  case start
  have "tap_ok cfg Map.empty {} k \<lparr>tp_stream = tap_New (cfg_stream cfg k), tp_max = cfg_max cfg k, tp_pc = TIdle\<rparr>" for k
    by (simp add: tap_ok_def tap_New_def Let_def)
  moreover have "\<not> holds cfg Map.empty {} k tp i" for k tp i by (simp add: holds_def view_id_def)
  ultimately show ?case using assms(2,3) by (simp add: tap_init_def protocol_inv_def)
next
  case (step s a s')
  then show ?case using act_keeps assms(4,5) by blast
qed

text \<open>Two enabled entries of one stream have different identifiers, between 1 and the number of targets.\<close>

lemma enabled_unique:
  assumes "tap_reach api cfg r0 s" "inv_r r0" "view r0 = Map.empty" "cfg_ok cfg" "targets_ok cfg okr oku"
    "view (sys_nsp s) \<kappa> = Some (c, ENABLED)" "view (sys_nsp s) \<kappa>' = Some (c', ENABLED)" "fst (snd \<kappa>) = fst (snd \<kappa>')" "\<kappa> \<noteq> \<kappa>'"
  shows "context_identifier c \<noteq> context_identifier c'"
proof
  assume eq: "context_identifier c = context_identifier c'"
  have inv: "protocol_inv cfg (view (sys_nsp s)) (Collect (sys_expired s)) (sys_taps s)" using reach_keeps [OF assms(1-5)] by blast
  obtain k j where k: "\<kappa> = tap_key cfg k" "\<kappa>' = tap_key cfg j" using inv assms(6,7) unfolding protocol_inv_def by blast
  have "holds cfg (view (sys_nsp s)) (Collect (sys_expired s)) k (sys_taps s k) (context_identifier c)"
    "holds cfg (view (sys_nsp s)) (Collect (sys_expired s)) j (sys_taps s j) (context_identifier c)"
    using assms(6,7) eq k by (simp_all add: holds_def view_id_def)
  moreover have "tap_path cfg k = tap_path cfg j" using assms(8) k by (simp add: tap_key_def)
  ultimately have "k = j" using inv unfolding protocol_inv_def by blast
  then show False using k assms(9) by simp
qed

lemma identifier_bounds:
  assumes "tap_reach api cfg r0 s" "inv_r r0" "view r0 = Map.empty" "cfg_ok cfg" "targets_ok cfg okr oku"
    "view (sys_nsp s) \<kappa> = Some (c, st)"
  shows "\<exists>k i. \<kappa> = tap_key cfg k \<and> context_identifier c = itoa i \<and> 1 \<le> i \<and> i \<le> int (cfg_max cfg k)"
proof -
  have inv: "protocol_inv cfg (view (sys_nsp s)) (Collect (sys_expired s)) (sys_taps s)" using reach_keeps [OF assms(1-5)] by blast
  obtain k where k: "\<kappa> = tap_key cfg k" using inv assms(6) unfolding protocol_inv_def by blast
  then have "tap_ok cfg (view (sys_nsp s)) (Collect (sys_expired s)) k (sys_taps s k)" "view (sys_nsp s) (tap_key cfg k) \<noteq> None"
    using inv assms(6) by (simp_all add: protocol_inv_def)
  then obtain i where "1 \<le> i" "i \<le> int (cfg_max cfg k)" "view_id (view (sys_nsp s)) (tap_key cfg k) = Some (itoa i)"
    using tap_ok_entry by blast
  then show ?thesis using k assms(6) by (auto simp: view_id_def)
qed

end

end
