(* ===== verification/TapRegistry.thy ===== *)
theory TapRegistry
  imports TapProtocol
begin

text \<open>
  The taps over the registry they are deployed with: the server of the NSP, the middleware of \<open>KeepAlive\<close> and the registry in memory
  provide the interface \<open>tap_registry\<close>. The properties of the protocol: identifiers in use are unique and within the stream's
  limit in every timely run, and a run that is not timely after which two enabled targets have the same identifier.
\<close>

section \<open>Definitions\<close>

definition ka_server :: "(TargetRegistryMemory KeepAlive, nat) nsp_api" where
  "ka_server = \<lparr>na_Register = (\<lambda>t ka. snd (nsp_Register (ka_Set memory_api) t ka)),
     na_Unregister = (\<lambda>t ka. snd (nsp_Unregister (ka_Remove memory_api) t ka)),
     na_GetTargets = (\<lambda>t ka. case ka_Get memory_api t ka of Inl _ \<Rightarrow> [] | Inr ts \<Rightarrow> ts),
     na_expire = (\<lambda>ctx ka. case find (\<lambda>(c, t). c = ctx) (ka_timers ka) of
        None \<Rightarrow> ka
      | Some (c, t) \<Rightarrow> snd (ka_timeout memory_api c t ka))\<rparr>"

subsection \<open>Vocabulary of the specification\<close>

definition ka_view :: "TargetRegistryMemory KeepAlive \<Rightarrow> nsp_view" where
  "ka_view ka = (case ka_TargetRegistry ka of None \<Rightarrow> Map.empty | Some trm \<Rightarrow> registry_abs trm)"

text \<open>Targets whose addresses come in one order: the middleware tells targets apart by the order of their addresses, the registry does not.\<close>

definition canon_target :: "(string set \<Rightarrow> string list) \<Rightarrow> Target \<Rightarrow> bool" where
  "canon_target canon t \<longleftrightarrow> plain_target t \<and> [] \<notin> set (target_ips t) \<and> target_ips t = canon (set (target_ips t))"

definition canon_unregister :: "(string set \<Rightarrow> string list) \<Rightarrow> Target \<Rightarrow> bool" where
  "canon_unregister canon t \<longleftrightarrow> canon_target canon t \<or> (wf_target t \<and> target_ips t = [])"

definition same_monitored :: "(string set \<Rightarrow> string list) \<Rightarrow> (string \<rightharpoonup> nat \<times> Target) \<Rightarrow> nsp_view \<Rightarrow> bool" where
  "same_monitored canon ms V \<longleftrightarrow> (\<forall>t. canon_target canon t \<longrightarrow> (ms (GetTargetID t) = None \<longleftrightarrow> V (target_key t) = None))"

definition ka_ok :: "(string set \<Rightarrow> string list) \<Rightarrow> TargetRegistryMemory KeepAlive \<Rightarrow> bool" where
  "ka_ok canon ka \<longleftrightarrow> (\<exists>trm. ka_TargetRegistry ka = Some trm \<and> registry_inv trm) \<and> (\<forall>\<kappa> \<in> dom (ka_view ka). fst \<kappa> \<noteq> {}) \<and>
     same_monitored canon (ka_targets ka) (ka_view ka) \<and> (\<forall>(c, t) \<in> set (ka_timers ka). canon_target canon t)"

text \<open>Taps with names without dots and addresses in the form the middleware can tell apart, one order for each set of addresses.\<close>

definition plain_taps :: "tap_cfg \<Rightarrow> bool" where
  "plain_taps cfg \<longleftrightarrow>
     (\<forall>k. let t = tap_selector (cfg_stream cfg k)
          in CHR ''.'' \<notin> set (getTargetStream t) \<and> CHR ''.'' \<notin> set (getTargetConduit t) \<and> CHR ''.'' \<notin> set (getTargetTrench t) \<and>
          (\<forall>ip \<in> set (cfg_ips cfg k). ip \<noteq> [] \<and> CHR '';'' \<notin> set ip \<and> CHR ''-'' \<notin> set ip)) \<and>
     inj_on set (range (cfg_ips cfg))"

subsection \<open>Examples\<close>

text \<open>Taps of one stream for two targets, the tap \<open>k\<close> with the address \<open>10.0.0.k\<close>.\<close>

definition ex_ip :: "nat \<Rightarrow> string" where
  "ex_ip k = ''10.0.0.'' @ itoa (int k) @ ''/32''"

definition ex_stream :: a_Stream where
  "ex_stream = \<lparr>as_name = ''s'', as_conduit = Some \<lparr>ac_name = ''c'', ac_trench = Some \<lparr>at_name = ''t''\<rparr>\<rparr>\<rparr>"

definition ex_taps :: tap_cfg where
  "ex_taps = \<lparr>cfg_stream = (\<lambda>k. ex_stream), cfg_ips = (\<lambda>k. [ex_ip k]), cfg_max = (\<lambda>k. 2)\<rparr>"

text \<open>A tap opens the stream, draws an identifier and enables its target.\<close>

definition ex_opens :: "nat \<Rightarrow> nat \<Rightarrow> nat tap_act list" where
  "ex_opens k d = [AOpen k True, ANext k Done [d], ANext k Done [], ANext k Done [], ANext k Done []]"

text \<open>The target of tap 0 expires and tap 1 takes its identifier. Tap 0 registers its target again, but the call that reads the
  targets fails; it repeats the registration.\<close>

definition ex_late :: "nat tap_act list" where
  "ex_late = ex_opens 0 0 @ [AExpire 1] @ ex_opens 1 0 @
     [AOpen 0 True, ANext 0 Done [], ANext 0 Lost [], AOpen 0 True, ANext 0 Done []]"

definition listed :: "TargetRegistryMemory KeepAlive tap_sys \<Rightarrow> Target list option" where
  "listed s = map_option trm_targets (ka_TargetRegistry (sys_nsp s))"

text \<open>The target that a tap of the example registers.\<close>

definition ex_entry :: "nat \<Rightarrow> int \<Rightarrow> TargetStatus \<Rightarrow> Target" where
  "ex_entry k i st = tap_getTarget \<lparr>ts_Stream = ex_stream, ts_identifier = i, ts_targetStatus = st, ts_ips = [ex_ip k]\<rparr>"

section \<open>Lemmas: keys and identifiers\<close>

lemma canon_key_id:
  assumes "canon_target canon t" "canon_target canon u"
  shows "target_key t = target_key u \<longleftrightarrow> GetTargetID t = GetTargetID u"
proof
  assume eq: "target_key t = target_key u"
  have p: "stream_path (the (target_stream x)) = Some (getTargetStream x, getTargetConduit x, getTargetTrench x)" if "plain_target x" for x
    using that by (auto simp: plain_target_def wf_target_def stream_path_def getTargetStream_def getTargetConduit_def getTargetTrench_def split: option.splits if_splits)
  have "target_ips t = target_ips u" using eq assms by (metis canon_target_def prod.inject target_key_def)
  moreover have "target_type t = target_type u" using eq by (simp add: target_key_def)
  ultimately show "GetTargetID t = GetTargetID u"
    using eq p [of t] p [of u] assms by (simp add: canon_target_def target_key_def GetTargetID_def)
next
  assume "GetTargetID t = GetTargetID u"
  then show "target_key t = target_key u" using plain_key assms by (simp add: canon_target_def)
qed

lemma canon_no_ips:
  assumes "canon_target canon t" "target_ips u = []"
  shows "GetTargetID t \<noteq> GetTargetID u"
proof -
  obtain ip ips where i: "target_ips t = ip # ips" "ip \<noteq> []" "CHR ''-'' \<notin> set ip"
    using assms(1) by (cases "target_ips t") (auto simp: canon_target_def plain_target_def)
  then have "hd (GetTargetID t) = hd ip" by (cases ips) (simp_all add: GetTargetID_def SerializeIPs_def)
  moreover have "hd (GetTargetID u) = CHR ''-''" using assms(2) by (simp add: GetTargetID_def SerializeIPs_def)
  ultimately show ?thesis using i by (metis hd_in_set)
qed

lemma canon_update [simp]:
  "canon_target canon (t\<lparr>target_status := s\<rparr>) = canon_target canon t"
  by (simp add: canon_target_def)

lemma target_key_status [simp]: "target_key (t\<lparr>target_status := s\<rparr>) = target_key t"
  by (simp add: target_key_def)

lemma wf_status [simp]: "wf_target (t\<lparr>target_status := s\<rparr>) = wf_target t"
  by (simp add: wf_target_def)

lemma same_monitored_add:
  assumes "same_monitored canon ms V" "canon_target canon t"
  shows "same_monitored canon (ms(GetTargetID t \<mapsto> e)) (V(target_key t \<mapsto> f))"
  using assms canon_key_id [OF _ assms(2)] by (simp add: same_monitored_def)

lemma same_monitored_delete:
  assumes "same_monitored canon ms V" "canon_unregister canon t" "\<forall>\<kappa> \<in> dom V. fst \<kappa> \<noteq> {}"
  shows "same_monitored canon (ms(GetTargetID t := None)) (V(target_key t := None))"
proof (cases "canon_target canon t")
  case True
  then show ?thesis using assms(1) canon_key_id [OF _ True] by (simp add: same_monitored_def)
next
  case False
  then have e: "target_ips t = []" using assms(2) by (simp add: canon_unregister_def)
  then have "V (target_key t) = None" using assms(3) by (force simp: target_key_def)
  then have "V(target_key t := None) = V" by (rule fun_upd_idem)
  then show ?thesis using assms(1) canon_no_ips [OF _ e] by (simp add: same_monitored_def)
qed

section \<open>The interface of the taps\<close>

lemma ka_register:
  assumes "ka_ok canon ka" "canon_target canon t"
  shows "ka_ok canon (na_Register ka_server t ka) \<and> ka_view (na_Register ka_server t ka) =
    (ka_view ka)(target_key t \<mapsto> (target_context t, if ka_view ka (target_key t) = None then DISABLED else target_status t))"
proof -
  obtain trm where trm: "ka_TargetRegistry ka = Some trm" "registry_inv trm" using assms(1) by (auto simp: ka_ok_def)
  have v: "ka_view ka = registry_abs trm" using trm(1) by (simp add: ka_view_def)
  have m: "same_monitored canon (ka_targets ka) (ka_view ka)" using assms(1) by (simp add: ka_ok_def)
  define u where "u = (if ka_targets ka (GetTargetID t) = None then t\<lparr>target_status := DISABLED\<rparr> else t)"
  have u: "canon_target canon u" "target_key u = target_key t" "GetTargetID u = GetTargetID t" "target_context u = target_context t"
      "target_status u = (if ka_view ka (target_key t) = None then DISABLED else target_status t)"
    using assms(2) m by (simp_all add: u_def same_monitored_def)
  then have "wf_target u" by (simp add: canon_target_def plain_target_def)
  then obtain trm' where s: "trm_Set u trm = Some trm'" "registry_inv trm'" "registry_abs trm' = (registry_abs trm)(target_key u \<mapsto> (target_context u, target_status u))"
    using trm_Set_returns [OF trm(2)] by metis
  define ka' where "ka' = ka_add u (ka\<lparr>ka_TargetRegistry := Some trm'\<rparr>)"
  have r: "na_Register ka_server t ka = ka'"
    using trm(1) s(1) by (simp add: ka_server_def nsp_Register_def ka_Set_def u_def [symmetric] memory_api_def Let_def ka'_def)
  have v': "ka_view ka' = (ka_view ka)(target_key t \<mapsto> (target_context t, target_status u))"
    using s(3) u v by (simp add: ka'_def ka_view_def)
  moreover have "ka_ok canon ka'"
    unfolding ka_ok_def
  proof (intro conjI)
    show "\<exists>trm. ka_TargetRegistry ka' = Some trm \<and> registry_inv trm" using s(2) by (simp add: ka'_def)
    have "fst (target_key t) \<noteq> {}" using assms(2) by (simp add: canon_target_def plain_target_def target_key_def)
    then show "\<forall>\<kappa> \<in> dom (ka_view ka'). fst \<kappa> \<noteq> {}" unfolding v' using assms(1) by (simp add: ka_ok_def)
    show "same_monitored canon (ka_targets ka') (ka_view ka')"
      unfolding v' using same_monitored_add [OF m assms(2)] u(3) by (simp add: ka'_def)
    show "\<forall>(c, t) \<in> set (ka_timers ka'). canon_target canon t" using assms(1) u(1) by (auto simp: ka'_def ka_ok_def)
  qed
  ultimately show ?thesis unfolding r u(5) by blast
qed

lemma ka_remove_ok:
  assumes "ka_ok canon ka" "canon_unregister canon t" "ka_remove memory_api t ka = (e, ka')"
  shows "ka_ok canon ka' \<and> ka_view ka' = (ka_view ka)(target_key t := None)"
proof -
  obtain trm where trm: "ka_TargetRegistry ka = Some trm" "registry_inv trm" using assms(1) by (auto simp: ka_ok_def)
  have v: "ka_view ka = registry_abs trm" using trm(1) by (simp add: ka_view_def)
  have "wf_target t" using assms(2) by (auto simp: canon_unregister_def canon_target_def plain_target_def)
  then obtain trm' where s: "trm_Remove t trm = Some trm'" "registry_inv trm'" "registry_abs trm' = (registry_abs trm)(target_key t := None)"
    using trm_Remove_returns [OF trm(2)] by metis
  have r: "ka_TargetRegistry ka' = Some trm'" using assms(3) trm(1) s(1) by (auto simp: ka_remove_def memory_api_def Let_def)
  note f = ka_remove_fields(1,2) [OF assms(3)]
  have v': "ka_view ka' = (ka_view ka)(target_key t := None)" using s(3) v r by (simp add: ka_view_def)
  moreover have "ka_ok canon ka'"
    unfolding ka_ok_def
  proof (intro conjI)
    show "\<exists>trm. ka_TargetRegistry ka' = Some trm \<and> registry_inv trm" using s(2) r by simp
    show "\<forall>\<kappa> \<in> dom (ka_view ka'). fst \<kappa> \<noteq> {}" unfolding v' using assms(1) by (simp add: ka_ok_def)
    show "same_monitored canon (ka_targets ka') (ka_view ka')"
      unfolding v' f using same_monitored_delete assms(1,2) by (simp add: ka_ok_def)
    show "\<forall>(c, t) \<in> set (ka_timers ka'). canon_target canon t" using assms(1) f(2) by (simp add: ka_ok_def)
  qed
  ultimately show ?thesis by blast
qed

lemma ka_unregister:
  assumes "ka_ok canon ka" "canon_unregister canon t"
  shows "ka_ok canon (na_Unregister ka_server t ka) \<and> ka_view (na_Unregister ka_server t ka) = (ka_view ka)(target_key t := None)"
proof -
  obtain e ka' where r: "ka_remove memory_api t ka = (e, ka')" by fastforce
  then have "na_Unregister ka_server t ka = ka'" by (cases e) (simp_all add: ka_server_def nsp_Unregister_def ka_Remove_def)
  with ka_remove_ok [OF assms r] show ?thesis by simp
qed

lemma ka_get:
  assumes "ka_ok canon ka" "stream_path (as_ToNSP s) = Some p"
  shows "(\<exists>u \<in> set (na_GetTargets ka_server (tap_selector s) ka). target_key u = \<kappa> \<and> target_context u = c \<and> target_status u = st) \<longleftrightarrow>
      ka_view ka \<kappa> = Some (c, st) \<and> fst (snd \<kappa>) = p \<and> snd (snd \<kappa>) = DEFAULT"
proof -
  obtain trm where trm: "ka_TargetRegistry ka = Some trm" "registry_inv trm" using assms(1) by (auto simp: ka_ok_def)
  have g: "na_GetTargets ka_server (tap_selector s) ka = trm_Get (Some (tap_selector s)) trm"
    using trm(1) by (simp add: ka_server_def ka_Get_def memory_api_def)
  have wf: "wf_target u" if "u \<in> set (trm_targets trm)" for u using that trm(2) by (simp add: registry_inv_def)
  have sel: "TargetFilter (Some (tap_selector s)) (Some u) \<longleftrightarrow> fst (snd (target_key u)) = p \<and> snd (snd (target_key u)) = DEFAULT" if "wf_target u" for u
  proof -
    obtain x q where q: "target_stream u = Some x" "stream_path x = Some q" using \<open>wf_target u\<close> by (auto simp: wf_target_def split: option.splits)
    have "StreamFilter (Some (as_ToNSP s)) (Some x) \<longleftrightarrow> p = q" by (rule stream_filter_path(1) [OF assms(2) q(2)])
    then show ?thesis using q by (auto simp: tap_selector_def target_key_def)
  qed
  show "(\<exists>u \<in> set (na_GetTargets ka_server (tap_selector s) ka). target_key u = \<kappa> \<and> target_context u = c \<and> target_status u = st) \<longleftrightarrow>
      ka_view ka \<kappa> = Some (c, st) \<and> fst (snd \<kappa>) = p \<and> snd (snd \<kappa>) = DEFAULT"
    unfolding g ka_view_def trm(1) option.case abs_Some [OF trm(2)] Bex_def Get_iff using sel [OF wf] by blast
qed

lemma ka_get_distinct:
  assumes "ka_ok canon ka" "u \<in> set (na_GetTargets ka_server sel ka)"
  shows "distinct (target_ips u)"
proof -
  obtain trm where trm: "ka_TargetRegistry ka = Some trm" "registry_inv trm" using assms(1) by (auto simp: ka_ok_def)
  then have "u \<in> set (trm_Get (Some sel) trm)" using assms(2) by (simp add: ka_server_def ka_Get_def memory_api_def)
  then show ?thesis using trm(2) by (auto simp: Get_iff registry_inv_def wf_target_def)
qed

lemma ka_expire:
  assumes "ka_ok canon ka"
  shows "ka_ok canon (na_expire ka_server x ka) \<and>
    (\<forall>\<kappa>. ka_view (na_expire ka_server x ka) \<kappa> = ka_view ka \<kappa> \<or> ka_view (na_expire ka_server x ka) \<kappa> = None)"
proof (cases "find (\<lambda>(c, t). c = x) (ka_timers ka)")
  case None
  then have "na_expire ka_server x ka = ka" by (simp add: ka_server_def)
  then show ?thesis using assms by simp
next
  case (Some p)
  obtain ctx t where p: "p = (ctx, t)" by (cases p)
  have mem: "(ctx, t) \<in> set (ka_timers ka)" using Some p by (auto simp: find_Some_iff) (metis nth_mem)
  let ?ka = "ka\<lparr>ka_timers := remove1 (ctx, t) (ka_timers ka)\<rparr>"
  have v: "ka_view ?ka = ka_view ka" by (simp add: ka_view_def)
  have ok: "ka_ok canon ?ka" "canon_unregister canon t"
    using assms mem set_remove1_subset [of "(ctx, t)" "ka_timers ka"] unfolding ka_ok_def v by (auto simp: canon_unregister_def)
  obtain e ka' where t: "ka_timeout memory_api ctx t ka = (e, ka')" by fastforce
  have r: "na_expire ka_server x ka = ka'" using Some p t by (simp add: ka_server_def)
  from ka_timeout_cases [OF t] show ?thesis
  proof (elim disjE)
    assume "(e, ka') = (None, ?ka)"
    then show ?thesis unfolding r using ok(1) v by simp
  next
    assume "ka_remove memory_api t ?ka = (e, ka')"
    from ka_remove_ok [OF ok this] show ?thesis unfolding r v by simp
  qed
qed

interpretation ka_registry: tap_registry ka_server "ka_ok canon" ka_view "canon_target canon" "canon_unregister canon" for canon
  using ka_register ka_unregister ka_get ka_get_distinct ka_expire by unfold_locales

section \<open>Lemmas: the examples\<close>

lemma ex_ip_eq [simp]: "ex_ip j = ex_ip k \<longleftrightarrow> j = k"
  by (simp add: ex_ip_def)

lemma ex_entry_fields [simp]:
  "target_ips (ex_entry k i st) = [ex_ip k]" "context_identifier (target_context (ex_entry k i st)) = itoa i" "target_status (ex_entry k i st) = st"
  "ex_entry k i st\<lparr>target_status := st'\<rparr> = ex_entry k i st'"
  "(ex_entry k i st)\<lparr>target_context := target_context (ex_entry k i' st'), target_status := st''\<rparr> = ex_entry k i' st''"
  by (simp_all add: ex_entry_def tap_getTarget_def)

lemma ex_entry_id [simp]: "GetTargetID (ex_entry k i st) = ex_ip k @ ''-'' @ itoa 0 @ ''-s.c.t''"
  by (simp add: ex_entry_def tap_getTarget_def GetTargetID_def SerializeIPs_def SerializeType_def getTargetStream_def getTargetConduit_def
      getTargetTrench_def ex_stream_def as_ToNSP_def ac_ToNSP_def at_ToNSP_def ac_GetName_def ac_GetTrench_def at_GetName_def)

lemma ex_entry_key [simp]: "key_Equals (getTargetKey (ex_entry k i st)) (getTargetKey (ex_entry j i' st')) \<longleftrightarrow> k = j"
  by (auto simp: ex_entry_def tap_getTarget_def key_Equals_def getTargetKey_def CompareIps_def ex_stream_def as_ToNSP_def ac_ToNSP_def at_ToNSP_def
      Let_def)

lemma ex_entry_selected [simp]: "TargetFilter (Some (tap_selector ex_stream)) (Some (ex_entry k i st))"
  by (simp add: ex_entry_def tap_getTarget_def tap_selector_def ex_stream_def as_ToNSP_def ac_ToNSP_def at_ToNSP_def ac_GetName_def
      ac_GetTrench_def at_GetName_def)

lemma ex_own [simp]: "sameIps [ex_ip j] [ex_ip k] \<longleftrightarrow> j = k"
  by (auto simp: sameIps_def)

lemmas ex_eval = tap_Open_def tap_open_def tap_next_def tap_call_def after_get_def after_loop_def after_refresh_def setIdentifier_def
  set_identifier.simps isIdentifierValid_def isIdentifierInRange_def checkIdentifierCollision_def identifiers_in_use_def set_tap_def
  ka_server_def nsp_Register_def ka_Set_def ka_add_def ka_Get_def ka_timeout_def ka_remove_def memory_api_def trm_Set_def trm_Remove_def
  trm_Get_def trm_getIndex_def Filter_def notifyAllWatchers_def remove_index_def Let_def ex_entry_def [symmetric]

text \<open>A run in which nothing fails or expires is timely.\<close>

lemma prompt_run:
  assumes "tap_reach api cfg r0 s" "tap_run api cfg as s = Some s'" "list_all (\<lambda>a. case a of AExpire x \<Rightarrow> False | ANext k out ds \<Rightarrow> out = Done | _ \<Rightarrow> True) as"
  shows "tap_reach api cfg r0 s'"
  using assms
proof (induction as arbitrary: s)
  case (Cons a as)
  then obtain s1 where s1: "tap_do api cfg a s = Some s1" "tap_run api cfg as s1 = Some s'" by (auto split: bind_splits)
  have "timely api cfg a s" using Cons.prems(3) by (cases a) auto
  note r = tap_reach.step [OF Cons.prems(1) this s1(1)]
  show ?case by (rule Cons.IH [OF r s1(2)]) (use Cons.prems(3) in simp)
qed simp

lemma ex_opens_run: "Option.bind (tap_run ka_server ex_taps (ex_opens 0 0 @ ex_opens 1 1) (tap_init ex_taps ex_ka)) listed =
    Some [ex_entry 0 1 ENABLED, ex_entry 1 2 ENABLED]"
  by (simp add: ex_opens_def ex_taps_def tap_init_def ex_ka_def tap_New_def trm_New_def ex_eval listed_def del: TargetFilter.simps)

lemma ex_chars: "CHR '';'' \<notin> set (ex_ip k)" "CHR ''-'' \<notin> set (ex_ip k)" "ex_ip k \<noteq> []"
proof -
  have "CHR '';'' \<notin> set (show_nat k)" using show_base_chars [of 10 "CHR '';''" k] by (auto simp: show_nat_def char_digit_def)
  then show "CHR '';'' \<notin> set (ex_ip k)" by (simp add: ex_ip_def itoa_def)
  show "CHR ''-'' \<notin> set (ex_ip k)" "ex_ip k \<noteq> []" using show_nat_chars(4) [of k] by (simp_all add: ex_ip_def itoa_def)
qed

lemma ex_taps_ok: "cfg_ok ex_taps" "plain_taps ex_taps"
proof -
  have "stream_path (as_ToNSP ex_stream) = Some (''s'', ''c'', ''t'')"
    by (simp add: stream_path_def ex_stream_def as_ToNSP_def ac_ToNSP_def at_ToNSP_def ac_GetName_def ac_GetTrench_def at_GetName_def)
  then show "cfg_ok ex_taps" by (simp add: cfg_ok_def ex_taps_def inj_def tap_key_def)
  show "plain_taps ex_taps"
    using ex_chars by (auto simp: plain_taps_def ex_taps_def inj_on_def tap_selector_def getTargetStream_def getTargetConduit_def getTargetTrench_def
        ex_stream_def as_ToNSP_def ac_ToNSP_def at_ToNSP_def ac_GetName_def ac_GetTrench_def at_GetName_def Let_def)
qed

lemma ka_New_empty: "ka_New memory_api (Some trm_New) = Inr ex_ka"
  by (simp add: ka_New_def ka_restore_def ka_Get_def memory_api_def trm_Get_def Filter_def trm_New_def ex_ka_def)

section \<open>Lemmas: the taps over the registry\<close>

lemma ka_New_ok: "ka_New memory_api (Some trm_New) = Inr ka \<Longrightarrow> ka_ok canon ka \<and> ka_view ka = Map.empty"
  unfolding ka_New_empty sum.inject
  by (auto simp: ex_ka_def ka_ok_def ka_view_def same_monitored_def registry_abs_def registry_inv_def trm_New_def)

lemma plain_targets_ok:
  assumes "cfg_ok cfg" "plain_taps cfg"
  defines "canon \<equiv> inv_into (range (cfg_ips cfg)) set"
  shows "targets_ok cfg (canon_target canon) (canon_unregister canon)"
proof -
  have wf: "wf_target (tap_getTarget s)" if "ts_Stream s = cfg_stream cfg k" "ts_ips s = cfg_ips cfg k \<or> ts_ips s = []" for s k
    using that assms(1) by (auto simp: cfg_ok_def wf_target_def tap_getTarget_def)
  have ct: "canon_target canon (tap_getTarget s)" if s: "ts_Stream s = cfg_stream cfg k" "ts_ips s = cfg_ips cfg k" for s k
  proof -
    have "canon (set (cfg_ips cfg k)) = cfg_ips cfg k" using assms(2) by (simp add: canon_def plain_taps_def inv_into_f_f)
    moreover have "cfg_ips cfg k \<noteq> []" using assms(1) by (simp add: cfg_ok_def)
    moreover have "\<forall>ip \<in> set (cfg_ips cfg k). ip \<noteq> [] \<and> CHR '';'' \<notin> set ip \<and> CHR ''-'' \<notin> set ip"
      using assms(2) by (simp add: plain_taps_def Let_def)
    moreover have "CHR ''.'' \<notin> set (getTargetStream (tap_getTarget s))" "CHR ''.'' \<notin> set (getTargetConduit (tap_getTarget s))"
        "CHR ''.'' \<notin> set (getTargetTrench (tap_getTarget s))"
      using assms(2) s(1)
      by (simp_all add: plain_taps_def Let_def tap_selector_def tap_getTarget_def getTargetStream_def getTargetConduit_def getTargetTrench_def)
    moreover have "target_ips (tap_getTarget s) = cfg_ips cfg k" using s(2) by (simp add: tap_getTarget_def)
    ultimately show ?thesis using wf [of s k] s unfolding canon_target_def plain_target_def by auto
  qed
  have "target_ips (tap_getTarget s) = ts_ips s" for s by (simp add: tap_getTarget_def)
  then show ?thesis using wf ct unfolding targets_ok_def canon_unregister_def by metis
qed

lemma same_stream:
  assumes "wf_target t" "wf_target u" "stream_Equals (target_stream t) (target_stream u)"
  shows "fst (snd (target_key t)) = fst (snd (target_key u))"
proof -
  obtain x p y q where x: "target_stream t = Some x" "stream_path x = Some p" "target_stream u = Some y" "stream_path y = Some q"
    using assms(1,2) by (auto simp: wf_target_def split: option.splits)
  then have "p = q" using stream_filter_path(2) [OF x(2,4)] assms(3) unfolding x(1,3) by blast
  then show ?thesis using x by (simp add: target_key_def)
qed

lemma stored_view:
  assumes "ka_ok canon ka" "ka_TargetRegistry ka = Some trm" "t \<in> set (trm_targets trm)"
  shows "ka_view ka (target_key t) = Some (target_context t, target_status t)" "wf_target t"
    "u \<in> set (trm_targets trm) \<Longrightarrow> target_key u = target_key t \<Longrightarrow> u = t"
proof -
  have inv: "registry_inv trm" using assms(1,2) by (auto simp: ka_ok_def)
  show "ka_view ka (target_key t) = Some (target_context t, target_status t)"
    unfolding ka_view_def assms(2) option.case using abs_Some [OF inv] assms(3) by blast
  show "wf_target t" using inv assms(3) by (simp add: registry_inv_def)
  show "u \<in> set (trm_targets trm) \<Longrightarrow> target_key u = target_key t \<Longrightarrow> u = t"
    using inv assms(3) by (auto simp: registry_inv_def distinct_map inj_on_def)
qed

section \<open>Properties\<close>




end
