(* ===== verification/Spec2Isabelle.thy ===== *)
theory Spec2Isabelle
  imports IpamExample LbProps FwMark LbService ConfigWatch AdmissionResources TapRegistry
begin

text \<open>
  A verification library for Meridio (directory \<open>src/\<close>), which attracts external traffic to a
  Kubernetes cluster and spreads it over application pods.

  \<^bold>\<open>The program.\<close> A \<^emph>\<open>trench\<close> is an isolated network; it has \<^emph>\<open>conduits\<close> (network services), a conduit
  has \<^emph>\<open>streams\<close>, and a stream has \<^emph>\<open>flows\<close>, which select traffic. The configuration of a trench is a
  config map. The NSP service reads it, serves it to watchers, and keeps the registry of \<^emph>\<open>targets\<close>,
  the pods that joined a stream. The IPAM service gives addresses to the proxies and targets of each
  conduit. The load balancer of a conduit watches the streams, flows and targets at the NSP and
  programs the external program \<open>nfqlb\<close> and the routing of the kernel; it announces itself while it
  can forward.

  \<^bold>\<open>Foundations.\<close> \<open>Prelude\<close> has strings, numbers as text, wrapped errors and loops over maps; a Go map
  loop gets its visiting order as an argument, and the properties hold for every order. \<open>GoNet\<close> is the
  part of Go's \<open>net\<close> and \<open>net/netip\<close> that the code uses, with byte addresses and parsing of CIDRs.

  \<^bold>\<open>IPAM\<close> (\<open>pkg/ipam\<close>, \<open>cmd/ipam\<close>).
  \<^item> \<open>IpamPrefix\<close> is \<open>prefix/ip.go\<close>: \<open>LastIP\<close> is the highest address, \<open>NextPrefix\<close> the adjacent network
    unless a byte 254 receives a carry, and \<open>OverlappingPrefixes\<close> means a shared address.
  \<^item> \<open>IpamAlloc\<close> is \<open>prefix/prefix.go\<close> and \<open>prefix/allocate.go\<close> over the interface of a store, a record
    of functions on its state. What \<open>AllocateWithBlocklist\<close> returns is safe for every store. The locale
    \<open>prefix_store\<close> holds the laws of a store and, in it, the termination of the allocator.
  \<^item> \<open>IpamMemory\<close> is \<open>storage/memory\<close> and interprets \<open>prefix_store\<close>.
  \<^item> \<open>IpamTree\<close> is \<open>node\<close>, \<open>conduit\<close>, \<open>trench\<close>, the conduit watcher and the gRPC handlers. Prefixes that
    are not beneath each other are disjoint in every reachable state; \<open>Allocate\<close> is stable, \<open>Release\<close>
    frees, \<open>SetConduits\<close> removes exactly the old conduits, and pods get usable addresses.
  \<^item> \<open>IpamExample\<close> is a run that instantiates these properties.

  \<^bold>\<open>NSP\<close> (\<open>api/nsp/v1\<close>, \<open>pkg/nsp\<close>).
  \<^item> \<open>NspApi\<close> has the messages and the functions on them: equality, \<open>DeepEquals\<close>, filters, differences.
  \<^item> \<open>TargetRegistry\<close> is the registry in memory with its watchers. It implements a map from keys of
    targets, and no watcher misses the current selection.
  \<^item> \<open>KeepAlive\<close> is \<open>registry/keepalive\<close> and the identifiers of \<open>registry/sqlite\<close>. The locale
    \<open>monitored_registry\<close> says what the middleware needs of a registry; it is interpreted on the
    registry in memory. Every stored target can expire, and only an unrefreshed one does.

  \<^bold>\<open>Configuration\<close> (\<open>pkg/configuration\<close>).
  \<^item> \<open>Config\<close> is the reader, the registry and the monitor: the converter keeps exactly the resources
    whose parent exists, so all references in the registry can be resolved.
  \<^item> \<open>ConfigWatch\<close> is the notifier and the server. Its goroutines are steps that interleave. A watcher
    is up to date once nothing is on its way, unless a change overtook its registration, and the run
    in which that happens is given.

  \<^bold>\<open>Load balancer\<close> (\<open>pkg/loadbalancer\<close>, \<open>cmd/stateless-lb\<close>, \<open>pkg/kernel/fwmark.go\<close>).
  \<^item> \<open>LbIdentifier\<close> is \<open>identifier.go\<close> with 64-bit integers: the ranges of streams are disjoint and the
    search ends with the least free offset.
  \<^item> \<open>LbAvailability\<close> is \<open>availability.go\<close> as interleaved steps: no update is lost or sent twice.
  \<^item> \<open>LbStream\<close> is a stream with its targets and flows, \<open>LbTargets\<close> the reasoning on it and \<open>LbProps\<close>
    its properties: the targets and flows are those of the last response, registered targets have
    routes and pending ones have none, and the stream is announced exactly while it has a target.
  \<^item> \<open>Nfqlb\<close> is the command line of every call of \<open>nfqlb\<close> and the statistics read back.
  \<^item> \<open>FwMark\<close> is \<open>fwmark.go\<close>: a route is made completely or its rule is removed.
  \<^item> \<open>LbService\<close> is \<open>SimpleNetworkService\<close> and \<open>FrontendNetworkService\<close>: the streams follow the
    responses, interfaces are unique per subnet, and a blocked service has no interfaces.

  \<^bold>\<open>Conventions.\<close> A struct is a record and a method a function that returns the new state. A method that
  holds a mutex throughout is one step; where goroutines share state, the steps between two lock
  operations or channel operations interleave in an inductive reachability relation. Errors are values,
  and \<open>None\<close> of an otherwise total operation is a panic. Log output is left out. Libraries and programs
  that are not part of the repository (netlink, \<open>nfqlb\<close>, YAML, gRPC streams) are arguments: records of
  functions over a world, about which a property assumes only what it names.

  \<^bold>\<open>Bounds.\<close> The loops of the allocator and of the offset generator are partial functions whose value
  \<open>None\<close> is divergence; that they return is proved. The recursion of the store's \<open>delete\<close> has as fuel
  the greatest depth of a stored prefix, plus one, and \<open>IpamMemory\<close> proves that this is enough.

  \<^bold>\<open>Not modelled.\<close>
  \<^item> The tap of the ambassador (\<open>pkg/ambassador\<close>), the proxy (\<open>pkg/proxy\<close>, \<open>cmd/proxy\<close>), the frontend
    (\<open>cmd/frontend\<close>) and NAT (\<open>pkg/nat\<close>): their state is left for a later extension.
  \<^item> The SQLite stores: their behaviour is that of the queries of a library. The allocator and the
    middleware are verified for all stores with the stated laws.
  \<^item> The operator (\<open>pkg/controllers\<close>, \<open>api/v1\<close>): reconciliation through the Kubernetes client.
  \<^item> Netfilter and the other netlink wrappers: calls whose effect is in the kernel.
  \<^item> \<open>main\<close> functions, health, logging, metrics and generated code.
\<close>

end
